(* ===== verification/Prelude.thy ===== *)
theory Prelude
  imports Main "HOL-Library.Word" "HOL-Library.Code_Target_Nat"
begin

text \<open>
  The vocabulary every component of the provider shares: machine words and byte strings, the
  byte-order conversions and decimal printing that Rust's standard library gives the code, the
  ASCII case mapping, and the interface of an asynchronous reader.

  A Rust \<open>String\<close> is a sequence of UTF-8 bytes; it is a \<open>string\<close> here, one \<open>char\<close> per byte, so
  that literals stay readable and \<open>length\<close> counts what \<open>str::len\<close> counts. \<open>as_bytes\<close> is the cast
  to \<open>8 word\<close>s. A fallible function returns a sum: \<open>Inl\<close> the error, \<open>Inr\<close> the value.
\<close>

named_theorems demo_laws "the example libraries of the witnesses satisfy the laws assumed of the real ones"

section \<open>Machine words and byte strings\<close>

type_synonym u8 = "8 word"
type_synonym u16 = "16 word"
type_synonym u32 = "32 word"
type_synonym u64 = "64 word"
type_synonym bytes = "8 word list"

lemma unat_bound: "unat (w :: 'a::len word) < 2 ^ LENGTH('a)"
  by (rule unsigned_less)

definition as_bytes :: "string \<Rightarrow> bytes" where
  "as_bytes s = map of_char s"

definition of_bytes :: "bytes \<Rightarrow> string" where
  "of_bytes bs = map (\<lambda>b. char_of (unat b)) bs"

lemma unat_of_char [simp]: "unat (of_char c :: u8) = of_char c"
proof -
  have "(of_char c :: u8) = of_nat (of_char c)"
    by (simp add: of_nat_of_char)
  then have "unat (of_char c :: u8) = of_char c mod 256"
    by (simp add: unat_of_nat)
  then show ?thesis by simp
qed

lemma of_char_char_of_word [simp]: "of_char (char_of (unat b)) = (b :: u8)"
proof -
  have "unat (of_char (char_of (unat b)) :: u8) = unat b"
    using unat_bound [of b] by simp
  then show ?thesis by (simp only: word_unat_eq_iff)
qed

lemma of_bytes_as_bytes [simp]: "of_bytes (as_bytes s) = s"
  by (simp add: as_bytes_def of_bytes_def map_idI)

lemma as_bytes_of_bytes [simp]: "as_bytes (of_bytes bs) = bs"
  by (induction bs) (simp_all add: as_bytes_def of_bytes_def)

lemma as_bytes_simps [simp]:
  "as_bytes [] = []"
  "as_bytes (c # s) = of_char c # as_bytes s"
  "as_bytes (s @ t) = as_bytes s @ as_bytes t"
  "length (as_bytes s) = length s"
  by (simp_all add: as_bytes_def)

lemma of_bytes_simps [simp]:
  "of_bytes [] = []"
  "of_bytes (b # bs) = char_of (unat b) # of_bytes bs"
  "of_bytes (bs @ cs) = of_bytes bs @ of_bytes cs"
  "length (of_bytes bs) = length bs"
  by (simp_all add: of_bytes_def)

lemma as_bytes_inject [simp]: "as_bytes s = as_bytes t \<longleftrightarrow> s = t"
  by (metis of_bytes_as_bytes)

lemma of_bytes_inject [simp]: "of_bytes s = of_bytes t \<longleftrightarrow> s = t"
  by (metis as_bytes_of_bytes)

lemma in_set_as_bytes [simp]: "of_char c \<in> set (as_bytes s) \<longleftrightarrow> c \<in> set s"
proof
  assume "of_char c \<in> set (as_bytes s)"
  then obtain d where d: "d \<in> set s" "of_char c = (of_char d :: u8)"
    by (auto simp: as_bytes_def)
  then have "unat (of_char c :: u8) = unat (of_char d :: u8)"
    by simp
  then have "c = d"
    by (simp only: unat_of_char of_char_eq_iff)
  with d show "c \<in> set s" by simp
qed (simp add: as_bytes_def)

section \<open>Byte order: \<open>to_le_bytes\<close>, \<open>to_be_bytes\<close> and their inverses\<close>

primrec le_digits :: "nat \<Rightarrow> nat \<Rightarrow> bytes" where
  "le_digits 0 k = []"
| "le_digits (Suc n) k = of_nat (k mod 256) # le_digits n (k div 256)"

primrec le_value :: "bytes \<Rightarrow> nat" where
  "le_value [] = 0"
| "le_value (b # bs) = unat b + 256 * le_value bs"

text \<open>\<open>n\<close> is the width of the integer type in bytes: 2 for \<open>u16\<close>, 4 for \<open>u32\<close>, 8 for \<open>u64\<close>.\<close>

definition to_le_bytes :: "nat \<Rightarrow> 'a::len word \<Rightarrow> bytes" where
  "to_le_bytes n w = le_digits n (unat w)"

definition from_le_bytes :: "bytes \<Rightarrow> 'a::len word" where
  "from_le_bytes bs = of_nat (le_value bs)"

definition to_be_bytes :: "nat \<Rightarrow> 'a::len word \<Rightarrow> bytes" where
  "to_be_bytes n w = rev (to_le_bytes n w)"

definition from_be_bytes :: "bytes \<Rightarrow> 'a::len word" where
  "from_be_bytes bs = from_le_bytes (rev bs)"

lemma length_le_digits [simp]: "length (le_digits n k) = n"
  by (induction n arbitrary: k) simp_all

lemma length_to_bytes [simp]:
  "length (to_le_bytes n w) = n" "length (to_be_bytes n w) = n"
  by (simp_all add: to_le_bytes_def to_be_bytes_def)

lemma unat_u8_mod: "unat (of_nat (k mod 256) :: u8) = k mod 256"
  by (simp add: unat_of_nat)

lemma le_value_digits: "le_value (le_digits n k) = k mod 256 ^ n"
proof (induction n arbitrary: k)
  case 0
  then show ?case by simp
next
  case (Suc n)
  have "k mod 256 ^ Suc n = k mod 256 + 256 * (k div 256 mod 256 ^ n)"
    by (simp add: mod_mult2_eq)
  with Suc show ?case by (simp add: unat_u8_mod unat_of_nat)
qed

lemma le_digits_value: "le_digits (length bs) (le_value bs) = bs"
proof (induction bs)
  case Nil
  then show ?case by simp
next
  case (Cons b bs)
  have b: "unat b < 256"
    using unat_bound [of b] by simp
  then have "(unat b + 256 * le_value bs) mod 256 = unat b"
    and "(unat b + 256 * le_value bs) div 256 = le_value bs"
    by simp_all
  with Cons show ?case by simp
qed

lemma le_value_bound: "le_value bs < 256 ^ length bs"
  by (metis le_digits_value le_value_digits mod_less_divisor zero_less_numeral zero_less_power)

lemma from_to_le_bytes:
  "256 ^ n = (2::nat) ^ LENGTH('a::len) \<Longrightarrow> from_le_bytes (to_le_bytes n w) = (w :: 'a word)"
  using unat_bound [of w] by (simp add: from_le_bytes_def to_le_bytes_def le_value_digits)

lemma from_to_be_bytes:
  "256 ^ n = (2::nat) ^ LENGTH('a::len) \<Longrightarrow> from_be_bytes (to_be_bytes n w) = (w :: 'a word)"
  by (simp add: from_be_bytes_def to_be_bytes_def from_to_le_bytes)

lemma to_from_le_bytes:
  assumes "256 ^ length bs = (2::nat) ^ LENGTH('a::len)"
  shows "to_le_bytes (length bs) (from_le_bytes bs :: 'a word) = bs"
proof -
  have "unat (of_nat (le_value bs) :: 'a word) = le_value bs"
    using le_value_bound [of bs] assms by (simp add: unat_of_nat)
  then show ?thesis
    by (simp add: to_le_bytes_def from_le_bytes_def le_digits_value)
qed

lemma to_from_le_bytes_4: "length bs = 4 \<Longrightarrow> to_le_bytes 4 (from_le_bytes bs :: u32) = bs"
  using to_from_le_bytes [of bs, where 'a = 32] by simp

lemma to_from_be_bytes_2: "length bs = 2 \<Longrightarrow> to_be_bytes 2 (from_be_bytes bs :: u16) = bs"
  using to_from_le_bytes [of "rev bs", where 'a = 16] by (simp add: to_be_bytes_def from_be_bytes_def)

lemma from_to_bytes [simp]:
  "from_le_bytes (to_le_bytes 4 w) = (w :: u32)"
  "from_be_bytes (to_be_bytes 2 v) = (v :: u16)"
  "from_be_bytes (to_be_bytes 8 x) = (x :: u64)"
  by (simp_all add: from_to_le_bytes from_to_be_bytes)

lemma to_be_bytes_inject [simp]:
  "to_be_bytes 2 a = to_be_bytes 2 b \<longleftrightarrow> a = (b :: u16)"
  "to_be_bytes 8 c = to_be_bytes 8 d \<longleftrightarrow> c = (d :: u64)"
  by (metis from_to_bytes(2)) (metis from_to_bytes(3))

section \<open>Decimal printing (\<open>Display\<close> of the unsigned integer types)\<close>

definition digit_char :: "nat \<Rightarrow> char" where
  "digit_char d = char_of (48 + d)"

fun show_nat :: "nat \<Rightarrow> string" where
  "show_nat n = (if n < 10 then [digit_char n] else show_nat (n div 10) @ [digit_char (n mod 10)])"

declare show_nat.simps [simp del]

definition digit_value :: "char \<Rightarrow> nat" where
  "digit_value c = of_char c - 48"

definition is_digit :: "char \<Rightarrow> bool" where
  "is_digit c \<longleftrightarrow> 48 \<le> (of_char c :: nat) \<and> (of_char c :: nat) \<le> 57"

definition dec_value :: "string \<Rightarrow> nat" where
  "dec_value s = foldl (\<lambda>n c. 10 * n + digit_value c) 0 s"

lemma digit_char_props:
  assumes "d < 10"
  shows "digit_value (digit_char d) = d" and "is_digit (digit_char d)"
  using assms by (simp_all add: digit_char_def digit_value_def is_digit_def)

lemma show_nat_digits: "c \<in> set (show_nat n) \<Longrightarrow> is_digit c"
proof (induction n rule: show_nat.induct)
  case (1 n)
  then show ?case
    by (cases "n < 10") (auto simp: show_nat.simps [of n] digit_char_props)
qed

lemma dec_value_show_nat [simp]: "dec_value (show_nat n) = n"
proof (induction n rule: show_nat.induct)
  case (1 n)
  then show ?case
    by (cases "n < 10") (simp_all add: show_nat.simps [of n] dec_value_def digit_char_props)
qed

lemma show_nat_inject [simp]: "show_nat m = show_nat n \<longleftrightarrow> m = n"
  by (metis dec_value_show_nat)

lemma bar_not_digit [simp]: "\<not> is_digit (CHR ''|'')"
  by (simp add: is_digit_def)

lemma show_nat_no_bar [simp]: "CHR ''|'' \<notin> set (show_nat n)"
  using show_nat_digits bar_not_digit by blast

section \<open>ASCII case mapping (\<open>to_ascii_lowercase\<close>, \<open>eq_ignore_ascii_case\<close>)\<close>

definition ascii_lower :: "char \<Rightarrow> char" where
  "ascii_lower c =
     (if 65 \<le> (of_char c :: nat) \<and> (of_char c :: nat) \<le> 90 then char_of (of_char c + 32 :: nat) else c)"

definition to_ascii_lowercase :: "string \<Rightarrow> string" where
  "to_ascii_lowercase s = map ascii_lower s"

definition eq_ignore_ascii_case :: "string \<Rightarrow> string \<Rightarrow> bool" where
  "eq_ignore_ascii_case s t \<longleftrightarrow> to_ascii_lowercase s = to_ascii_lowercase t"

lemma ascii_lower_idem [simp]: "ascii_lower (ascii_lower c) = ascii_lower c"
  by (simp add: ascii_lower_def)

lemma to_ascii_lowercase_idem [simp]:
  "to_ascii_lowercase (to_ascii_lowercase s) = to_ascii_lowercase s"
  by (simp add: to_ascii_lowercase_def)

section \<open>Splitting at a separator\<close>

lemma append_sep_inject:
  assumes "x \<notin> set xs" and "x \<notin> set ys"
  shows "xs @ x # us = ys @ x # vs \<longleftrightarrow> xs = ys \<and> us = vs"
  using assms
proof (induction xs arbitrary: ys)
  case Nil
  then show ?case by (cases ys) auto
next
  case (Cons a xs)
  then show ?case by (cases ys) auto
qed

section \<open>Filtering maps over lists (\<open>filter_map\<close>)\<close>

lemma set_map_filter: "set (List.map_filter f xs) = {y. \<exists>x\<in>set xs. f x = Some y}"
  by (induction xs) (auto simp: List.map_filter_simps split: option.split)

lemma distinct_map_filter:
  assumes "distinct (map g xs)" and "\<And>x y. x \<in> set xs \<Longrightarrow> f x = Some y \<Longrightarrow> h y = g x"
  shows "distinct (map h (List.map_filter f xs))"
  using assms
proof (induction xs)
  case (Cons x xs)
  then have IH: "distinct (map h (List.map_filter f xs))" by simp
  show ?case
  proof (cases "f x")
    case None
    with IH show ?thesis by (simp add: List.map_filter_simps)
  next
    case (Some y)
    have "h y \<notin> h ` set (List.map_filter f xs)"
    proof
      assume "h y \<in> h ` set (List.map_filter f xs)"
      then obtain x' y' where "x' \<in> set xs" and "f x' = Some y'" and "h y = h y'"
        by (auto simp: set_map_filter)
      with Cons.prems Some have "g x = g x'" and "x' \<in> set xs" by (metis list.set_intros)+
      with Cons.prems(1) show False by auto
    qed
    with IH Some show ?thesis by (simp add: List.map_filter_simps)
  qed
qed (simp add: List.map_filter_simps)

lemma map_filter_append: "List.map_filter f (xs @ ys) = List.map_filter f xs @ List.map_filter f ys"
  by (induction xs) (simp_all add: List.map_filter_simps split: option.split)

section \<open>Asynchronous readers and writers\<close>

text \<open>
  \<open>tokio::io::AsyncReadExt::read_exact\<close> belongs to another crate, so a reader is a parameter: a
  function that, asked for \<open>n\<close> bytes in a state, returns them or an I/O error, with the next state.
  The code tells \<open>UnexpectedEof\<close> from every other error kind, so two kinds are enough.
  \<open>reader_ok\<close> states the documented behaviour: \<open>pend\<close> is what the peer still has to deliver and
  how its half of the stream ends.
\<close>

datatype io_error = UnexpectedEof | OtherIo

datatype stream_end = Finished | Broken

type_synonym 's reader = "nat \<Rightarrow> 's \<Rightarrow> (io_error + bytes) \<times> 's"

definition reader_ok :: "'s reader \<Rightarrow> ('s \<Rightarrow> bytes \<times> stream_end) \<Rightarrow> bool" where
  "reader_ok rd pend \<longleftrightarrow> (\<forall>n s.
     (if n \<le> length (fst (pend s))
      then fst (rd n s) = Inr (take n (fst (pend s)))
         \<and> pend (snd (rd n s)) = (drop n (fst (pend s)), snd (pend s))
      else fst (rd n s) = Inl (if snd (pend s) = Finished then UnexpectedEof else OtherIo)))"

text \<open>The reader over a byte slice, the instance that \<open>&[u8]\<close> has.\<close>

definition slice_read :: "(bytes \<times> stream_end) reader" where
  "slice_read n s =
     (if n \<le> length (fst s) then (Inr (take n (fst s)), (drop n (fst s), snd s))
      else (Inl (if snd s = Finished then UnexpectedEof else OtherIo), ([], snd s)))"

lemma slice_read_ok [demo_laws]: "reader_ok slice_read id"
  by (simp add: reader_ok_def slice_read_def)

lemma reader_ok_enough:
  assumes "reader_ok rd pend" and "pend s = (bs, e)" and "n \<le> length bs"
  obtains s' where "rd n s = (Inr (take n bs), s')" and "pend s' = (drop n bs, e)"
  using assms unfolding reader_ok_def by (metis fst_conv prod.collapse snd_conv)

lemma reader_ok_short:
  assumes "reader_ok rd pend" and "pend s = (bs, e)" and "length bs < n"
  obtains s' where "rd n s = (Inl (if e = Finished then UnexpectedEof else OtherIo), s')"
  using assms unfolding reader_ok_def by (metis fst_conv leD prod.collapse snd_conv)

text \<open>A writer takes the bytes of one \<open>write_all\<close> and succeeds or fails.\<close>

type_synonym 'w writer = "bytes \<Rightarrow> 'w \<Rightarrow> (io_error + unit) \<times> 'w"

definition writer_ok :: "'w writer \<Rightarrow> ('w \<Rightarrow> bytes) \<Rightarrow> bool" where
  "writer_ok wr out \<longleftrightarrow> (\<forall>bs w. fst (wr bs w) = Inr () \<longrightarrow> out (snd (wr bs w)) = out w @ bs)"

lemma writer_okD: "writer_ok wr out \<Longrightarrow> wr bs w = (Inr u, w') \<Longrightarrow> out w' = out w @ bs"
  using spec [of _ bs] unfolding writer_ok_def by (metis (full_types) fst_conv old.unit.exhaust snd_conv)

definition vec_write :: "bytes writer" where
  "vec_write bs w = (Inr (), w @ bs)"

lemma vec_write_ok [demo_laws]: "writer_ok vec_write id"
  by (simp add: writer_ok_def vec_write_def)

section \<open>Counting the entries of a map\<close>

definition tally :: "('v \<Rightarrow> bool) \<Rightarrow> ('k \<Rightarrow> 'v option) \<Rightarrow> nat" where
  "tally P m = card {k. \<exists>v. m k = Some v \<and> P v}"

lemma tally_empty [simp]: "tally P Map.empty = 0"
  by (simp add: tally_def)

lemma finite_tally: "finite (dom m) \<Longrightarrow> finite {k. \<exists>v. m k = Some v \<and> P v}"
  by (rule finite_subset [of _ "dom m"]) auto

lemma tally_update:
  assumes "finite (dom m)"
  shows "tally P (m(k \<mapsto> v)) + of_bool (\<exists>u. m k = Some u \<and> P u) = tally P m + of_bool (P v)"
proof -
  define A where "A = {k'. k' \<noteq> k \<and> (\<exists>u. m k' = Some u \<and> P u)}"
  have "finite A" by (rule finite_subset [OF _ finite_tally [OF assms, of P]]) (auto simp: A_def)
  moreover have "k \<notin> A" by (simp add: A_def)
  moreover have "{k'. \<exists>u. m k' = Some u \<and> P u} = (if \<exists>u. m k = Some u \<and> P u then insert k A else A)"
    by (auto simp: A_def)
  moreover have "{k'. \<exists>u. (m(k \<mapsto> v)) k' = Some u \<and> P u} = (if P v then insert k A else A)"
    by (auto simp: A_def)
  ultimately show ?thesis by (simp add: tally_def)
qed

end
