(* ===== verification/Framing.thy ===== *)
theory Framing
  imports Prelude
begin

text \<open>
  The contract that every message format on a byte stream of the provider keeps, and what follows
  from it once: an encoder and a decoder that, given an encoding followed by anything, returns the
  message and exactly what followed. The tunnel frames and the \<open>/1\<close> handshake instantiate it.
\<close>

section \<open>Reading many messages\<close>

text \<open>Decode up to \<open>n\<close> messages, stopping at the first failure.\<close>

primrec dec_list :: "(bytes \<Rightarrow> ('a \<times> bytes) option) \<Rightarrow> nat \<Rightarrow> bytes \<Rightarrow> 'a list \<times> bytes" where
  "dec_list dec 0 bs = ([], bs)"
| "dec_list dec (Suc n) bs =
     (case dec bs of None \<Rightarrow> ([], bs)
      | Some (x, rest) \<Rightarrow> (let r = dec_list dec n rest in (x # fst r, snd r)))"

definition enc_list :: "('a \<Rightarrow> bytes) \<Rightarrow> 'a list \<Rightarrow> bytes" where
  "enc_list enc xs = concat (map enc xs)"

lemma enc_list_simps [simp]:
  "enc_list enc [] = []"
  "enc_list enc (x # xs) = enc x @ enc_list enc xs"
  "enc_list enc (xs @ ys) = enc_list enc xs @ enc_list enc ys"
  by (simp_all add: enc_list_def)

section \<open>The interface\<close>

locale framed =
  fixes enc :: "'a \<Rightarrow> bytes"
    and dec :: "bytes \<Rightarrow> ('a \<times> bytes) option"
    and ok :: "'a \<Rightarrow> bool"
  assumes dec_enc: "ok x \<Longrightarrow> dec (enc x @ rest) = Some (x, rest)"
begin

lemma dec_enc_exact: "ok x \<Longrightarrow> dec (enc x) = Some (x, [])"
  using dec_enc [of x "[]"] by simp

text \<open>No encoding is a prefix of another one's, so a stream reads in one way only.\<close>

lemma unique_reading:
  assumes "ok x" and "ok y" and "enc x @ us = enc y @ vs"
  shows "x = y \<and> us = vs"
  using dec_enc [OF assms(1), of us] dec_enc [OF assms(2), of vs] unfolding assms(3) by simp

lemma enc_inject: "ok x \<Longrightarrow> ok y \<Longrightarrow> enc x = enc y \<longleftrightarrow> x = y"
  using unique_reading [of x y "[]" "[]"] by auto

lemma dec_enc_list:
  "list_all ok xs \<Longrightarrow> dec_list dec (length xs) (enc_list enc xs @ rest) = (xs, rest)"
  by (induction xs) (simp_all add: dec_enc)

text \<open>Messages written one after the other are read back one after the other.\<close>

lemma enc_list_inject:
  assumes "list_all ok xs" and "list_all ok ys" and "length xs = length ys"
    and "enc_list enc xs @ us = enc_list enc ys @ vs"
  shows "xs = ys \<and> us = vs"
  using dec_enc_list [OF assms(1), of us] dec_enc_list [OF assms(2), of vs]
  unfolding assms(3,4) by simp

end

text \<open>A format whose encodings are never empty also tells how many messages were written.\<close>

locale framed_nonempty = framed +
  assumes enc_nonempty: "ok x \<Longrightarrow> enc x \<noteq> []"
begin

lemma enc_list_inject_any:
  assumes "list_all ok xs" and "list_all ok ys" and "enc_list enc xs = enc_list enc ys"
  shows "xs = ys"
  using assms
proof (induction xs arbitrary: ys)
  case Nil
  then show ?case using enc_nonempty by (cases ys) auto
next
  case (Cons x xs)
  then obtain y ys' where ys: "ys = y # ys'" using enc_nonempty by (cases ys) auto
  with Cons.prems have "x = y \<and> enc_list enc xs = enc_list enc ys'"
    by (intro unique_reading) simp_all
  with Cons ys show ?case by simp
qed

end

end
