(* ===== verification/Utf8.thy ===== *)
theory Utf8
  imports Prelude
begin

text \<open>
  The two conversions of bytes to a \<open>String\<close> that the tunnel framing uses: \<open>String::from_utf8\<close>,
  which fails on the first ill-formed sequence, and \<open>String::from_utf8_lossy\<close>, which puts the
  replacement character U+FFFD for each maximal ill-formed prefix of a sequence. Both follow the
  scanner of \<open>core::str\<close>: the first byte decides the width, the second byte is checked against
  the range that excludes overlong forms, surrogates and values above U+10FFFF, the others are
  continuation bytes, and a byte past the end reads as 0.
\<close>

section \<open>One sequence\<close>

definition byte_at :: "bytes \<Rightarrow> nat \<Rightarrow> u8" where
  "byte_at bs i = (if i < length bs then bs ! i else 0)"

definition is_cont :: "u8 \<Rightarrow> bool" where
  "is_cont b \<longleftrightarrow> 0x80 \<le> b \<and> b \<le> 0xBF"

definition second_of_three :: "u8 \<Rightarrow> u8 \<Rightarrow> bool" where
  "second_of_three a b \<longleftrightarrow>
     (a = 0xE0 \<and> 0xA0 \<le> b \<and> b \<le> 0xBF) \<or> (0xE1 \<le> a \<and> a \<le> 0xEC \<and> is_cont b) \<or>
     (a = 0xED \<and> 0x80 \<le> b \<and> b \<le> 0x9F) \<or> (0xEE \<le> a \<and> a \<le> 0xEF \<and> is_cont b)"

definition second_of_four :: "u8 \<Rightarrow> u8 \<Rightarrow> bool" where
  "second_of_four a b \<longleftrightarrow>
     (a = 0xF0 \<and> 0x90 \<le> b \<and> b \<le> 0xBF) \<or> (0xF1 \<le> a \<and> a \<le> 0xF3 \<and> is_cont b) \<or>
     (a = 0xF4 \<and> 0x80 \<le> b \<and> b \<le> 0x8F)"

text \<open>Whether the bytes start with a well-formed sequence, and how many bytes it or the
  ill-formed prefix takes.\<close>

definition utf8_scan4 :: "u8 \<Rightarrow> u8 \<Rightarrow> u8 \<Rightarrow> u8 \<Rightarrow> bool \<times> nat" where
  "utf8_scan4 a b c d =
    (if a < 0x80 then (True, 1)
     else if 0xC2 \<le> a \<and> a \<le> 0xDF then (if is_cont b then (True, 2) else (False, 1))
     else if 0xE0 \<le> a \<and> a \<le> 0xEF then
       (if \<not> second_of_three a b then (False, 1)
        else if is_cont c then (True, 3) else (False, 2))
     else if 0xF0 \<le> a \<and> a \<le> 0xF4 then
       (if \<not> second_of_four a b then (False, 1)
        else if \<not> is_cont c then (False, 2)
        else if is_cont d then (True, 4) else (False, 3))
     else (False, 1))"

definition utf8_scan :: "bytes \<Rightarrow> bool \<times> nat" where
  "utf8_scan bs = utf8_scan4 (byte_at bs 0) (byte_at bs 1) (byte_at bs 2) (byte_at bs 3)"

lemma utf8_scan_pos: "utf8_scan bs = (ok, n) \<Longrightarrow> 0 < n"
  by (auto simp add: utf8_scan_def utf8_scan4_def split: if_split_asm)

text \<open>The bytes beyond a well-formed sequence have no influence.\<close>

lemma utf8_scan4_cong:
  assumes "utf8_scan4 a b c d = (True, n)"
    and "1 < n \<Longrightarrow> b' = b" and "2 < n \<Longrightarrow> c' = c" and "3 < n \<Longrightarrow> d' = d"
  shows "utf8_scan4 a b' c' d' = (True, n)"
  using assms by (simp add: utf8_scan4_def split: if_split_asm) argo

lemma not_cont_zero [simp]: "\<not> is_cont 0" "\<not> second_of_three a 0" "\<not> second_of_four a 0"
  by (simp_all add: is_cont_def second_of_three_def second_of_four_def)

lemma byte_at_nonzero: "byte_at bs i \<noteq> 0 \<Longrightarrow> i < length bs"
  by (simp add: byte_at_def split: if_splits)

lemma byte_at_props:
  "is_cont (byte_at bs i) \<Longrightarrow> i < length bs"
  "second_of_three a (byte_at bs i) \<Longrightarrow> i < length bs"
  "second_of_four a (byte_at bs i) \<Longrightarrow> i < length bs"
  by (metis byte_at_nonzero not_cont_zero)+

text \<open>A sequence found well-formed lies inside the bytes, and what follows it does not matter.\<close>

lemma utf8_scan_length:
  assumes "utf8_scan bs = (True, n)" and "bs \<noteq> []"
  shows "n \<le> length bs"
proof -
  have "Suc 0 \<le> length bs" using assms(2) by (simp add: Suc_le_eq)
  moreover have "is_cont (byte_at bs i) \<longrightarrow> Suc i \<le> length bs" for i
    using byte_at_props(1) [of bs i] by auto
  ultimately show ?thesis
    using assms(1) by (auto simp: utf8_scan_def utf8_scan4_def numeral_eq_Suc split: if_split_asm)
qed

lemma byte_at_take: "i < n \<Longrightarrow> n \<le> length bs \<Longrightarrow> byte_at (take n bs @ cs) i = byte_at bs i"
  by (simp add: byte_at_def nth_append)

lemma utf8_scan_take:
  assumes "utf8_scan bs = (True, n)" and "bs \<noteq> []"
  shows "utf8_scan (take n bs @ cs) = (True, n)"
proof -
  have eq: "byte_at (take n bs @ cs) i = byte_at bs i" if "i < n" for i
    using that utf8_scan_length [OF assms] by (rule byte_at_take)
  have "0 < n" using assms(1) by (rule utf8_scan_pos)
  then show ?thesis
    using utf8_scan4_cong [OF assms(1) [unfolded utf8_scan_def] eq eq eq]
    by (simp add: utf8_scan_def eq)
qed

section \<open>Whole strings\<close>

function utf8_valid :: "bytes \<Rightarrow> bool" where
  "utf8_valid bs =
     (if bs = [] then True
      else fst (utf8_scan bs) \<and> utf8_valid (drop (snd (utf8_scan bs)) bs))"
  by pat_completeness auto
termination
  by (relation "measure length") (auto simp: utf8_scan_pos [OF surjective_pairing])

text \<open>\<open>String::from_utf8\<close>; the unit stands for its \<open>FromUtf8Error\<close>.\<close>

definition from_utf8 :: "bytes \<Rightarrow> unit + string" where
  "from_utf8 bs = (if utf8_valid bs then Inr (of_bytes bs) else Inl ())"

definition replacement_char :: bytes where
  "replacement_char = [0xEF, 0xBF, 0xBD]"

function lossy_bytes :: "bytes \<Rightarrow> bytes" where
  "lossy_bytes bs =
     (if bs = [] then []
      else (let n = snd (utf8_scan bs)
            in (if fst (utf8_scan bs) then take n bs else replacement_char)
               @ lossy_bytes (drop n bs)))"
  by pat_completeness auto
termination
  by (relation "measure length") (auto simp: utf8_scan_pos [OF surjective_pairing])

definition from_utf8_lossy :: "bytes \<Rightarrow> string" where
  "from_utf8_lossy bs = of_bytes (lossy_bytes bs)"

declare utf8_valid.simps [simp del] lossy_bytes.simps [simp del]

text \<open>The invariant of Rust's \<open>String\<close> type.\<close>

definition str_ok :: "string \<Rightarrow> bool" where
  "str_ok s \<longleftrightarrow> utf8_valid (as_bytes s)"

lemma utf8_valid_Nil [simp]: "utf8_valid []" and lossy_bytes_Nil [simp]: "lossy_bytes [] = []"
  by (simp_all add: utf8_valid.simps [of "[]"] lossy_bytes.simps [of "[]"])

lemma utf8_valid_step:
  assumes "utf8_scan bs = (True, n)" and "bs \<noteq> []"
  shows "utf8_valid bs \<longleftrightarrow> utf8_valid (drop n bs)"
  using assms by (simp add: utf8_valid.simps [of bs])

lemma lossy_bytes_valid [simp]: "utf8_valid bs \<Longrightarrow> lossy_bytes bs = bs"
proof (induction bs rule: utf8_valid.induct)
  case (1 bs)
  show ?case
  proof (cases "bs = []")
    case False
    with 1 have "lossy_bytes (drop (snd (utf8_scan bs)) bs) = drop (snd (utf8_scan bs)) bs"
      and "fst (utf8_scan bs)"
      by (auto simp: utf8_valid.simps [of bs])
    with False show ?thesis by (simp add: lossy_bytes.simps [of bs] Let_def)
  qed simp
qed

lemma utf8_valid_append:
  "utf8_valid bs \<Longrightarrow> utf8_valid (bs @ cs) \<longleftrightarrow> utf8_valid cs"
proof (induction bs rule: utf8_valid.induct)
  case (1 bs)
  show ?case
  proof (cases "bs = []")
    case False
    define n where "n = snd (utf8_scan bs)"
    have scan: "utf8_scan bs = (True, n)" and rest: "utf8_valid (drop n bs)"
      using "1.prems" False by (auto simp: utf8_valid.simps [of bs] n_def prod_eq_iff)
    have le: "n \<le> length bs" using scan False by (rule utf8_scan_length)
    then have "utf8_scan (bs @ cs) = (True, n)"
      using utf8_scan_take [OF scan False, of "drop n bs @ cs"] by (simp flip: append_assoc)
    then have "utf8_valid (bs @ cs) \<longleftrightarrow> utf8_valid (drop n bs @ cs)"
      using utf8_valid_step [of "bs @ cs" n] False le by simp
    also have "\<dots> \<longleftrightarrow> utf8_valid cs"
      using "1.IH" [OF False] rest by (simp add: n_def)
    finally show ?thesis .
  qed simp
qed

lemma replacement_char_valid: "utf8_valid replacement_char"
proof -
  have "utf8_scan replacement_char = (True, 3)"
    by (simp add: replacement_char_def utf8_scan_def utf8_scan4_def byte_at_def second_of_three_def is_cont_def)
  then show ?thesis
    using utf8_valid_step [of replacement_char 3] by (simp add: replacement_char_def)
qed

text \<open>Whatever the bytes were, the lossy conversion gives a \<open>String\<close>.\<close>

lemma lossy_bytes_is_valid: "utf8_valid (lossy_bytes bs)"
proof (induction bs rule: lossy_bytes.induct)
  case (1 bs)
  show ?case
  proof (cases "bs = []")
    case False
    define n where "n = snd (utf8_scan bs)"
    have rest: "utf8_valid (lossy_bytes (drop n bs))"
      using "1.IH" [OF False] by (simp add: n_def)
    have "utf8_valid (take n bs)" if "fst (utf8_scan bs)"
    proof -
      have scan: "utf8_scan bs = (True, n)"
        using that by (simp add: n_def prod_eq_iff)
      have "utf8_scan (take n bs) = (True, n)"
        using utf8_scan_take [OF scan False, of "[]"] by simp
      moreover have "take n bs \<noteq> []"
        using False utf8_scan_pos [OF scan] by simp
      ultimately show ?thesis using utf8_valid_step [of "take n bs" n] by simp
    qed
    with rest False show ?thesis
      using replacement_char_valid
      by (simp add: lossy_bytes.simps [of bs] Let_def n_def utf8_valid_append)
  qed simp
qed

lemma from_utf8_as_bytes [simp]: "str_ok s \<Longrightarrow> from_utf8 (as_bytes s) = Inr s"
  by (simp add: from_utf8_def str_ok_def)

lemma from_utf8_Inr: "from_utf8 bs = Inr s \<longleftrightarrow> str_ok s \<and> bs = as_bytes s"
  by (auto simp: from_utf8_def str_ok_def split: if_splits)

lemma from_utf8_lossy_as_bytes [simp]: "str_ok s \<Longrightarrow> from_utf8_lossy (as_bytes s) = s"
  by (simp add: from_utf8_lossy_def str_ok_def)

lemma str_ok_lossy [simp]: "str_ok (from_utf8_lossy bs)"
  by (simp add: from_utf8_lossy_def str_ok_def lossy_bytes_is_valid)

lemma str_ok_append: "str_ok s \<Longrightarrow> str_ok (s @ t) \<longleftrightarrow> str_ok t"
  by (simp add: str_ok_def utf8_valid_append)

text \<open>ASCII text is well-formed.\<close>

lemma str_ok_Nil [simp]: "str_ok []"
  by (simp add: str_ok_def)

lemma str_ok_ascii_Cons [simp]:
  assumes "(of_char c :: u8) < 0x80"
  shows "str_ok (c # s) \<longleftrightarrow> str_ok s"
proof -
  have "utf8_scan (as_bytes (c # s)) = (True, 1)"
    using assms by (simp add: utf8_scan_def utf8_scan4_def byte_at_def)
  then show ?thesis
    using utf8_valid_step [of "as_bytes (c # s)" 1] by (simp add: str_ok_def)
qed

end
