(* ===== verification/Protocol.thy ===== *)
theory Protocol
  imports Framing Utf8
begin

text \<open>
  \<open>src/src/protocol.rs\<close>: the protocol names and limits, the \<open>/1\<close> handshake, the mesh packet, the
  signed response, and the frames of the WebSocket tunnel. Readers and writers are the parameters
  of the prelude; \<open>rand\<close> and \<open>hex\<close> come in as the bytes drawn and the encoder.
\<close>

section \<open>Names and limits\<close>

definition ALPN :: string where
  "ALPN = ''netfory/api/0''"

definition ALPN_V1 :: string where
  "ALPN_V1 = ''netfory/api/1''"

definition MAX_FRAME :: nat where
  "MAX_FRAME = 8 * 1024 * 1024"

definition DEFAULT_TTL :: u8 where
  "DEFAULT_TTL = 5"

definition MAX_WS_FRAME :: nat where
  "MAX_WS_FRAME = 8 * 1024 * 1024"

text \<open>The errors the functions of this file return.\<close>

datatype proto_error =
    Io io_error
  | HandshakeRange nat
  | HandshakeTooBig nat
  | WsTooBig nat
  | WsNotUtf8
  | WsBadKind u8

section \<open>The handshake of \<open>netfory/api/1\<close>\<close>

definition read_handshake_v1 :: "'s reader \<Rightarrow> 's \<Rightarrow> (proto_error + bytes) \<times> 's" where
  "read_handshake_v1 rd s =
    (case rd 4 s of
       (Inl e, s1) \<Rightarrow> (Inl (Io e), s1)
     | (Inr len_buf, s1) \<Rightarrow>
         (let len = unat (from_le_bytes len_buf :: u32) in
          if len = 0 \<or> MAX_FRAME < len then (Inl (HandshakeRange len), s1)
          else (case rd len s1 of
                  (Inl e, s2) \<Rightarrow> (Inl (Io e), s2)
                | (Inr buf, s2) \<Rightarrow> (Inr buf, s2))))"

definition write_handshake_v1 :: "'w writer \<Rightarrow> bytes \<Rightarrow> 'w \<Rightarrow> (proto_error + unit) \<times> 'w" where
  "write_handshake_v1 wr json w =
    (if MAX_FRAME < length json then (Inl (HandshakeTooBig (length json)), w)
     else (case wr (to_le_bytes 4 (of_nat (length json) :: u32)) w of
             (Inl e, w1) \<Rightarrow> (Inl (Io e), w1)
           | (Inr _, w1) \<Rightarrow> (case wr json w1 of
                               (Inl e, w2) \<Rightarrow> (Inl (Io e), w2)
                             | (Inr _, w2) \<Rightarrow> (Inr (), w2))))"

section \<open>The mesh packet and the signed response\<close>

text \<open>\<open>headers\<close> is a \<open>BTreeMap\<close>: its entries in key order.\<close>

record mesh_packet =
  target_provider :: string
  req_method :: string
  req_path :: string
  req_body :: bytes
  req_headers :: "(string \<times> string) list"
  ttl :: u8
  request_id :: string

definition rand_id :: "(bytes \<Rightarrow> string) \<Rightarrow> bytes \<Rightarrow> string" where
  "rand_id hex_encode drawn = hex_encode (take 12 drawn)"

definition mesh_packet_new ::
  "(bytes \<Rightarrow> string) \<Rightarrow> bytes \<Rightarrow> string \<Rightarrow> string \<Rightarrow> string \<Rightarrow> bytes \<Rightarrow> mesh_packet" where
  "mesh_packet_new hex_encode drawn target meth path bod =
     \<lparr>target_provider = target, req_method = meth, req_path = path, req_body = bod,
      req_headers = [], ttl = DEFAULT_TTL, request_id = rand_id hex_encode drawn\<rparr>"

record signed_response =
  provider_node_id :: string
  resp_request_id :: string
  resp_status :: u16
  resp_body :: bytes
  resp_signed_at :: u64
  resp_relayed :: bool
  resp_signature :: string

definition response_canonical_bytes :: "signed_response \<Rightarrow> bytes" where
  "response_canonical_bytes r =
     as_bytes (resp_request_id r) @ [of_char CHR ''|''] @ to_be_bytes 2 (resp_status r)
     @ [of_char CHR ''|''] @ to_be_bytes 8 (resp_signed_at r) @ [of_char CHR ''|''] @ resp_body r"

section \<open>The frames of the WebSocket tunnel\<close>

datatype ws_frame =
    Text string
  | Binary bytes
  | Ping bytes
  | Pong bytes
  | Close (close_code: u16) (close_reason: string)

definition ws_kind_text :: u8 where "ws_kind_text = 0x01"
definition ws_kind_binary :: u8 where "ws_kind_binary = 0x02"
definition ws_kind_ping :: u8 where "ws_kind_ping = 0x09"
definition ws_kind_pong :: u8 where "ws_kind_pong = 0x0A"
definition ws_kind_close :: u8 where "ws_kind_close = 0x08"

lemmas ws_kind_defs =
  ws_kind_text_def ws_kind_binary_def ws_kind_ping_def ws_kind_pong_def ws_kind_close_def

fun ws_kind_payload :: "ws_frame \<Rightarrow> u8 \<times> bytes" where
  "ws_kind_payload (Text s) = (ws_kind_text, as_bytes s)"
| "ws_kind_payload (Binary b) = (ws_kind_binary, b)"
| "ws_kind_payload (Ping b) = (ws_kind_ping, b)"
| "ws_kind_payload (Pong b) = (ws_kind_pong, b)"
| "ws_kind_payload (Close code reason) = (ws_kind_close, to_be_bytes 2 code @ as_bytes reason)"

definition encode :: "ws_frame \<Rightarrow> bytes" where
  "encode f =
    (let kind = fst (ws_kind_payload f); payload = snd (ws_kind_payload f)
     in [kind] @ to_le_bytes 4 (of_nat (length payload) :: u32) @ payload)"

text \<open>The match on the kind byte at the end of \<open>read_from\<close>.\<close>

definition ws_frame_of :: "u8 \<Rightarrow> bytes \<Rightarrow> proto_error + ws_frame" where
  "ws_frame_of kind payload =
    (if kind = ws_kind_text then
       (case from_utf8 payload of Inl _ \<Rightarrow> Inl WsNotUtf8 | Inr s \<Rightarrow> Inr (Text s))
     else if kind = ws_kind_binary then Inr (Binary payload)
     else if kind = ws_kind_ping then Inr (Ping payload)
     else if kind = ws_kind_pong then Inr (Pong payload)
     else if kind = ws_kind_close then
       (if 2 \<le> length payload
        then Inr (Close (from_be_bytes (take 2 payload)) (from_utf8_lossy (drop 2 payload)))
        else Inr (Close 1005 []))
     else Inl (WsBadKind kind))"

text \<open>The length field of a frame header, as \<open>usize\<close>.\<close>

definition frame_len :: "bytes \<Rightarrow> nat" where
  "frame_len hdr = unat (from_le_bytes [hdr ! 1, hdr ! 2, hdr ! 3, hdr ! 4] :: u32)"

definition read_from :: "'s reader \<Rightarrow> 's \<Rightarrow> (proto_error + ws_frame option) \<times> 's" where
  "read_from rd s =
    (case rd 5 s of
       (Inl e, s1) \<Rightarrow> (if e = UnexpectedEof then (Inr None, s1) else (Inl (Io e), s1))
     | (Inr hdr, s1) \<Rightarrow>
         (let kind = hdr ! 0; len = frame_len hdr in
          if MAX_WS_FRAME < len then (Inl (WsTooBig len), s1)
          else (case rd len s1 of
                  (Inl e, s2) \<Rightarrow> (Inl (Io e), s2)
                | (Inr payload, s2) \<Rightarrow>
                    (case ws_frame_of kind payload of
                       Inl e \<Rightarrow> (Inl e, s2)
                     | Inr f \<Rightarrow> (Inr (Some f), s2)))))"

section \<open>Frames read back\<close>

text \<open>A frame whose strings are Rust strings and whose payload fits the limit.\<close>

definition frame_strings_ok :: "ws_frame \<Rightarrow> bool" where
  "frame_strings_ok f =
    (case f of Text s \<Rightarrow> str_ok s | Close _ reason \<Rightarrow> str_ok reason | _ \<Rightarrow> True)"

definition frame_ok :: "ws_frame \<Rightarrow> bool" where
  "frame_ok f \<longleftrightarrow> frame_strings_ok f \<and> length (snd (ws_kind_payload f)) \<le> MAX_WS_FRAME"

lemma len_field [simp]:
  assumes "n \<le> MAX_FRAME"
  shows "unat (from_le_bytes (to_le_bytes 4 (of_nat n :: u32)) :: u32) = n"
proof -
  have "n < 2 ^ 32" using assms by (simp add: MAX_FRAME_def)
  then show ?thesis by (simp add: unat_of_nat)
qed

lemma MAX_WS_FRAME_eq: "MAX_WS_FRAME = MAX_FRAME"
  by (simp add: MAX_WS_FRAME_def MAX_FRAME_def)

lemma to_le_bytes_4: obtains a b c d where "to_le_bytes 4 (w :: u32) = [a, b, c, d]"
proof -
  have "length (to_le_bytes 4 w) = Suc (Suc (Suc (Suc 0)))" by simp
  then show ?thesis using that by (auto simp only: length_Suc_conv length_0_conv)
qed

lemma ws_frame_of_payload:
  "frame_strings_ok f \<Longrightarrow> ws_frame_of (fst (ws_kind_payload f)) (snd (ws_kind_payload f)) = Inr f"
  by (cases f) (simp_all add: ws_frame_of_def ws_kind_defs frame_strings_ok_def)

lemma encode_split:
  "encode f = fst (ws_kind_payload f)
     # to_le_bytes 4 (of_nat (length (snd (ws_kind_payload f))) :: u32) @ snd (ws_kind_payload f)"
  by (simp add: encode_def Let_def)

lemma slice_read_append:
  "n = length bs \<Longrightarrow> slice_read n (bs @ rest, e) = (Inr bs, (rest, e))"
  by (simp add: slice_read_def)

lemma read_from_slice_encode:
  assumes "frame_ok f"
  shows "read_from slice_read (encode f @ rest, e) = (Inr (Some f), (rest, e))"
proof -
  define p where "p = snd (ws_kind_payload f)"
  define k where "k = fst (ws_kind_payload f)"
  obtain a b c d where l4: "to_le_bytes 4 (of_nat (length p) :: u32) = [a, b, c, d]"
    by (rule to_le_bytes_4)
  have le: "length p \<le> MAX_FRAME" using assms by (simp add: frame_ok_def p_def MAX_WS_FRAME_eq)
  have len: "frame_len [k, a, b, c, d] = length p"
    using len_field [OF le] by (simp add: l4 frame_len_def)
  have enc: "encode f @ rest = [k, a, b, c, d] @ p @ rest"
    using encode_split [of f] by (simp add: l4 flip: p_def k_def)
  have hdr: "slice_read 5 (encode f @ rest, e) = (Inr [k, a, b, c, d], (p @ rest, e))"
    unfolding enc by (rule slice_read_append) simp
  have "ws_frame_of k p = Inr f"
    using assms by (simp add: k_def p_def ws_frame_of_payload frame_ok_def)
  then show ?thesis
    using le by (simp add: read_from_def hdr Let_def len slice_read_append MAX_WS_FRAME_eq)
qed

definition ws_dec :: "bytes \<Rightarrow> (ws_frame \<times> bytes) option" where
  "ws_dec bs =
    (case read_from slice_read (bs, Finished) of
       (Inr (Some f), s) \<Rightarrow> Some (f, fst s) | _ \<Rightarrow> None)"

interpretation ws_stream: framed_nonempty encode ws_dec frame_ok
  by unfold_locales (simp add: ws_dec_def read_from_slice_encode, simp add: encode_split)

text \<open>What any reader with the documented behaviour returns is what the slice reader returns on
  the pending bytes.\<close>

lemma read_from_sim:
  assumes "reader_ok rd pend" and "pend s = (bs, e)"
  shows "fst (read_from rd s) = fst (read_from slice_read (bs, e))"
    and "fst (read_from rd s) = Inr (Some f) \<Longrightarrow>
      pend (snd (read_from rd s)) = snd (read_from slice_read (bs, e))"
proof -
  have "fst (read_from rd s) = fst (read_from slice_read (bs, e)) \<and>
    (\<forall>f. fst (read_from rd s) = Inr (Some f) \<longrightarrow>
      pend (snd (read_from rd s)) = snd (read_from slice_read (bs, e)))"
  proof (cases "5 \<le> length bs")
    case False
    with assms obtain s1 where
      "rd 5 s = (Inl (if e = Finished then UnexpectedEof else OtherIo), s1)"
      by (auto intro: reader_ok_short [of rd pend s bs e 5])
    with False show ?thesis by (simp add: read_from_def slice_read_def)
  next
    case True
    with assms obtain s1 where r1: "rd 5 s = (Inr (take 5 bs), s1)" and p1: "pend s1 = (drop 5 bs, e)"
      by (auto intro: reader_ok_enough [of rd pend s bs e 5])
    define len where "len = frame_len (take 5 bs)"
    have r1': "slice_read 5 (bs, e) = (Inr (take 5 bs), (drop 5 bs, e))"
      using True by (simp add: slice_read_def)
    show ?thesis
    proof (cases "len \<le> length (drop 5 bs)")
      case True
      obtain s2 where "rd len s1 = (Inr (take len (drop 5 bs)), s2)"
        and "pend s2 = (drop len (drop 5 bs), e)"
        using assms(1) p1 True by (rule reader_ok_enough)
      with r1 r1' p1 True show ?thesis
        unfolding read_from_def r1 r1'
        by (simp add: Let_def slice_read_def split: sum.split flip: len_def)
    next
      case False
      then have "length (drop 5 bs) < len" by simp
      with assms(1) p1 obtain s2
        where "rd len s1 = (Inl (if e = Finished then UnexpectedEof else OtherIo), s2)"
        by (rule reader_ok_short)
      with r1 r1' False show ?thesis
        unfolding read_from_def r1 r1' by (simp add: Let_def slice_read_def flip: len_def)
    qed
  qed
  then show "fst (read_from rd s) = fst (read_from slice_read (bs, e))"
    and "fst (read_from rd s) = Inr (Some f) \<Longrightarrow>
      pend (snd (read_from rd s)) = snd (read_from slice_read (bs, e))" by blast+
qed

section \<open>Handshakes read back\<close>

definition handshake_ok :: "bytes \<Rightarrow> bool" where
  "handshake_ok json \<longleftrightarrow> json \<noteq> [] \<and> length json \<le> MAX_FRAME"

definition handshake_bytes :: "bytes \<Rightarrow> bytes" where
  "handshake_bytes json = snd (write_handshake_v1 vec_write json [])"

lemma handshake_bytes_eq:
  "length json \<le> MAX_FRAME \<Longrightarrow> handshake_bytes json = to_le_bytes 4 (of_nat (length json) :: u32) @ json"
  by (simp add: handshake_bytes_def write_handshake_v1_def vec_write_def)

lemma write_handshake_ok:
  assumes "writer_ok wr out" and "write_handshake_v1 wr json w = (Inr (), w')"
  shows "length json \<le> MAX_FRAME" and "out w' = out w @ handshake_bytes json"
proof -
  show le: "length json \<le> MAX_FRAME"
    using assms(2) by (simp add: write_handshake_v1_def split: if_splits)
  with assms(2) obtain u1 w1 u2 where
    "wr (to_le_bytes 4 (of_nat (length json) :: u32)) w = (Inr u1, w1)" and "wr json w1 = (Inr u2, w')"
    by (auto simp: write_handshake_v1_def split: prod.splits sum.splits)
  then have "out w1 = out w @ to_le_bytes 4 (of_nat (length json) :: u32)"
    and "out w' = out w1 @ json"
    using writer_okD [OF assms(1)] by simp_all
  with le show "out w' = out w @ handshake_bytes json" by (simp add: handshake_bytes_eq)
qed

text \<open>The whole behaviour of the reading side on the pending bytes.\<close>

lemma read_handshake_cases:
  assumes "reader_ok rd pend" and "pend s = (bs, e)"
  defines "len \<equiv> unat (from_le_bytes (take 4 bs) :: u32)"
    and "eof \<equiv> Io (if e = Finished then UnexpectedEof else OtherIo)"
  shows "fst (read_handshake_v1 rd s) =
      (if length bs < 4 then Inl eof
       else if len = 0 \<or> MAX_FRAME < len then Inl (HandshakeRange len)
       else if length bs < 4 + len then Inl eof
       else Inr (take len (drop 4 bs)))" (is ?result)
    and "fst (read_handshake_v1 rd s) = Inr buf \<Longrightarrow>
      pend (snd (read_handshake_v1 rd s)) = (drop (4 + len) bs, e)"
proof -
  have "?result \<and> (\<forall>buf. fst (read_handshake_v1 rd s) = Inr buf \<longrightarrow>
      pend (snd (read_handshake_v1 rd s)) = (drop (4 + len) bs, e))"
  proof (cases "4 \<le> length bs")
    case False
    then have "length bs < 4" by simp
    with assms obtain s1 where "rd 4 s = (Inl (if e = Finished then UnexpectedEof else OtherIo), s1)"
      by (rule_tac reader_ok_short)
    with False show ?thesis by (simp add: read_handshake_v1_def eof_def)
  next
    case True
    obtain s1 where r1: "rd 4 s = (Inr (take 4 bs), s1)" and p1: "pend s1 = (drop 4 bs, e)"
      using assms(1,2) True by (rule reader_ok_enough)
    show ?thesis
    proof (cases "len \<le> length (drop 4 bs)")
      case fits: True
      obtain s2 where "rd len s1 = (Inr (take len (drop 4 bs)), s2)"
        and "pend s2 = (drop len (drop 4 bs), e)"
        using assms(1) p1 fits by (rule reader_ok_enough)
      with True fits show ?thesis
        unfolding read_handshake_v1_def r1 by (auto simp: Let_def add.commute simp flip: len_def)
    next
      case False
      then have "length (drop 4 bs) < len" by simp
      with assms(1) p1 obtain s2
        where "rd len s1 = (Inl (if e = Finished then UnexpectedEof else OtherIo), s2)"
        by (rule reader_ok_short)
      with True False show ?thesis
        unfolding read_handshake_v1_def r1 by (auto simp: Let_def eof_def simp flip: len_def)
    qed
  qed
  then show ?result
    and "fst (read_handshake_v1 rd s) = Inr buf \<Longrightarrow>
      pend (snd (read_handshake_v1 rd s)) = (drop (4 + len) bs, e)" by blast+
qed

lemma read_handshake_bytes:
  assumes "reader_ok rd pend" and "pend s = (handshake_bytes json @ rest, e)" and "handshake_ok json"
  shows "fst (read_handshake_v1 rd s) = Inr json" and "pend (snd (read_handshake_v1 rd s)) = (rest, e)"
proof -
  let ?l = "to_le_bytes 4 (of_nat (length json) :: u32)"
  have le: "length json \<le> MAX_FRAME" and ne: "0 < length json"
    using assms(3) by (simp_all add: handshake_ok_def)
  have bs: "handshake_bytes json @ rest = ?l @ json @ rest"
    using le by (simp add: handshake_bytes_eq)
  note R = read_handshake_cases [OF assms(1) assms(2) [unfolded bs]]
  have len: "unat (from_le_bytes (take 4 (?l @ json @ rest)) :: u32) = length json"
    using len_field [OF le] by simp
  show *: "fst (read_handshake_v1 rd s) = Inr json"
    using R(1) le ne unfolding len by simp
  show "pend (snd (read_handshake_v1 rd s)) = (rest, e)"
    using R(2) [OF *] unfolding len by simp
qed

definition hs_dec :: "bytes \<Rightarrow> (bytes \<times> bytes) option" where
  "hs_dec bs =
    (case read_handshake_v1 slice_read (bs, Finished) of
       (Inr json, s) \<Rightarrow> Some (json, fst s) | _ \<Rightarrow> None)"

interpretation hs_stream: framed_nonempty handshake_bytes hs_dec handshake_ok
proof
  fix json rest assume "handshake_ok json"
  from read_handshake_bytes [OF slice_read_ok _ this, of "(handshake_bytes json @ rest, Finished)"]
  show "hs_dec (handshake_bytes json @ rest) = Some (json, rest)"
    by (auto simp: hs_dec_def split: prod.splits sum.splits)
next
  fix json assume "handshake_ok json"
  then show "handshake_bytes json \<noteq> []" by (simp add: handshake_ok_def handshake_bytes_eq)
qed

text \<open>Reading is faithful in the other direction too: what was returned is what was consumed.\<close>

lemma ws_frame_of_inverse:
  assumes "ws_frame_of k p = Inr f"
  shows "frame_strings_ok f" and "(\<And>c r. f \<noteq> Close c r) \<Longrightarrow> ws_kind_payload f = (k, p)"
  using assms
  by (auto simp: ws_frame_of_def frame_strings_ok_def from_utf8_Inr split: if_splits sum.splits)

text \<open>A \<open>Close\<close> loses bytes in two cases: without a code, and with a reason that is not UTF-8.\<close>

definition loses_bytes :: "ws_frame \<Rightarrow> bytes \<Rightarrow> bool" where
  "loses_bytes f p \<longleftrightarrow> (case f of Close c r \<Rightarrow> length p < 2 \<or> \<not> utf8_valid (drop 2 p) | _ \<Rightarrow> False)"

lemma ws_frame_of_exact:
  assumes "ws_frame_of k p = Inr f" and "\<not> loses_bytes f p"
  shows "ws_kind_payload f = (k, p)"
proof (cases f)
  case (Close c r)
  then have k: "k = ws_kind_close" and "2 \<le> length p" and "utf8_valid (drop 2 p)"
    and c: "c = from_be_bytes (take 2 p)" "r = from_utf8_lossy (drop 2 p)"
    using assms by (auto simp: ws_frame_of_def loses_bytes_def not_less split: if_split_asm sum.splits)
  then have "to_be_bytes 2 c @ as_bytes r = p"
    by (simp add: to_from_be_bytes_2 from_utf8_lossy_def)
  with Close k show ?thesis by simp
qed (use assms ws_frame_of_inverse(2) [OF assms(1)] in simp_all)

lemma ws_frame_of_close:
  "ws_frame_of k p = Inr (Close c r) \<Longrightarrow> k = ws_kind_close \<and>
     (if length p < 2 then c = 1005 \<and> r = [] else c = from_be_bytes (take 2 p) \<and> r = from_utf8_lossy (drop 2 p))"
  by (auto simp: ws_frame_of_def split: if_split_asm sum.splits)

lemma frame_len_field:
  assumes "5 \<le> length bs"
  shows "to_le_bytes 4 (of_nat (frame_len (take 5 bs)) :: u32) = take 4 (drop 1 bs)"
proof -
  obtain k a b c d cs where bs: "bs = k # a # b # c # d # cs"
    using assms by (auto simp: numeral_eq_Suc Suc_le_length_iff)
  show ?thesis
    by (simp add: bs frame_len_def to_from_le_bytes_4)
qed

lemma read_from_slice_Some:
  assumes "read_from slice_read (bs, e) = (Inr (Some f), s')"
  defines "n \<equiv> frame_len (take 5 bs)"
  shows "5 + n \<le> length bs" and "n \<le> MAX_WS_FRAME" and "s' = (drop (5 + n) bs, e)"
    and "ws_frame_of (bs ! 0) (take n (drop 5 bs)) = Inr f"
  using assms
  by (auto simp: read_from_def slice_read_def Let_def add.commute split: if_splits sum.splits)

lemma read_from_slice_bytes:
  assumes "read_from slice_read (bs, e) = (Inr (Some f), s')"
    and "\<not> loses_bytes f (take (frame_len (take 5 bs)) (drop 5 bs))"
  shows "bs = encode f @ fst s'"
proof -
  define n where "n = frame_len (take 5 bs)"
  note R = read_from_slice_Some [OF assms(1), folded n_def]
  have len: "length (take n (drop 5 bs)) = n" and five: "5 \<le> length bs" using R(1) by simp_all
  have kp: "ws_kind_payload f = (bs ! 0, take n (drop 5 bs))"
    using R(4) assms(2) [folded n_def] by (rule ws_frame_of_exact)
  have "encode f = bs ! 0 # take 4 (drop 1 bs) @ take n (drop 5 bs)"
    using frame_len_field [OF five] len by (simp add: encode_split kp n_def)
  also have "\<dots> @ fst s' = bs ! 0 # take 4 (drop 1 bs) @ take n (drop 5 bs) @ drop n (drop 5 bs)"
    by (simp add: R(3) add.commute)
  also have "\<dots> = bs ! 0 # take 4 (drop 1 bs) @ drop 5 bs"
    by (simp only: append_take_drop_id)
  also have "\<dots> = bs"
    using five by (cases bs) (simp_all add: drop_Cons')
  finally show ?thesis by simp
qed

section \<open>Properties\<close>

text \<open>A frame whose payload fits the 8 MiB limit, written by \<open>encode\<close> and followed by anything,
  is read back by \<open>read_from\<close> as the same frame, and the reader stands right after it.\<close>

theorem ws_frame_roundtrip:
  assumes "reader_ok rd pend" and "pend s = (encode f @ rest, e)" and "frame_ok f"
  shows "fst (read_from rd s) = Inr (Some f) \<and> pend (snd (read_from rd s)) = (rest, e)"
  using read_from_sim [OF assms(1,2)] read_from_slice_encode [OF assms(3), of rest e] by simp

lemma ws_frame_roundtrip_witness:
  "fst (read_from slice_read (encode (Close 1000 ''bye'') @ [1, 2], Finished)) = Inr (Some (Close 1000 ''bye''))
   \<and> id (snd (read_from slice_read (encode (Close 1000 ''bye'') @ [1, 2], Finished))) = ([1, 2], Finished)"
proof (rule ws_frame_roundtrip [OF slice_read_ok])
  show "id (encode (Close 1000 ''bye'') @ [1, 2], Finished) = (encode (Close 1000 ''bye'') @ [1, 2], Finished)"
    by simp
  show "frame_ok (Close 1000 ''bye'')"
    by (simp add: frame_ok_def frame_strings_ok_def MAX_WS_FRAME_def)
qed

text \<open>C34: a frame that was read is made of the bytes that were consumed: its strings are well-formed
  UTF-8, its payload is within the limit, and encoding it again gives back the bytes read, except for a
  \<open>Close\<close> whose payload has no code or a reason that is not UTF-8: the former is read as code 1005
  without a reason, the latter with its ill-formed parts replaced.\<close>

theorem read_from_sound:
  assumes "reader_ok rd pend" and "pend s = (bs, e)" and "fst (read_from rd s) = Inr (Some f)"
    and "p = take (frame_len (take 5 bs)) (drop 5 bs)"
  shows "frame_strings_ok f \<and> length p = frame_len (take 5 bs) \<and> length p \<le> MAX_WS_FRAME
    \<and> pend (snd (read_from rd s)) = (drop (5 + length p) bs, e)
    \<and> (bs = encode f @ fst (pend (snd (read_from rd s)))
       \<or> (\<exists>c r. f = Close c r \<and> bs ! 0 = ws_kind_close \<and>
           (length p < 2 \<and> c = 1005 \<and> r = []
            \<or> 2 \<le> length p \<and> \<not> utf8_valid (drop 2 p)
              \<and> c = from_be_bytes (take 2 p) \<and> r = from_utf8_lossy (drop 2 p))))"
proof -
  have eq: "read_from slice_read (bs, e) = (Inr (Some f), pend (snd (read_from rd s)))"
    using read_from_sim(1) [OF assms(1,2)] read_from_sim(2) [OF assms(1-3)] assms(3)
    by (metis prod.collapse)
  note R = read_from_slice_Some [OF eq, folded assms(4)]
  have len: "length p = frame_len (take 5 bs)" using R(1) by (simp add: assms(4))
  have "bs = encode f @ fst (pend (snd (read_from rd s)))" if "\<not> loses_bytes f p"
    using read_from_slice_bytes [OF eq] that by (simp add: assms(4))
  moreover have "\<exists>c r. f = Close c r \<and> bs ! 0 = ws_kind_close \<and>
      (length p < 2 \<and> c = 1005 \<and> r = [] \<or> 2 \<le> length p \<and> \<not> utf8_valid (drop 2 p)
        \<and> c = from_be_bytes (take 2 p) \<and> r = from_utf8_lossy (drop 2 p))" if "loses_bytes f p"
    using that ws_frame_of_close [of "bs ! 0" p] R(4)
    by (auto simp: loses_bytes_def not_less split: ws_frame.splits if_split_asm)
  ultimately show ?thesis using R ws_frame_of_inverse(1) [OF R(4)] len by auto
qed

lemma read_from_sound_witness:
  "snd (read_from slice_read ([9, 1, 0, 0, 0, 7, 42], Broken)) = ([42], Broken)
    \<and> [9, 1, 0, 0, 0, 7, 42] = encode (Ping [7]) @ [42]"
proof -
  have "id ([9, 1, 0, 0, 0, 7, 42], Broken) = ([9, 1, 0, 0, 0, 7, 42], Broken)"
    and "fst (read_from slice_read ([9, 1, 0, 0, 0, 7, 42], Broken)) = Inr (Some (Ping [7]))"
    by (simp, code_simp)
  note S = read_from_sound [OF slice_read_ok this refl]
  have n: "frame_len (take 5 [9, 1, 0, 0, 0, 7, 42]) = 1" by code_simp
  have "snd (read_from slice_read ([9, 1, 0, 0, 0, 7, 42], Broken)) = ([42], Broken)"
    using S n by (simp only: id_apply) simp
  with S show ?thesis by simp
qed

text \<open>C35: a stream of frames has one reading: decoding the concatenated encodings gives the frames
  back, and two sequences with the same bytes are the same sequence.\<close>

theorem ws_frames_unambiguous:
  assumes "list_all frame_ok fs" and "list_all frame_ok gs"
  shows "dec_list ws_dec (length fs) (enc_list encode fs @ rest) = (fs, rest)
    \<and> (enc_list encode fs = enc_list encode gs \<longleftrightarrow> fs = gs)"
  using ws_stream.dec_enc_list [OF assms(1)] ws_stream.enc_list_inject_any [OF assms] by blast

lemma ws_frames_unambiguous_witness:
  "dec_list ws_dec (length [Ping [1], Text ''a'']) (enc_list encode [Ping [1], Text ''a''] @ [5])
     = ([Ping [1], Text ''a''], [5])
    \<and> (enc_list encode [Ping [1], Text ''a''] = enc_list encode [Pong []] \<longleftrightarrow> [Ping [1], Text ''a''] = [Pong []])"
  by (rule ws_frames_unambiguous)
    (simp_all add: frame_ok_def frame_strings_ok_def MAX_WS_FRAME_def)

text \<open>A stream that ends inside a frame header, even after one to four of its bytes, is reported
  as the clean end of the stream, not as an error.\<close>

theorem read_from_partial_header:
  assumes "reader_ok rd pend" and "pend s = (bs, Finished)" and "length bs < 5"
  shows "fst (read_from rd s) = Inr None"
  using read_from_sim(1) [OF assms(1,2)] assms(3) by (simp add: read_from_def slice_read_def)

lemma read_from_partial_header_witness:
  "fst (read_from slice_read ([1, 255, 0], Finished)) = Inr None"
  by (rule read_from_partial_header [OF slice_read_ok, where bs = "[1, 255, 0]"]) simp_all

text \<open>A header that announces more than 8 MiB is an error before any payload byte is read.\<close>

theorem read_from_oversize:
  assumes "reader_ok rd pend" and "pend s = (bs, e)" and "5 \<le> length bs"
    and "MAX_WS_FRAME < frame_len (take 5 bs)"
  shows "fst (read_from rd s) = Inl (WsTooBig (frame_len (take 5 bs)))
    \<and> pend (snd (read_from rd s)) = (drop 5 bs, e)"
proof -
  obtain s1 where "rd 5 s = (Inr (take 5 bs), s1)" and "pend s1 = (drop 5 bs, e)"
    using assms(1,2,3) by (rule reader_ok_enough)
  with assms(4) show ?thesis by (simp add: read_from_def Let_def)
qed

lemma read_from_oversize_witness:
  "fst (read_from slice_read ([2, 1, 0, 128, 0, 77], Finished)) = Inl (WsTooBig (frame_len (take 5 [2, 1, 0, 128, 0, 77])))
    \<and> id (snd (read_from slice_read ([2, 1, 0, 128, 0, 77], Finished))) = (drop 5 [2, 1, 0, 128, 0, 77], Finished)"
proof (rule read_from_oversize [OF slice_read_ok])
  show "MAX_WS_FRAME < frame_len (take 5 [2, 1, 0, 128, 0, 77])" by code_simp
qed simp_all

text \<open>C36: a handshake written on one side of a \<open>/1\<close> stream is read on the other, and the reader
  stands at what follows it.\<close>

theorem handshake_roundtrip:
  assumes "writer_ok wr out" and "write_handshake_v1 wr json w = (Inr (), w')" and "json \<noteq> []"
    and "reader_ok rd pend" and "out w' = out w @ sent" and "pend s = (sent @ rest, e)"
  shows "fst (read_handshake_v1 rd s) = Inr json \<and> pend (snd (read_handshake_v1 rd s)) = (rest, e)"
proof -
  note W = write_handshake_ok [OF assms(1,2)]
  have "pend s = (handshake_bytes json @ rest, e)" using W(2) assms(5,6) by simp
  moreover have "handshake_ok json" using W(1) assms(3) by (simp add: handshake_ok_def)
  ultimately show ?thesis using read_handshake_bytes [OF assms(4)] by blast
qed

lemma handshake_roundtrip_witness:
  "fst (read_handshake_v1 slice_read ([2, 0, 0, 0, 123, 125] @ [9], Finished)) = Inr [123, 125]
    \<and> id (snd (read_handshake_v1 slice_read ([2, 0, 0, 0, 123, 125] @ [9], Finished))) = ([9], Finished)"
proof (rule handshake_roundtrip [OF vec_write_ok _ _ slice_read_ok])
  show "write_handshake_v1 vec_write [123, 125] [4] = (Inr (), [4, 2, 0, 0, 0, 123, 125])"
    by code_simp
qed simp_all

text \<open>A handshake that was read is non-empty, at most 8 MiB long, and what was consumed is
  exactly its framed form; everything else is an error.\<close>

theorem read_handshake_sound:
  assumes "reader_ok rd pend" and "pend s = (bs, e)" and "fst (read_handshake_v1 rd s) = Inr json"
  shows "json \<noteq> [] \<and> length json \<le> MAX_FRAME
    \<and> bs = handshake_bytes json @ fst (pend (snd (read_handshake_v1 rd s)))"
proof -
  define len where "len = unat (from_le_bytes (take 4 bs) :: u32)"
  note R = read_handshake_cases [OF assms(1,2), folded len_def]
  have c: "4 + len \<le> length bs" "0 < len" "len \<le> MAX_FRAME" "json = take len (drop 4 bs)"
    using R(1) assms(3) by (auto split: if_splits)
  have l: "length json = len" and ne: "json \<noteq> []" using c by auto
  have "to_le_bytes 4 (of_nat len :: u32) = take 4 bs"
    using to_from_le_bytes_4 [of "take 4 bs"] c(1) by (simp add: len_def)
  then have "handshake_bytes json = take 4 bs @ take len (drop 4 bs)"
    using c(3,4) l by (simp add: handshake_bytes_eq)
  also have "\<dots> @ drop (4 + len) bs = take 4 bs @ take len (drop 4 bs) @ drop len (drop 4 bs)"
    by (simp add: add.commute)
  also have "\<dots> = bs" by (simp only: append_take_drop_id)
  finally show ?thesis using R(2) [OF assms(3)] l c ne by simp
qed

lemma read_handshake_sound_witness:
  "[123, 125] \<noteq> ([] :: bytes) \<and> length ([123, 125] :: bytes) \<le> MAX_FRAME
    \<and> [2, 0, 0, 0, 123, 125, 9] = handshake_bytes [123, 125]
        @ fst (id (snd (read_handshake_v1 slice_read ([2, 0, 0, 0, 123, 125, 9], Finished))))"
proof (rule read_handshake_sound [OF slice_read_ok])
  show "id ([2, 0, 0, 0, 123, 125, 9], Finished) = ([2, 0, 0, 0, 123, 125, 9], Finished)" by simp
  show "fst (read_handshake_v1 slice_read ([2, 0, 0, 0, 123, 125, 9], Finished)) = Inr [123, 125]"
    by code_simp
qed

end
