(* ===== verification/Float64.thy ===== *)
theory Float64
  imports Complex_Main "HOL-Library.Log_Nat" "HOL-Library.Code_Target_Nat" Prelude
begin

text \<open>
  The \<open>f64\<close> arithmetic of the token bucket. A finite \<open>f64\<close> is the rational it denotes; every
  operation is the exact operation followed by IEEE 754 rounding to nearest, ties to even, with a
  53-bit significand and gradual underflow (the unit in the last place is never below
  \<open>2 powi (- 1074)\<close>). Overflow to infinity is left out: the rate limiter's largest intermediate
  value is the product of an elapsed time below \<open>2 ^ 64\<close> seconds and a rate below \<open>2 ^ 32\<close>.
  The section proves what the bucket relies on: rounding is monotone, exact on the integers below
  \<open>2 ^ 53\<close>, and off by at most \<open>c / 2 ^ 53\<close> below a bound \<open>c \<ge> 1\<close>.
\<close>

section \<open>Rounding\<close>

type_synonym f64 = rat

definition bin_exp :: "rat \<Rightarrow> int" where
  "bin_exp x =
    (let d = int (floorlog 2 (nat (fst (quotient_of x)))) - int (floorlog 2 (nat (snd (quotient_of x))))
     in if 2 powi d \<le> x then d else d - 1)"

definition ulp_exp :: "rat \<Rightarrow> int" where
  "ulp_exp x = max (bin_exp x) (- 1022) - 52"

definition round_half_even :: "rat \<Rightarrow> int" where
  "round_half_even y =
    (let q = \<lfloor>y\<rfloor>; r = y - of_int q
     in if r < 1 / 2 then q else if 1 / 2 < r then q + 1 else if even q then q else q + 1)"

definition round_pos :: "rat \<Rightarrow> f64" where
  "round_pos x = of_int (round_half_even (x / 2 powi ulp_exp x)) * 2 powi ulp_exp x"

definition f64_round :: "rat \<Rightarrow> f64" where
  "f64_round x = (if x = 0 then 0 else if 0 < x then round_pos x else - round_pos (- x))"

definition f64_add :: "f64 \<Rightarrow> f64 \<Rightarrow> f64" where
  "f64_add x y = f64_round (x + y)"

definition f64_sub :: "f64 \<Rightarrow> f64 \<Rightarrow> f64" where
  "f64_sub x y = f64_round (x - y)"

definition f64_mul :: "f64 \<Rightarrow> f64 \<Rightarrow> f64" where
  "f64_mul x y = f64_round (x * y)"

definition f64_div :: "f64 \<Rightarrow> f64 \<Rightarrow> f64" where
  "f64_div x y = f64_round (x / y)"

text \<open>The cast \<open>as f64\<close> of an unsigned integer.\<close>

definition f64_of_nat :: "nat \<Rightarrow> f64" where
  "f64_of_nat n = f64_round (of_nat n)"

section \<open>The binary exponent\<close>

lemma powi_two_mono: "m \<le> n \<Longrightarrow> (2::rat) powi m \<le> 2 powi n"
  by (rule power_int_increasing) simp_all

lemma powi_two_strict_mono: "m < n \<Longrightarrow> (2::rat) powi m < 2 powi n"
  by (rule power_int_strict_increasing) simp_all

lemma powi_two_pos [simp]: "0 < (2::rat) powi n"
  by simp

lemma powi_two_ratio:
  assumes "m \<le> n"
  shows "(2::rat) powi n / 2 powi m = of_int (2 ^ nat (n - m))"
proof -
  have "(2::rat) powi n / 2 powi m = 2 powi (n - m)"
    by (rule power_int_diff [symmetric]) simp
  also have "\<dots> = 2 ^ nat (n - m)"
    using assms by (simp add: power_int_def)
  finally show ?thesis by simp
qed

lemma floorlog_nat_bounds:
  assumes "0 < (p :: int)"
  shows "2 powi (int (floorlog 2 (nat p)) - 1) \<le> (of_int p :: rat)"
    and "(of_int p :: rat) < 2 powi int (floorlog 2 (nat p))"
proof -
  have b: "2 ^ (floorlog 2 (nat p) - 1) \<le> nat p \<and> nat p < 2 ^ floorlog 2 (nat p)"
    using assms by (intro floorlog_bounds) simp_all
  have pos: "0 < floorlog 2 (nat p)"
    using assms b by (cases "floorlog 2 (nat p)") auto
  have "of_nat (2 ^ (floorlog 2 (nat p) - 1)) \<le> (of_nat (nat p) :: rat)"
    and "(of_nat (nat p) :: rat) < of_nat (2 ^ floorlog 2 (nat p))"
    using b by (simp_all only: of_nat_le_iff of_nat_less_iff)
  then have lo: "(2::rat) ^ (floorlog 2 (nat p) - 1) \<le> of_int p"
    and hi: "(of_int p :: rat) < 2 ^ floorlog 2 (nat p)"
    using assms by simp_all
  have "int (floorlog 2 (nat p)) - 1 = int (floorlog 2 (nat p) - 1)"
    using pos by simp
  then show "2 powi (int (floorlog 2 (nat p)) - 1) \<le> (of_int p :: rat)"
    using lo by (simp only: power_int_of_nat)
  show "(of_int p :: rat) < 2 powi int (floorlog 2 (nat p))"
    using hi by simp
qed

lemma bin_exp_bounds:
  assumes "0 < x"
  shows "2 powi bin_exp x \<le> x" and "x < 2 powi (bin_exp x + 1)"
proof -
  obtain p q where pq: "quotient_of x = (p, q)" by fastforce
  have q: "0 < q" using pq by (rule quotient_of_denom_pos)
  have x: "x = of_int p / of_int q" using pq by (rule quotient_of_div)
  have p: "0 < p" using assms x q by (simp add: zero_less_divide_iff)
  define a where "a = int (floorlog 2 (nat p))"
  define b where "b = int (floorlog 2 (nat q))"
  note P = floorlog_nat_bounds [OF p, folded a_def]
  note Q = floorlog_nat_bounds [OF q, folded b_def]
  have "x \<le> of_int p / 2 powi (b - 1)"
    unfolding x using p q Q(1) by (intro divide_left_mono mult_pos_pos) simp_all
  also have "\<dots> < 2 powi a / 2 powi (b - 1)"
    using P(2) by (intro divide_strict_right_mono) simp_all
  also have "\<dots> = 2 powi (a - b + 1)"
    by (simp add: power_int_diff [symmetric] algebra_simps)
  finally have hi: "x < 2 powi (a - b + 1)" .
  have "2 powi (a - b - 1) = 2 powi (a - 1) / (2::rat) powi b"
    by (simp add: power_int_diff [symmetric] algebra_simps)
  also have "\<dots> \<le> of_int p / 2 powi b"
    using P(1) by (intro divide_right_mono) simp_all
  also have "\<dots> \<le> x"
    unfolding x using p q Q(2) by (intro divide_left_mono) simp_all
  finally have lo: "2 powi (a - b - 1) \<le> x" .
  have e: "bin_exp x = (if 2 powi (a - b) \<le> x then a - b else a - b - 1)"
    by (simp add: bin_exp_def pq a_def b_def)
  show "2 powi bin_exp x \<le> x" and "x < 2 powi (bin_exp x + 1)"
    using lo hi by (auto simp: e)
qed

lemma bin_exp_less: "0 < x \<Longrightarrow> x < 2 powi n \<Longrightarrow> bin_exp x < n"
  using bin_exp_bounds(1) [of x] powi_two_mono [of n "bin_exp x"] by linarith

lemma bin_exp_ge: "0 < x \<Longrightarrow> 2 powi n \<le> x \<Longrightarrow> n \<le> bin_exp x"
  using bin_exp_bounds(2) [of x] powi_two_mono [of "bin_exp x + 1" n] by linarith

lemma bin_exp_mono: "0 < x \<Longrightarrow> x \<le> y \<Longrightarrow> bin_exp x \<le> bin_exp y"
  using bin_exp_bounds(1) [of x] by (intro bin_exp_ge) linarith+

section \<open>Rounding to an integer\<close>

lemma round_half_even_of_int [simp]: "round_half_even (of_int k) = k"
  by (simp add: round_half_even_def)

lemma round_half_even_error: "\<bar>of_int (round_half_even y) - y\<bar> \<le> 1 / 2"
proof -
  define f where "f = (of_int \<lfloor>y\<rfloor> :: rat)"
  have "f \<le> y" and "y < f + 1" unfolding f_def by linarith+
  then show ?thesis
    unfolding round_half_even_def Let_def f_def [symmetric]
    by (auto simp: abs_if f_def [symmetric])
qed

lemma round_half_even_floor:
  "\<lfloor>y\<rfloor> \<le> round_half_even y" "round_half_even y \<le> \<lfloor>y\<rfloor> + 1"
  by (simp_all add: round_half_even_def Let_def)

lemma round_half_even_mono:
  assumes "y \<le> z"
  shows "round_half_even y \<le> round_half_even z"
proof (cases "\<lfloor>y\<rfloor> = \<lfloor>z\<rfloor>")
  case True
  with assms show ?thesis by (auto simp: round_half_even_def Let_def)
next
  case False
  with assms have "\<lfloor>y\<rfloor> + 1 \<le> \<lfloor>z\<rfloor>" using floor_mono [OF assms] by linarith
  with round_half_even_floor(2) [of y] round_half_even_floor(1) [of z] show ?thesis by linarith
qed

section \<open>Properties of the rounding\<close>

lemma round_pos_scale:
  "round_pos x / 2 powi ulp_exp x = of_int (round_half_even (x / 2 powi ulp_exp x))"
  by (simp add: round_pos_def)

lemma round_pos_nonneg: "0 < x \<Longrightarrow> 0 \<le> round_pos x"
proof -
  assume "0 < x"
  then have "0 \<le> \<lfloor>x / 2 powi ulp_exp x\<rfloor>" by simp
  then have "0 \<le> round_half_even (x / 2 powi ulp_exp x)"
    using round_half_even_floor(1) [of "x / 2 powi ulp_exp x"] by linarith
  then show ?thesis by (simp add: round_pos_def)
qed

lemma round_pos_error: "\<bar>round_pos x - x\<bar> \<le> 2 powi (ulp_exp x - 1)"
proof -
  let ?u = "(2::rat) powi ulp_exp x"
  have "round_pos x - x = (of_int (round_half_even (x / ?u)) - x / ?u) * ?u"
    by (simp add: round_pos_def algebra_simps)
  then have "\<bar>round_pos x - x\<bar> = \<bar>of_int (round_half_even (x / ?u)) - x / ?u\<bar> * ?u"
    by (simp add: abs_mult)
  also have "\<dots> \<le> 1 / 2 * ?u"
    by (intro mult_right_mono round_half_even_error) simp
  also have "\<dots> = 2 powi (ulp_exp x - 1)"
    by (simp add: power_int_diff)
  finally show ?thesis .
qed

text \<open>Below the next power of two the rounding stays at or below it, and above one at or above.\<close>

lemma round_pos_le_power:
  assumes "0 < x" and "x \<le> 2 powi n" and "ulp_exp x \<le> n"
  shows "round_pos x \<le> 2 powi n"
proof -
  let ?u = "(2::rat) powi ulp_exp x"
  have eq: "(2::rat) powi n / ?u = of_int (2 ^ nat (n - ulp_exp x))"
    using assms(3) by (rule powi_two_ratio)
  have "x / ?u \<le> 2 powi n / ?u"
    using assms(2) by (intro divide_right_mono) simp_all
  then have "round_half_even (x / ?u) \<le> 2 ^ nat (n - ulp_exp x)"
    unfolding eq using round_half_even_mono round_half_even_of_int by metis
  then have "(of_int (round_half_even (x / ?u)) :: rat) \<le> 2 powi n / ?u"
    unfolding eq by (simp only: of_int_le_iff)
  then have "round_pos x \<le> 2 powi n / ?u * ?u"
    unfolding round_pos_def by (intro mult_right_mono) simp_all
  then show ?thesis by simp
qed

lemma round_pos_ge_power:
  assumes "0 < x" and "2 powi n \<le> x" and "ulp_exp x \<le> n"
  shows "2 powi n \<le> round_pos x"
proof -
  let ?u = "(2::rat) powi ulp_exp x"
  have eq: "(2::rat) powi n / ?u = of_int (2 ^ nat (n - ulp_exp x))"
    using assms(3) by (rule powi_two_ratio)
  have "2 powi n / ?u \<le> x / ?u"
    using assms(2) by (intro divide_right_mono) simp_all
  then have "2 ^ nat (n - ulp_exp x) \<le> round_half_even (x / ?u)"
    unfolding eq using round_half_even_mono round_half_even_of_int by metis
  then have "(2::rat) powi n / ?u \<le> of_int (round_half_even (x / ?u))"
    unfolding eq by (simp only: of_int_le_iff)
  then have "2 powi n / ?u * ?u \<le> round_pos x"
    unfolding round_pos_def by (intro mult_right_mono) simp_all
  then show ?thesis by simp
qed

lemma round_pos_mono:
  assumes "0 < x" and "x \<le> y"
  shows "round_pos x \<le> round_pos y"
proof (cases "ulp_exp x = ulp_exp y")
  case True
  have "x / 2 powi ulp_exp y \<le> y / 2 powi ulp_exp y"
    using assms(2) by (intro divide_right_mono) simp_all
  from round_half_even_mono [OF this] True show ?thesis
    by (simp add: round_pos_def mult_right_mono)
next
  case False
  define m where "m = max (bin_exp x) (- 1022) + 1"
  have y: "0 < y" using assms by simp
  have "bin_exp x \<le> bin_exp y" using assms by (rule bin_exp_mono)
  with False have m: "m \<le> bin_exp y" "bin_exp y = max (bin_exp y) (- 1022)"
    by (auto simp: ulp_exp_def m_def max_def split: if_splits)
  have "round_pos x \<le> 2 powi m"
  proof (rule round_pos_le_power [OF assms(1)])
    have "(2::rat) powi (bin_exp x + 1) \<le> 2 powi m"
      by (rule powi_two_mono) (simp add: m_def)
    with bin_exp_bounds(2) [OF assms(1)] show "x \<le> 2 powi m" by linarith
  qed (simp add: ulp_exp_def m_def)
  also have "\<dots> \<le> 2 powi bin_exp y"
    using m(1) by (rule powi_two_mono)
  also have "\<dots> \<le> round_pos y"
    using y bin_exp_bounds(1) [OF y] m(2) by (intro round_pos_ge_power) (simp_all add: ulp_exp_def)
  finally show ?thesis .
qed

lemma f64_round_zero [simp]: "f64_round 0 = 0"
  by (simp add: f64_round_def)

lemma f64_round_nonneg: "0 \<le> x \<Longrightarrow> 0 \<le> f64_round x"
  by (auto simp: f64_round_def round_pos_nonneg)

lemma f64_round_mono: "0 \<le> x \<Longrightarrow> x \<le> y \<Longrightarrow> f64_round x \<le> f64_round y"
  by (auto simp: f64_round_def round_pos_nonneg intro: round_pos_mono)

lemma f64_round_error:
  assumes "0 \<le> x" and "x \<le> c" and "1 \<le> c"
  shows "\<bar>f64_round x - x\<bar> \<le> c / 2 ^ 53"
proof (cases "x = 0")
  case True
  with assms show ?thesis by simp
next
  case False
  with assms have x: "0 < x" by simp
  have "(2::rat) powi max (bin_exp x) (- 1022) \<le> c"
  proof (cases "- 1022 \<le> bin_exp x")
    case True
    then show ?thesis using bin_exp_bounds(1) [OF x] assms(2) by (simp add: max_def)
  next
    case False
    have "(2::rat) powi (- 1022) \<le> 2 powi 0" by (rule powi_two_mono) simp
    with False assms(3) show ?thesis by (simp add: max_def)
  qed
  then have "(2::rat) powi max (bin_exp x) (- 1022) / 2 ^ 53 \<le> c / 2 ^ 53"
    by (rule divide_right_mono) simp
  moreover have "(2::rat) powi (ulp_exp x - 1) = 2 powi max (bin_exp x) (- 1022) / 2 ^ 53"
    using power_int_diff [of "2::rat" "max (bin_exp x) (- 1022)" 53]
    by (simp add: ulp_exp_def power_int_def [of _ 53])
  ultimately show ?thesis
    using round_pos_error [of x] x by (simp add: f64_round_def)
qed

lemma f64_round_of_nat [simp]:
  assumes "n < 2 ^ 53"
  shows "f64_round (of_nat n) = of_nat n"
proof (cases "n = 0")
  case False
  let ?x = "of_nat n :: rat"
  have x: "0 < ?x" using False by simp
  have "(of_nat n :: rat) < of_nat (2 ^ 53)" using assms by (simp only: of_nat_less_iff)
  then have "bin_exp ?x < 53" using x by (intro bin_exp_less) (simp_all add: power_int_def)
  moreover have "0 \<le> bin_exp ?x" using False by (intro bin_exp_ge) (simp_all add: Suc_le_eq)
  ultimately have u: "ulp_exp ?x \<le> 0" by (simp add: ulp_exp_def)
  then have "2 powi 0 / (2::rat) powi ulp_exp ?x = of_int (2 ^ nat (0 - ulp_exp ?x))"
    by (rule powi_two_ratio)
  then have eq: "?x / 2 powi ulp_exp ?x = of_int (int n * 2 ^ nat (- ulp_exp ?x))"
    by (simp add: divide_inverse)
  have "round_pos ?x = ?x / 2 powi ulp_exp ?x * 2 powi ulp_exp ?x"
    unfolding round_pos_def eq round_half_even_of_int ..
  then show ?thesis
    using x by (simp add: f64_round_def)
qed simp

lemma f64_of_u32 [simp]: "f64_of_nat (unat (r :: u32)) = of_nat (unat r)"
proof -
  have "unat r < 2 ^ 53" using unat_bound [of r] by simp
  then show ?thesis unfolding f64_of_nat_def by (rule f64_round_of_nat)
qed

lemma f64_round_one [simp]: "f64_round 1 = 1"
  using f64_round_of_nat [of 1] by simp

lemma f64_round_numeral: "numeral k < (2::nat) ^ 53 \<Longrightarrow> f64_round (numeral k) = numeral k"
  using f64_round_of_nat [of "numeral k"] by simp

end
