(* ===== verification/Rust_Str.thy ===== *)
theory Rust_Str
  imports Prelude "HOL-Library.Sublist"
begin

text \<open>
  The \<open>str\<close> methods of Rust's standard library that the configuration and the start-up code use:
  \<open>trim\<close> with Unicode's \<open>White_Space\<close>, \<open>trim_end_matches\<close> with a character, \<open>parse::<u16>\<close>,
  \<open>lines\<close> and \<open>join\<close>, all on UTF-8 bytes.
\<close>

section \<open>\<open>trim\<close>\<close>

text \<open>The UTF-8 encodings of the 25 white-space characters.\<close>

definition white_space :: "string list" where
  "white_space = map of_bytes
     ([[0x09], [0x0A], [0x0B], [0x0C], [0x0D], [0x20], [0xC2, 0x85], [0xC2, 0xA0], [0xE1, 0x9A, 0x80],
       [0xE2, 0x80, 0x80], [0xE2, 0x80, 0x81], [0xE2, 0x80, 0x82], [0xE2, 0x80, 0x83],
       [0xE2, 0x80, 0x84], [0xE2, 0x80, 0x85], [0xE2, 0x80, 0x86], [0xE2, 0x80, 0x87],
       [0xE2, 0x80, 0x88], [0xE2, 0x80, 0x89], [0xE2, 0x80, 0x8A], [0xE2, 0x80, 0xA8],
       [0xE2, 0x80, 0xA9], [0xE2, 0x80, 0xAF], [0xE2, 0x81, 0x9F], [0xE3, 0x80, 0x80]])"

lemma white_space_nonempty: "w \<in> set white_space \<Longrightarrow> w \<noteq> []"
  by (auto simp: white_space_def)

lemma find_SomeD: "find P xs = Some w \<Longrightarrow> w \<in> set xs \<and> P w"
  by (auto simp: find_Some_iff)

lemma find_white_space_nonempty: "find P white_space = Some w \<Longrightarrow> 0 < length w"
  using white_space_nonempty find_SomeD by fastforce

function trim_start :: "string \<Rightarrow> string" where
  "trim_start s =
     (case find (\<lambda>w. prefix w s) white_space of
        None \<Rightarrow> s | Some w \<Rightarrow> trim_start (drop (length w) s))"
  by pat_completeness auto
termination
proof (relation "measure length")
  fix s w assume "find (\<lambda>w. prefix w s) white_space = Some w"
  then have "0 < length w" and "length w \<le> length s"
    using find_white_space_nonempty by (blast, auto simp: prefix_length_le dest: find_SomeD)
  then show "(drop (length w) s, s) \<in> measure length"
    by (simp only: in_measure length_drop)
qed simp

function trim_end :: "string \<Rightarrow> string" where
  "trim_end s =
     (case find (\<lambda>w. suffix w s) white_space of
        None \<Rightarrow> s | Some w \<Rightarrow> trim_end (take (length s - length w) s))"
  by pat_completeness auto
termination
proof (relation "measure length")
  fix s w assume "find (\<lambda>w. suffix w s) white_space = Some w"
  then have "0 < length w" and "length w \<le> length s"
    using find_white_space_nonempty by (blast, auto simp: suffix_length_le dest: find_SomeD)
  then show "(take (length s - length w) s, s) \<in> measure length"
    by (simp only: in_measure length_take)
qed simp

declare trim_start.simps [simp del] trim_end.simps [simp del]

definition trim :: "string \<Rightarrow> string" where
  "trim s = trim_end (trim_start s)"

lemma trim_start_id: "(\<And>w. w \<in> set white_space \<Longrightarrow> \<not> prefix w s) \<Longrightarrow> trim_start s = s"
  by (subst trim_start.simps) (auto split: option.split dest: find_SomeD)

lemma trim_end_id: "(\<And>w. w \<in> set white_space \<Longrightarrow> \<not> suffix w s) \<Longrightarrow> trim_end s = s"
  by (subst trim_end.simps) (auto split: option.split dest: find_SomeD)

lemma trim_start_no_prefix: "w \<in> set white_space \<Longrightarrow> \<not> prefix w (trim_start s)"
proof (induction s rule: trim_start.induct)
  case (1 s)
  show ?case
  proof (cases "find (\<lambda>w. prefix w s) white_space")
    case None
    then have "trim_start s = s" by (subst trim_start.simps) simp
    with None 1(2) show ?thesis by (auto simp: find_None_iff)
  next
    case (Some v)
    with 1 show ?thesis by (subst trim_start.simps) simp
  qed
qed

lemma trim_end_no_suffix: "w \<in> set white_space \<Longrightarrow> \<not> suffix w (trim_end s)"
proof (induction s rule: trim_end.induct)
  case (1 s)
  show ?case
  proof (cases "find (\<lambda>w. suffix w s) white_space")
    case None
    then have "trim_end s = s" by (subst trim_end.simps) simp
    with None 1(2) show ?thesis by (auto simp: find_None_iff)
  next
    case (Some v)
    with 1 show ?thesis by (subst trim_end.simps) simp
  qed
qed

lemma trim_end_prefix: "prefix (trim_end s) s"
proof (induction s rule: trim_end.induct)
  case (1 s)
  show ?case
  proof (cases "find (\<lambda>w. suffix w s) white_space")
    case None
    then show ?thesis by (subst trim_end.simps) simp
  next
    case (Some v)
    with 1 have "prefix (trim_end s) (take (length s - length v) s)"
      by (subst trim_end.simps) simp
    then show ?thesis using take_is_prefix prefix_order.trans by blast
  qed
qed

lemma trim_idem [simp]: "trim (trim s) = trim s"
proof -
  have "trim_start (trim s) = trim s"
  proof (rule trim_start_id)
    fix w assume "w \<in> set white_space"
    then have "\<not> prefix w (trim_start s)" by (rule trim_start_no_prefix)
    then show "\<not> prefix w (trim s)"
      using trim_end_prefix prefix_order.trans unfolding trim_def by blast
  qed
  moreover have "trim_end (trim s) = trim s"
    unfolding trim_def by (rule trim_end_id) (rule trim_end_no_suffix)
  ultimately show ?thesis by (simp add: trim_def)
qed

text \<open>Text of printable ASCII characters has nothing to trim.\<close>

definition printable :: "char \<Rightarrow> bool" where
  "printable c \<longleftrightarrow> 33 \<le> (of_char c :: nat) \<and> (of_char c :: nat) \<le> 126"

lemma white_space_unprintable: "w \<in> set white_space \<Longrightarrow> c \<in> set w \<Longrightarrow> \<not> printable c"
  by (auto simp: white_space_def printable_def)

lemma trim_printable [simp]:
  assumes "list_all printable s"
  shows "trim s = s"
proof -
  have no: "\<not> prefix w s \<and> \<not> suffix w s" if w: "w \<in> set white_space" for w
  proof -
    obtain c where c: "c \<in> set w"
      using white_space_nonempty [OF w] by (cases w) auto
    with w have "\<not> printable c" by (simp add: white_space_unprintable)
    with assms have "c \<notin> set s" by (auto simp: list_all_iff)
    with c show ?thesis
      using set_mono_prefix set_mono_suffix by blast
  qed
  then have "trim_start s = s" and "trim_end s = s"
    by (auto intro!: trim_start_id trim_end_id)
  then show ?thesis by (simp add: trim_def)
qed

section \<open>\<open>trim_end_matches\<close>, \<open>parse\<close>, \<open>join\<close>\<close>

definition trim_end_matches :: "char \<Rightarrow> string \<Rightarrow> string" where
  "trim_end_matches c s = rev (dropWhile (\<lambda>d. d = c) (rev s))"

text \<open>\<open>u16::from_str\<close>: an optional plus sign, then decimal digits, no overflow.\<close>

definition parse_u16 :: "string \<Rightarrow> u16 option" where
  "parse_u16 s =
    (let d = (case s of [] \<Rightarrow> [] | c # r \<Rightarrow> if c = CHR ''+'' then r else s) in
     if d = [] \<or> \<not> list_all is_digit d \<or> 2 ^ 16 \<le> dec_value d then None
     else Some (of_nat (dec_value d)))"

fun join :: "string \<Rightarrow> string list \<Rightarrow> string" where
  "join sep [] = []"
| "join sep [s] = s"
| "join sep (s # t # ts) = s @ sep @ join sep (t # ts)"

lemma join_Cons: "ss \<noteq> [] \<Longrightarrow> join sep (s # ss) = s @ sep @ join sep ss"
  by (cases ss) simp_all

lemma join_eq_Nil: "list_all (\<lambda>s. s \<noteq> []) ss \<Longrightarrow> join sep ss = [] \<longleftrightarrow> ss = []"
  by (cases "(sep, ss)" rule: join.cases) auto

text \<open>A separator that occurs in no name splits the joined names again.\<close>

lemma join_inject:
  assumes "list_all (\<lambda>s. s \<noteq> [] \<and> c \<notin> set s) ss" and "list_all (\<lambda>s. s \<noteq> [] \<and> c \<notin> set s) ts"
  shows "join [c] ss = join [c] ts \<longleftrightarrow> ss = ts"
  using assms
proof (induction ss arbitrary: ts)
  case Nil
  then show ?case using join_eq_Nil [of ts "[c]"] by (auto simp: list_all_iff)
next
  case (Cons s ss)
  show ?case
  proof (cases ts)
    case Nil
    with Cons.prems show ?thesis by (cases ss) auto
  next
    case (Cons t ts')
    note ts = this
    show ?thesis
    proof (cases "ss = [] \<or> ts' = []")
      case True
      have "s \<noteq> t @ c # us" and "t \<noteq> s @ c # us" for us
        using Cons.prems ts by auto
      with True ts show ?thesis by (cases ss; cases ts') (auto simp: eq_commute)
    next
      case False
      have "join [c] (s # ss) = join [c] ts \<longleftrightarrow> s = t \<and> join [c] ss = join [c] ts'"
        using False ts Cons.prems by (simp add: join_Cons append_sep_inject)
      with Cons.IH [of ts'] Cons.prems ts show ?thesis by simp
    qed
  qed
qed

text \<open>\<open>lines\<close>: the parts between line feeds, without a carriage return before one; a last part that
  is empty is left out.\<close>

definition strip_cr :: "string \<Rightarrow> string" where
  "strip_cr s = (if s \<noteq> [] \<and> last s = CHR 0x0D then butlast s else s)"

function lines :: "string \<Rightarrow> string list" where
  "lines s =
     (if s = [] then []
      else
        let line = takeWhile (\<lambda>d. d \<noteq> CHR 0x0A) s; rest = dropWhile (\<lambda>d. d \<noteq> CHR 0x0A) s
        in (if rest = [] then [line] else strip_cr line # lines (tl rest)))"
  by pat_completeness auto
termination
proof (relation "measure length")
  fix s line rest :: string
  assume "s \<noteq> []" and "rest = dropWhile (\<lambda>d. d \<noteq> CHR 0x0A) s" and "rest \<noteq> []"
  then have "length (tl rest) < length rest" and "length rest \<le> length s"
    by (auto simp: length_dropWhile_le)
  then show "(tl rest, s) \<in> measure length" by simp
qed simp

declare lines.simps [simp del]

end
