(* ===== verification/Json.thy ===== *)
theory Json
  imports Utf8 Float64 Rust_Str "HOL-Library.List_Lexorder" "HOL-Library.Char_ord" "HOL-Library.Countable"
begin

text \<open>
  The values that \<open>serde_json\<close> hands to the code, and what the code does with them. A \<open>Value\<close> is a
  tree; its objects are \<open>BTreeMap\<close>s, kept here as association lists in key order. Reading and
  printing belong to the crate and are parameters, gathered in \<open>json_lib\<close>.
\<close>

section \<open>Values\<close>

datatype 'f json =
    JNull
  | JBool bool
  | JPos u64
  | JNeg u64
  | JFloat 'f
  | JStr string
  | JArr "'f json list"
  | JObj "(string \<times> 'f json) list"

text \<open>\<open>BTreeMap::insert\<close>: replace the entry of the key, or put it at its place.\<close>

fun map_insert :: "string \<Rightarrow> 'v \<Rightarrow> (string \<times> 'v) list \<Rightarrow> (string \<times> 'v) list" where
  "map_insert k v [] = [(k, v)]"
| "map_insert k v ((k', v') # m) =
     (if k = k' then (k, v) # m
      else if k < k' then (k, v) # (k', v') # m
      else (k', v') # map_insert k v m)"

text \<open>The \<open>json!\<close> macro on an object literal.\<close>

definition obj_of :: "(string \<times> 'f json) list \<Rightarrow> 'f json" where
  "obj_of kvs = JObj (fold (\<lambda>(k, v) m. map_insert k v m) kvs [])"

lemma map_of_map_insert: "map_of (map_insert k v m) = (map_of m)(k \<mapsto> v)"
  by (induction m) (auto simp: fun_eq_iff)

lemma set_map_insert: "set (map_insert k v m) \<subseteq> insert (k, v) (set m)"
  by (induction k v m rule: map_insert.induct) auto

lemma fst_map_insert: "fst ` set (map_insert k v m) = insert k (fst ` set m)"
  by (induction k v m rule: map_insert.induct) (simp_all add: insert_commute)

lemma sorted_map_insert:
  "sorted_wrt (<) (map fst m) \<Longrightarrow> sorted_wrt (<) (map fst (map_insert k v m))"
proof (induction m)
  case (Cons e m)
  obtain k' v' where e: "e = (k', v')" by fastforce
  show ?case
  proof (cases "k = k' \<or> k < k'")
    case True
    with Cons.prems e show ?thesis by (auto intro: less_trans)
  next
    case False
    have "\<forall>x\<in>fst ` set (map_insert k v m). k' < x"
      unfolding fst_map_insert using Cons.prems e False by auto
    with Cons False e show ?thesis by auto
  qed
qed simp

section \<open>Well-formed values\<close>

text \<open>Rust strings are UTF-8, a \<open>NegInt\<close> is below 0, and an object has its keys in order.\<close>

fun json_wf :: "'f json \<Rightarrow> bool" where
  "json_wf (JStr s) = str_ok s"
| "json_wf (JNeg w) = (sint w < 0)"
| "json_wf (JArr vs) = list_all json_wf vs"
| "json_wf (JObj m) =
     (sorted_wrt (<) (map fst m) \<and> list_all (\<lambda>kv. str_ok (fst kv)) m \<and> list_all (\<lambda>v. json_wf v) (map snd m))"
| "json_wf _ = True"

text \<open>Nesting of arrays and objects; \<open>serde_json\<close> refuses to read more than 127 levels.\<close>

fun json_depth :: "'f json \<Rightarrow> nat" where
  "json_depth (JArr vs) = Suc (fold max (map json_depth vs) 0)"
| "json_depth (JObj m) = Suc (fold max (map json_depth (map snd m)) 0)"
| "json_depth _ = 0"

lemma fold_max_le: "fold max xs a \<le> n \<longleftrightarrow> a \<le> n \<and> (\<forall>x\<in>set xs. x \<le> (n :: nat))"
  by (induction xs arbitrary: a) auto

lemma json_depth_obj: "json_depth (JObj m) \<le> Suc n \<longleftrightarrow> (\<forall>kv\<in>set m. json_depth (snd kv) \<le> n)"
  by (simp add: fold_max_le)

lemma json_wf_obj:
  "json_wf (JObj m) \<longleftrightarrow> sorted_wrt (<) (map fst m) \<and> (\<forall>kv\<in>set m. str_ok (fst kv) \<and> json_wf (snd kv))"
  by (auto simp: list_all_iff)

declare json_depth.simps(2) [simp del] json_wf.simps(4) [simp del]

lemma json_insert:
  assumes "json_wf (JObj m)" and "str_ok k" and "json_wf v"
    and "json_depth (JObj m) < 128" and "json_depth v < 127"
  shows "json_wf (JObj (map_insert k v m))" and "json_depth (JObj (map_insert k v m)) < 128"
proof -
  show "json_wf (JObj (map_insert k v m))"
    using assms(1,2,3) sorted_map_insert set_map_insert [of k v m] unfolding json_wf_obj by fastforce
  have "\<forall>kv\<in>set m. json_depth (snd kv) \<le> 126"
    using assms(4) json_depth_obj [of m 126] by simp
  then have "\<forall>kv\<in>set (map_insert k v m). json_depth (snd kv) \<le> 126"
    using set_map_insert [of k v m] assms(5) by fastforce
  then show "json_depth (JObj (map_insert k v m)) < 128"
    using json_depth_obj [of "map_insert k v m" 126] by simp
qed

lemma str_ok_printable: "list_all printable s \<Longrightarrow> str_ok s"
proof (induction s)
  case (Cons c s)
  then have "(of_char c :: nat) < 128" by (simp add: printable_def)
  then have "(of_char c :: u8) < 0x80" by (simp add: word_less_nat_alt)
  with Cons show ?case by simp
qed simp

section \<open>The crates\<close>

text \<open>
  \<open>json_read\<close> and \<open>json_print\<close> are \<open>from_slice\<close> and \<open>to_vec\<close> at \<open>Value\<close>. Printing a value succeeds;
  reading it back gives the same value but for its floating-point numbers, which are read to the
  nearest or to a neighbouring \<open>f64\<close>. \<open>b64\<close> is the standard alphabet of the crate \<open>base64\<close>.
\<close>

record json_lib =
  json_read :: "bytes \<Rightarrow> f64 json option"
  json_print :: "f64 json \<Rightarrow> bytes option"
  float_reread :: "f64 \<Rightarrow> f64"
  b64_encode :: "bytes \<Rightarrow> string"
  b64_decode :: "string \<Rightarrow> bytes option"

definition json_ok :: "json_lib \<Rightarrow> bool" where
  "json_ok J \<longleftrightarrow>
     (\<forall>v. json_wf v \<and> json_depth v < 128 \<longrightarrow>
        (\<exists>b. json_print J v = Some b \<and> json_read J b = Some (map_json (float_reread J) v))) \<and>
     (\<forall>b v. json_read J b = Some v \<longrightarrow> json_wf v \<and> json_depth v < 128) \<and>
     (\<forall>b. b64_decode J (b64_encode J b) = Some b \<and> list_all printable (b64_encode J b))"

lemma json_okD:
  assumes "json_ok J"
  shows json_print_read: "json_wf v \<Longrightarrow> json_depth v < 128 \<Longrightarrow>
      \<exists>b. json_print J v = Some b \<and> json_read J b = Some (map_json (float_reread J) v)"
    and json_read_wf: "json_read J b = Some v \<Longrightarrow> json_wf v"
    and json_read_depth: "json_read J b = Some v \<Longrightarrow> json_depth v < 128"
    and b64_roundtrip: "b64_decode J (b64_encode J b) = Some b"
    and b64_printable: "list_all printable (b64_encode J b)"
  using assms unfolding json_ok_def by blast+

section \<open>Crates that satisfy the laws\<close>

text \<open>A numbering of the values instead of JSON text, and hexadecimal digits instead of base64.\<close>

instance json :: (countable) countable
  by countable_datatype

definition demo_print :: "f64 json \<Rightarrow> bytes option" where
  "demo_print v = Some (as_bytes (show_nat (to_nat v)))"

definition demo_read :: "bytes \<Rightarrow> f64 json option" where
  "demo_read b =
     (let v = from_nat (dec_value (of_bytes b)) in
      if demo_print v = Some b \<and> json_wf v \<and> json_depth v < 128 then Some v else None)"

lemma demo_read_print: "json_wf v \<Longrightarrow> json_depth v < 128 \<Longrightarrow> demo_read (as_bytes (show_nat (to_nat v))) = Some v"
  by (simp add: demo_read_def demo_print_def)

end
