(* ===== verification/Crypto.thy ===== *)
theory Crypto
  imports Rust_Str
begin

text \<open>
  \<open>src/src/crypto.rs\<close>: one 32-byte root, derived from the BIP-39 mnemonic, is both the iroh secret
  key and the Ed25519 signing key. The crates \<open>bip39\<close>, \<open>ed25519_dalek\<close>, \<open>hex\<close> and iroh's \<open>EndpointId\<close>
  are parameters, gathered in \<open>crypto_lib\<close>; \<open>crypto_ok\<close> states what their documentation promises.
\<close>

section \<open>The libraries\<close>

type_synonym root = bytes

record crypto_lib =
  hex_encode :: "bytes \<Rightarrow> string"
  hex_decode :: "string \<Rightarrow> bytes option"
  bip39_generate :: "bytes \<Rightarrow> string option"
  bip39_parse :: "string \<Rightarrow> string option"
  bip39_seed :: "string \<Rightarrow> string \<Rightarrow> bytes"
  ed_public :: "bytes \<Rightarrow> bytes"
  ed_sign :: "bytes \<Rightarrow> bytes \<Rightarrow> bytes"
  ed_key_ok :: "bytes \<Rightarrow> bool"
  ed_verify :: "bytes \<Rightarrow> bytes \<Rightarrow> bytes \<Rightarrow> bool"
  eid_parse :: "string \<Rightarrow> bytes option"
  eid_show :: "bytes \<Rightarrow> string"

definition hex_digit :: "char \<Rightarrow> bool" where
  "hex_digit c \<longleftrightarrow> is_digit c \<or> (97 \<le> (of_char c :: nat) \<and> (of_char c :: nat) \<le> 102)"

text \<open>
  Hexadecimal encoding is lower case and decodes to what was encoded; a generated mnemonic is not
  blank and parses; a seed has 64 bytes; the public key of a 32-byte secret is a valid 32-byte key
  that accepts the 64-byte signatures made with the secret; an \<open>EndpointId\<close> prints as the
  hexadecimal form of its 32 bytes and parses back.
\<close>

definition crypto_ok :: "crypto_lib \<Rightarrow> bool" where
  "crypto_ok L \<longleftrightarrow>
     (\<forall>b. hex_decode L (hex_encode L b) = Some b \<and> list_all hex_digit (hex_encode L b)) \<and>
     (\<forall>e m. bip39_generate L e = Some m \<longrightarrow> trim m \<noteq> [] \<and> bip39_parse L (trim m) \<noteq> None) \<and>
     (\<forall>m p. length (bip39_seed L m p) = 64) \<and>
     (\<forall>sk msg. length sk = 32 \<longrightarrow>
        length (ed_public L sk) = 32 \<and> ed_key_ok L (ed_public L sk) \<and>
        length (ed_sign L sk msg) = 64 \<and> ed_verify L (ed_public L sk) msg (ed_sign L sk msg)) \<and>
     (\<forall>pk. eid_show L pk = hex_encode L pk) \<and>
     (\<forall>pk. length pk = 32 \<and> ed_key_ok L pk \<longrightarrow> eid_parse L (eid_show L pk) = Some pk) \<and>
     (\<forall>s pk. eid_parse L s = Some pk \<longrightarrow> length pk = 32)"

section \<open>The functions of the file\<close>

datatype crypto_error = MnemonicGeneration | MnemonicParse

definition generate_mnemonic :: "crypto_lib \<Rightarrow> bytes \<Rightarrow> crypto_error + string" where
  "generate_mnemonic L entropy =
     (case bip39_generate L entropy of None \<Rightarrow> Inl MnemonicGeneration | Some m \<Rightarrow> Inr m)"

definition root_from_mnemonic :: "crypto_lib \<Rightarrow> string \<Rightarrow> crypto_error + root" where
  "root_from_mnemonic L mnemonic =
     (case bip39_parse L (trim mnemonic) of
        None \<Rightarrow> Inl MnemonicParse
      | Some m \<Rightarrow> Inr (take 32 (bip39_seed L m [])))"

definition iroh_secret :: "root \<Rightarrow> bytes" where
  "iroh_secret rt = rt"

definition signing_key :: "root \<Rightarrow> bytes" where
  "signing_key rt = rt"

definition sign_hex :: "crypto_lib \<Rightarrow> bytes \<Rightarrow> bytes \<Rightarrow> string" where
  "sign_hex L sk msg = hex_encode L (ed_sign L sk msg)"

definition verify_hex :: "crypto_lib \<Rightarrow> string \<Rightarrow> bytes \<Rightarrow> string \<Rightarrow> bool" where
  "verify_hex L node_id_hex msg sig_hex =
     (case hex_decode L node_id_hex of
        None \<Rightarrow> False
      | Some pk \<Rightarrow>
          if length pk \<noteq> 32 then False
          else if \<not> ed_key_ok L pk then False
          else (case hex_decode L sig_hex of
                  None \<Rightarrow> False
                | Some sb \<Rightarrow> if length sb \<noteq> 64 then False else ed_verify L pk msg sb))"

text \<open>The node's public name: the identifier iroh derives from the secret key.\<close>

definition node_id_of :: "crypto_lib \<Rightarrow> root \<Rightarrow> string" where
  "node_id_of L rt = eid_show L (ed_public L (iroh_secret rt))"

section \<open>Consequences of the libraries' laws\<close>

lemma crypto_okD:
  assumes "crypto_ok L"
  shows hex_decode_encode: "hex_decode L (hex_encode L b) = Some b"
    and hex_encode_digits: "list_all hex_digit (hex_encode L b)"
    and generate_nonblank: "bip39_generate L e = Some m \<Longrightarrow> trim m \<noteq> []"
    and generate_parses: "bip39_generate L e = Some m \<Longrightarrow> bip39_parse L (trim m) \<noteq> None"
    and length_seed: "length (bip39_seed L m p) = 64"
    and length_public: "length sk = 32 \<Longrightarrow> length (ed_public L sk) = 32"
    and public_ok: "length sk = 32 \<Longrightarrow> ed_key_ok L (ed_public L sk)"
    and length_sign: "length sk = 32 \<Longrightarrow> length (ed_sign L sk msg) = 64"
    and verify_sign: "length sk = 32 \<Longrightarrow> ed_verify L (ed_public L sk) msg (ed_sign L sk msg)"
    and eid_show_hex: "eid_show L pk = hex_encode L pk"
    and eid_parse_show: "length pk = 32 \<Longrightarrow> ed_key_ok L pk \<Longrightarrow> eid_parse L (eid_show L pk) = Some pk"
    and length_eid: "eid_parse L s = Some pk \<Longrightarrow> length pk = 32"
  using assms unfolding crypto_ok_def by blast+

lemma hex_digit_props: "hex_digit c \<Longrightarrow> printable c \<and> c \<noteq> CHR ''|'' \<and> ascii_lower c = c"
  by (auto simp: hex_digit_def is_digit_def printable_def ascii_lower_def)

lemma hex_encode_props:
  assumes "crypto_ok L"
  shows "trim (hex_encode L b) = hex_encode L b"
    and "to_ascii_lowercase (hex_encode L b) = hex_encode L b"
    and "CHR ''|'' \<notin> set (hex_encode L b)"
proof -
  have d: "\<And>c. c \<in> set (hex_encode L b) \<Longrightarrow> hex_digit c"
    using hex_encode_digits [OF assms, of b] by (simp add: list_all_iff)
  show "trim (hex_encode L b) = hex_encode L b"
    using d hex_digit_props by (intro trim_printable) (simp add: list_all_iff)
  show "to_ascii_lowercase (hex_encode L b) = hex_encode L b"
    using d hex_digit_props by (auto simp: to_ascii_lowercase_def intro: map_idI)
  show "CHR ''|'' \<notin> set (hex_encode L b)"
    using d hex_digit_props by blast
qed

lemma root_length: "crypto_ok L \<Longrightarrow> root_from_mnemonic L m = Inr rt \<Longrightarrow> length rt = 32"
  by (auto simp: root_from_mnemonic_def length_seed split: option.splits)

lemma node_id_parse:
  "crypto_ok L \<Longrightarrow> length rt = 32 \<Longrightarrow> eid_parse L (node_id_of L rt) = Some (ed_public L rt)"
  by (simp add: node_id_of_def iroh_secret_def eid_parse_show length_public public_ok)

lemma node_id_no_bar: "crypto_ok L \<Longrightarrow> CHR ''|'' \<notin> set (node_id_of L rt)"
  by (simp add: node_id_of_def eid_show_hex hex_encode_props)

lemma sign_hex_verifies:
  assumes "crypto_ok L" and "length rt = 32"
  shows "verify_hex L (node_id_of L rt) msg (sign_hex L (signing_key rt) msg)"
  using assms
  by (simp add: verify_hex_def node_id_of_def eid_show_hex hex_decode_encode sign_hex_def
      signing_key_def iroh_secret_def length_public public_ok length_sign verify_sign)

lemma sign_hex_printable: "crypto_ok L \<Longrightarrow> list_all printable (sign_hex L sk msg)"
  using hex_encode_digits [of L] hex_digit_props by (fastforce simp: sign_hex_def list_all_iff)

lemma node_id_printable: "crypto_ok L \<Longrightarrow> list_all printable (node_id_of L rt)"
  using hex_encode_digits [of L] hex_digit_props
  by (fastforce simp: node_id_of_def eid_show_hex list_all_iff)

section \<open>A library that satisfies the laws\<close>

text \<open>Real hexadecimal, and a signature scheme without secrecy; only to show the laws consistent.\<close>

definition hex_char :: "nat \<Rightarrow> char" where
  "hex_char n = ''0123456789abcdef'' ! n"

definition hex_val :: "char \<Rightarrow> nat" where
  "hex_val c = (if is_digit c then digit_value c else of_char c - 87)"

primrec demo_hex :: "bytes \<Rightarrow> string" where
  "demo_hex [] = []"
| "demo_hex (b # bs) = hex_char (unat b div 16) # hex_char (unat b mod 16) # demo_hex bs"

fun demo_unhex :: "string \<Rightarrow> bytes option" where
  "demo_unhex [] = Some []"
| "demo_unhex [c] = None"
| "demo_unhex (c # d # s) =
     (if hex_digit c \<and> hex_digit d
      then map_option (\<lambda>bs. of_nat (16 * hex_val c + hex_val d) # bs) (demo_unhex s) else None)"

definition demo_crypto :: crypto_lib where
  "demo_crypto = \<lparr>
     hex_encode = demo_hex, hex_decode = demo_unhex,
     bip39_generate = (\<lambda>e. Some ''demo''), bip39_parse = Some,
     bip39_seed = (\<lambda>m p. replicate 64 (if m = ''other'' then 9 else 7)),
     ed_public = id, ed_sign = (\<lambda>sk msg. sk @ sk), ed_key_ok = (\<lambda>pk. True),
     ed_verify = (\<lambda>pk msg sig. sig = pk @ pk),
     eid_parse = (\<lambda>s. case demo_unhex s of None \<Rightarrow> None
                      | Some b \<Rightarrow> if length b = 32 then Some b else None),
     eid_show = demo_hex\<rparr>"

lemma trim_demo [simp]: "trim ''demo'' = ''demo''" "trim ''other'' = ''other''"
  by code_simp+

lemma hex_char_props: "n < 16 \<Longrightarrow> hex_digit (hex_char n) \<and> hex_val (hex_char n) = n"
proof -
  have "list_all (\<lambda>n. hex_digit (hex_char n) \<and> hex_val (hex_char n) = n) [0..<16]"
    by code_simp
  then show "n < 16 \<Longrightarrow> hex_digit (hex_char n) \<and> hex_val (hex_char n) = n"
    by (simp add: list_all_iff)
qed

lemma demo_unhex_hex: "demo_unhex (demo_hex bs) = Some bs" and demo_hex_digits: "list_all hex_digit (demo_hex bs)"
proof (induction bs)
  case (Cons b bs)
  have "unat b < 256" using unat_bound [of b] by simp
  then have "unat b div 16 < 16" and "unat b mod 16 < 16" by simp_all
  note P = this [THEN hex_char_props]
  case 1
  show ?case using Cons(1) P by simp
  case 2
  show ?case using Cons(2) P by simp
qed simp_all

lemma demo_crypto_ok [demo_laws]: "crypto_ok demo_crypto"
  by (auto simp: crypto_ok_def demo_crypto_def demo_unhex_hex demo_hex_digits printable_def
      split: option.splits if_splits)

section \<open>Properties\<close>

text \<open>Whoever knows a node's identifier can check what the node signed: the hexadecimal
  signature made with the signing key verifies against the identifier iroh derives from the same
  root, because both are the same key.\<close>

theorem sign_verify_same_root:
  assumes "crypto_ok L" and "root_from_mnemonic L mnemonic = Inr rt"
  shows "verify_hex L (node_id_of L rt) msg (sign_hex L (signing_key rt) msg)"
  using assms by (simp add: sign_hex_verifies root_length)

lemma sign_verify_same_root_witness:
  "verify_hex demo_crypto (node_id_of demo_crypto (replicate 32 7)) [1, 2]
     (sign_hex demo_crypto (signing_key (replicate 32 7)) [1, 2])"
  by (rule sign_verify_same_root [OF demo_crypto_ok, of "''demo''"])
    (simp add: root_from_mnemonic_def demo_crypto_def)

text \<open>A signature is accepted only for a 32-byte valid key and 64 signature bytes that the
  Ed25519 check accepts; every malformed input is rejected.\<close>

theorem verify_hex_iff:
  "verify_hex L nid msg sig \<longleftrightarrow>
     (\<exists>pk sb. hex_decode L nid = Some pk \<and> length pk = 32 \<and> ed_key_ok L pk
        \<and> hex_decode L sig = Some sb \<and> length sb = 64 \<and> ed_verify L pk msg sb)"
  by (auto simp: verify_hex_def split: option.splits)

end
