(* ===== verification/Config.thy ===== *)
theory Config
  imports Crypto "HOL-Library.Mapping" "HOL-Library.AList_Mapping"
begin

text \<open>
  \<open>src/src/config.rs\<close>: the configuration with its defaults, the port setting, and the zero-configuration
  start, which reads \<open>config.yaml\<close> or starts from the defaults, completes the keys and writes the
  file back. The YAML codec, the file writer and the Unicode \<open>to_lowercase\<close> are parameters.
\<close>

section \<open>The configuration\<close>

record identity_cfg =
  bip39_mnemonic :: string
  iroh_secret_key :: string

datatype port_cfg = PortNum u16 | PortName string

record network_cfg =
  listen_port :: port_cfg
  relays :: "string list"
  dht_enabled :: bool
  dht_bootstrap :: "string list"
  ipv6_enabled :: bool

record status_cfg =
  http_port :: u16

record gossip_cfg =
  announce_interval_secs :: u64

record endpoint_cfg =
  ep_protocol :: string
  ep_name :: string
  local_url :: string
  rate_limit_per_peer :: u32
  local_ws_url :: "string option"
  ws_rate_limit_per_peer :: u32

text \<open>
  \<open>endpoints\<close> is a \<open>HashMap\<close>, whose iteration order is not determined by its contents; a caller
  that iterates takes the order as an argument.
\<close>

record config =
  identity :: identity_cfg
  network :: network_cfg
  status_sec :: status_cfg
  gossip :: gossip_cfg
  endpoints :: "(string, endpoint_cfg) mapping"

definition default_listen_port :: port_cfg where
  "default_listen_port = PortName ''random''"

definition default_dht_enabled :: bool where
  "default_dht_enabled = True"

definition default_ipv6_enabled :: bool where
  "default_ipv6_enabled = True"

definition default_protocol :: string where
  "default_protocol = ''api''"

definition default_rate :: u32 where
  "default_rate = 5"

definition default_ws_msg_rate :: u32 where
  "default_ws_msg_rate = 30"

definition network_default :: network_cfg where
  "network_default =
     \<lparr>listen_port = default_listen_port, relays = [], dht_enabled = True, dht_bootstrap = [],
      ipv6_enabled = default_ipv6_enabled\<rparr>"

definition status_default :: status_cfg where
  "status_default = \<lparr>http_port = 8080\<rparr>"

definition gossip_default :: gossip_cfg where
  "gossip_default = \<lparr>announce_interval_secs = 300\<rparr>"

definition config_default :: config where
  "config_default =
     \<lparr>identity = \<lparr>bip39_mnemonic = [], iroh_secret_key = []\<rparr>,
      network = network_default, status_sec = status_default, gossip = gossip_default,
      endpoints =
        Mapping.update ''smartholdem-node''
          \<lparr>ep_protocol = ''api'', ep_name = ''node1-smartholdem'',
           local_url = ''http://localhost:4003/api'', rate_limit_per_peer = 5,
           local_ws_url = None, ws_rate_limit_per_peer = 30\<rparr>
          Mapping.empty\<rparr>"

section \<open>The port setting\<close>

definition parse_port_str :: "string \<Rightarrow> u16" where
  "parse_port_str s =
     (let s = to_ascii_lowercase (trim s) in
      if s = [] \<or> s = ''random'' \<or> s = ''rand'' \<or> s = ''auto'' then 0
      else (case parse_u16 s of None \<Rightarrow> 0 | Some p \<Rightarrow> p))"

fun resolve_port :: "port_cfg \<Rightarrow> u16" where
  "resolve_port (PortNum n) = n"
| "resolve_port (PortName s) = parse_port_str s"

definition show_port :: "port_cfg \<Rightarrow> string" where
  "show_port p =
     (if resolve_port p = 0 then ''random'' else show_nat (unat (resolve_port p)))"

section \<open>Loading\<close>

text \<open>What is at the path: nothing, something that cannot be read as text, or a text.\<close>

datatype file_state = NoFile | UnreadableFile | TextFile string

text \<open>The YAML codec, the lower-casing and the file writer, which succeeds or not and leaves a file.\<close>

record config_env =
  yaml_parse :: "string \<Rightarrow> config option"
  yaml_print :: "config \<Rightarrow> string option"
  to_lowercase :: "string \<Rightarrow> string"
  fs_write :: "string \<Rightarrow> file_state \<Rightarrow> bool \<times> file_state"

datatype config_error =
  ReadFailed | YamlParse | Keys crypto_error | NoEndpoints | YamlPrint | WriteFailed

definition save :: "config_env \<Rightarrow> config \<Rightarrow> file_state \<Rightarrow> (config_error + unit) \<times> file_state" where
  "save E cfg f =
     (case yaml_print E cfg of
        None \<Rightarrow> (Inl YamlPrint, f)
      | Some y \<Rightarrow> (case fs_write E y f of
                     (ok, f') \<Rightarrow> ((if ok then Inr () else Inl WriteFailed), f')))"

definition read_config :: "config_env \<Rightarrow> file_state \<Rightarrow> config_error + config" where
  "read_config E f =
     (case f of
        NoFile \<Rightarrow> Inr config_default
      | UnreadableFile \<Rightarrow> Inl ReadFailed
      | TextFile raw \<Rightarrow> (case yaml_parse E raw of None \<Rightarrow> Inl YamlParse | Some cfg \<Rightarrow> Inr cfg))"

text \<open>Steps (1) and (2): generate the mnemonic where it is blank; with whether it was.\<close>

definition fill_mnemonic :: "crypto_lib \<Rightarrow> bytes \<Rightarrow> config \<Rightarrow> crypto_error + config \<times> bool" where
  "fill_mnemonic L entropy cfg =
     (if trim (bip39_mnemonic (identity cfg)) = [] then
        (case generate_mnemonic L entropy of
           Inl e \<Rightarrow> Inl e
         | Inr m \<Rightarrow> Inr (cfg\<lparr>identity := (identity cfg)\<lparr>bip39_mnemonic := m\<rparr>\<rparr>, True))
      else Inr (cfg, False))"

text \<open>Step (3): keep the cached key in step with the root.\<close>

definition sync_key :: "config_env \<Rightarrow> crypto_lib \<Rightarrow> root \<Rightarrow> config \<Rightarrow> config \<times> bool" where
  "sync_key E L rt cfg =
     (if to_lowercase E (trim (iroh_secret_key (identity cfg))) \<noteq> hex_encode L rt
      then (cfg\<lparr>identity := (identity cfg)\<lparr>iroh_secret_key := hex_encode L rt\<rparr>\<rparr>, True)
      else (cfg, False))"

definition load_or_init ::
  "config_env \<Rightarrow> crypto_lib \<Rightarrow> bytes \<Rightarrow> file_state \<Rightarrow> (config_error + config \<times> root) \<times> file_state" where
  "load_or_init E L entropy f =
     (case read_config E f of
        Inl e \<Rightarrow> (Inl e, f)
      | Inr cfg0 \<Rightarrow>
          (case fill_mnemonic L entropy cfg0 of
             Inl e \<Rightarrow> (Inl (Keys e), f)
           | Inr (cfg1, dirty1) \<Rightarrow>
               (case root_from_mnemonic L (bip39_mnemonic (identity cfg1)) of
                  Inl e \<Rightarrow> (Inl (Keys e), f)
                | Inr rt \<Rightarrow>
                    (case sync_key E L rt cfg1 of
                       (cfg2, dirty2) \<Rightarrow>
                         (if Mapping.is_empty (endpoints cfg2) then (Inl NoEndpoints, f)
                          else if f = NoFile \<or> dirty1 \<or> dirty2 then
                            (case save E cfg2 f of
                               (Inl e, f') \<Rightarrow> (Inl e, f')
                             | (Inr _, f') \<Rightarrow> (Inr (cfg2, rt), f'))
                          else (Inr (cfg2, rt), f))))))"

text \<open>
  The documented behaviour of the parameters: a written file holds what was written, YAML reads
  back what it printed, and lower-casing ASCII text is the ASCII mapping.
\<close>

definition config_env_ok :: "config_env \<Rightarrow> bool" where
  "config_env_ok E \<longleftrightarrow>
     (\<forall>cfg y. yaml_print E cfg = Some y \<longrightarrow> yaml_parse E y = Some cfg) \<and>
     (\<forall>y f f'. fs_write E y f = (True, f') \<longrightarrow> f' = TextFile y) \<and>
     (\<forall>s. list_all printable s \<longrightarrow> to_lowercase E s = to_ascii_lowercase s)"

section \<open>What loading establishes\<close>

lemma saved_reads_back:
  assumes "config_env_ok E" and "save E cfg f = (Inr u, f')"
  shows "f' \<noteq> NoFile" and "read_config E f' = Inr cfg"
proof -
  obtain y where y: "yaml_print E cfg = Some y" and "fs_write E y f = (True, f')"
    using assms(2) by (auto simp: save_def split: option.splits prod.splits if_splits)
  with assms(1) have "f' = TextFile y" and "yaml_parse E y = Some cfg"
    unfolding config_env_ok_def by blast+
  then show "f' \<noteq> NoFile" and "read_config E f' = Inr cfg"
    by (simp_all add: read_config_def)
qed

lemma fill_mnemonic_blank:
  assumes "crypto_ok L" and "fill_mnemonic L entropy cfg = Inr (cfg1, d)"
  shows "trim (bip39_mnemonic (identity cfg1)) \<noteq> []" and "fill_mnemonic L entropy' cfg1 = Inr (cfg1, False)"
    and "d \<or> cfg1 = cfg"
  using assms by (auto simp: fill_mnemonic_def generate_mnemonic_def generate_nonblank
      split: if_splits option.splits sum.splits)

lemma sync_key_again:
  assumes "crypto_ok L" and "config_env_ok E" and "sync_key E L rt cfg = (cfg2, d)"
  shows "sync_key E L rt cfg2 = (cfg2, False)" and "bip39_mnemonic (identity cfg2) = bip39_mnemonic (identity cfg)"
    and "d \<or> cfg2 = cfg" and "endpoints cfg2 = endpoints cfg"
proof -
  have "list_all printable (hex_encode L rt)"
    using hex_encode_digits [OF assms(1), of rt] hex_digit_props by (auto simp: list_all_iff)
  then have "to_lowercase E (trim (hex_encode L rt)) = hex_encode L rt"
    using assms(1,2) by (simp add: config_env_ok_def hex_encode_props)
  then show "sync_key E L rt cfg2 = (cfg2, False)"
    and "bip39_mnemonic (identity cfg2) = bip39_mnemonic (identity cfg)"
    and "d \<or> cfg2 = cfg" and "endpoints cfg2 = endpoints cfg"
    using assms(3) by (auto simp: sync_key_def split: if_splits)
qed

text \<open>The intermediate values of a start that succeeded.\<close>

lemma load_or_init_Inr:
  assumes "load_or_init E L entropy f = (Inr (cfg, rt), f')"
  obtains cfg0 cfg1 d1 d2 where "read_config E f = Inr cfg0"
    and "fill_mnemonic L entropy cfg0 = Inr (cfg1, d1)"
    and "root_from_mnemonic L (bip39_mnemonic (identity cfg1)) = Inr rt"
    and "sync_key E L rt cfg1 = (cfg, d2)" and "\<not> Mapping.is_empty (endpoints cfg)"
    and "f \<noteq> NoFile \<and> \<not> d1 \<and> \<not> d2 \<and> f' = f \<or> (\<exists>u. save E cfg f = (Inr u, f'))"
  using assms
  by (auto simp: load_or_init_def split: sum.splits prod.splits if_splits)

lemma load_or_init_root:
  "load_or_init E L entropy f = (Inr (cfg, rt), f') \<Longrightarrow> \<exists>m. root_from_mnemonic L m = Inr rt"
  by (erule load_or_init_Inr) blast

text \<open>A later start finds everything in order.\<close>

lemma load_or_init_again:
  assumes "crypto_ok L" and "config_env_ok E" and "load_or_init E L entropy f = (Inr (cfg, rt), f')"
  shows "load_or_init E L entropy' f' = (Inr (cfg, rt), f')"
proof -
  from assms(3) obtain cfg0 cfg1 d1 d2 where s: "read_config E f = Inr cfg0"
    "fill_mnemonic L entropy cfg0 = Inr (cfg1, d1)"
    "root_from_mnemonic L (bip39_mnemonic (identity cfg1)) = Inr rt"
    "sync_key E L rt cfg1 = (cfg, d2)" "\<not> Mapping.is_empty (endpoints cfg)"
    and f': "f \<noteq> NoFile \<and> \<not> d1 \<and> \<not> d2 \<and> f' = f \<or> (\<exists>u. save E cfg f = (Inr u, f'))"
    by (rule load_or_init_Inr)
  note fill = fill_mnemonic_blank [OF assms(1) s(2)]
  note sync = sync_key_again [OF assms(1,2) s(4)]
  have read: "f' \<noteq> NoFile \<and> read_config E f' = Inr cfg"
    using f' saved_reads_back [OF assms(2)] s(1) fill(3) sync(3) by auto
  moreover have "fill_mnemonic L entropy' cfg = Inr (cfg, False)"
    using fill(1) sync(2) by (simp add: fill_mnemonic_def)
  moreover have "root_from_mnemonic L (bip39_mnemonic (identity cfg)) = Inr rt"
    using s(3) sync(2) by simp
  ultimately show ?thesis using sync(1) s(5) by (simp add: load_or_init_def)
qed

section \<open>Parameters that satisfy the laws\<close>

text \<open>The default configuration after its first start with the demonstration library.\<close>

definition demo_config :: config where
  "demo_config = config_default
     \<lparr>identity := \<lparr>bip39_mnemonic = ''demo'', iroh_secret_key = demo_hex (replicate 32 7)\<rparr>\<rparr>"

definition demo_env :: config_env where
  "demo_env = \<lparr>
     yaml_parse = (\<lambda>y. if y = ''y'' then Some demo_config else None),
     yaml_print = (\<lambda>c. if c = demo_config then Some ''y'' else None),
     to_lowercase = to_ascii_lowercase,
     fs_write = (\<lambda>y f. (True, TextFile y))\<rparr>"

lemma demo_env_ok [demo_laws]: "config_env_ok demo_env"
  by (simp add: config_env_ok_def demo_env_def)

lemma demo_hex_nonempty: "demo_hex (replicate 32 7) \<noteq> []"
  by code_simp

lemma demo_start: "load_or_init demo_env demo_crypto e NoFile = (Inr (demo_config, replicate 32 7), TextFile ''y'')"
proof -
  have "fill_mnemonic demo_crypto e config_default
      = Inr (config_default\<lparr>identity := \<lparr>bip39_mnemonic = ''demo'', iroh_secret_key = []\<rparr>\<rparr>, True)"
    by (simp add: fill_mnemonic_def generate_mnemonic_def config_default_def demo_crypto_def)
  moreover have "root_from_mnemonic demo_crypto ''demo'' = Inr (replicate 32 7)"
    by (simp add: root_from_mnemonic_def demo_crypto_def)
  moreover have "sync_key demo_env demo_crypto (replicate 32 7)
      (config_default\<lparr>identity := \<lparr>bip39_mnemonic = ''demo'', iroh_secret_key = []\<rparr>\<rparr>) = (demo_config, True)"
    by (simp add: sync_key_def demo_env_def demo_config_def demo_crypto_def to_ascii_lowercase_def
        demo_hex_nonempty [symmetric])
  moreover have "\<not> Mapping.is_empty (endpoints demo_config)"
    by (simp add: demo_config_def config_default_def Mapping.is_empty_def)
  ultimately show ?thesis
    by (simp add: load_or_init_def read_config_def save_def demo_env_def)
qed

section \<open>Properties\<close>

text \<open>The port that is shown parses back to the port in use, \<open>random\<close> standing for 0.\<close>

theorem port_show_parse: "parse_port_str (show_port p) = resolve_port p"
proof (cases "resolve_port p = 0")
  case True
  have "trim ''random'' = ''random''" by (rule trim_printable) (simp add: printable_def)
  moreover have "to_ascii_lowercase ''random'' = ''random''"
    by (simp add: to_ascii_lowercase_def ascii_lower_def)
  ultimately show ?thesis using True by (simp add: show_port_def parse_port_str_def)
next
  case False
  define n where "n = unat (resolve_port p)"
  have n: "n < 2 ^ 16" using unat_bound [of "resolve_port p"] by (simp add: n_def)
  have digits: "list_all is_digit (show_nat n)" using show_nat_digits by (simp add: list_all_iff)
  then have "list_all printable (show_nat n)" and low: "to_ascii_lowercase (show_nat n) = show_nat n"
    by (auto simp: list_all_iff is_digit_def printable_def to_ascii_lowercase_def ascii_lower_def
        intro!: map_idI)
  then have trim: "trim (show_nat n) = show_nat n" by simp
  have ne: "show_nat n \<noteq> []" by (subst show_nat.simps) simp
  have words: "\<not> list_all is_digit ''random''" "\<not> list_all is_digit ''rand''" "\<not> list_all is_digit ''auto''"
    by (simp_all add: is_digit_def)
  have plus: "CHR ''+'' \<notin> set (show_nat n)"
    using digits by (auto simp: list_all_iff is_digit_def)
  have "parse_u16 (show_nat n) = Some (of_nat n)"
  proof -
    obtain c cs where cs: "show_nat n = c # cs" using ne by (cases "show_nat n") auto
    then have "dec_value (c # cs) = n" using dec_value_show_nat [of n] by simp
    moreover have "c \<noteq> CHR ''+''" using cs plus by auto
    ultimately show ?thesis using cs digits n by (auto simp: parse_u16_def)
  qed
  then have "parse_port_str (show_nat n) = of_nat n"
    using trim low ne words digits by (auto simp: parse_port_str_def Let_def)
  with False show ?thesis by (simp add: show_port_def n_def)
qed

text \<open>A start that succeeded leaves a file from which every later start gets the same
  configuration and the same root, without writing again and whatever entropy it draws: the node
  keeps its identifier across restarts.\<close>

theorem load_or_init_stable:
  assumes "crypto_ok L" and "config_env_ok E" and "load_or_init E L entropy f = (Inr (cfg, rt), f')"
  shows "load_or_init E L entropy' f' = (Inr (cfg, rt), f')"
  using assms by (rule load_or_init_again)

lemma load_or_init_stable_witness:
  "load_or_init demo_env demo_crypto [9] (TextFile ''y'') = (Inr (demo_config, replicate 32 7), TextFile ''y'')"
  by (rule load_or_init_stable [OF demo_crypto_ok demo_env_ok demo_start [of "[5]"]])

text \<open>A start that succeeded has the keys in order: the mnemonic is not blank, the root is the
  one derived from it and has 32 bytes, the cached key is its hexadecimal form up to case and
  surrounding space, and at least one endpoint is configured.\<close>

theorem load_or_init_keys:
  assumes "crypto_ok L" and "config_env_ok E" and "load_or_init E L entropy f = (Inr (cfg, rt), f')"
  shows "trim (bip39_mnemonic (identity cfg)) \<noteq> []
    \<and> root_from_mnemonic L (bip39_mnemonic (identity cfg)) = Inr rt \<and> length rt = 32
    \<and> to_lowercase E (trim (iroh_secret_key (identity cfg))) = hex_encode L rt
    \<and> \<not> Mapping.is_empty (endpoints cfg)"
proof -
  from assms(3) obtain cfg0 cfg1 d1 d2 where s: "fill_mnemonic L entropy cfg0 = Inr (cfg1, d1)"
    "root_from_mnemonic L (bip39_mnemonic (identity cfg1)) = Inr rt"
    "sync_key E L rt cfg1 = (cfg, d2)" "\<not> Mapping.is_empty (endpoints cfg)"
    by (rule load_or_init_Inr)
  note sync = sync_key_again [OF assms(1,2) s(3)]
  have "to_lowercase E (trim (iroh_secret_key (identity cfg))) = hex_encode L rt"
    using sync(1) by (auto simp: sync_key_def split: if_splits)
  with s fill_mnemonic_blank(1) [OF assms(1) s(1)] sync(2) root_length [OF assms(1) s(2)]
  show ?thesis by simp
qed

lemma load_or_init_keys_witness:
  "trim (bip39_mnemonic (identity demo_config)) \<noteq> [] \<and> length (replicate 32 (7 :: u8)) = 32
    \<and> to_lowercase demo_env (trim (iroh_secret_key (identity demo_config))) = hex_encode demo_crypto (replicate 32 7)
    \<and> \<not> Mapping.is_empty (endpoints demo_config)"
  using load_or_init_keys [OF demo_crypto_ok demo_env_ok demo_start [of "[5]"]] by blast

text \<open>A start that fails before the last step leaves the file as it was; only a failed write
  can have touched it.\<close>

theorem load_or_init_error_keeps_file:
  assumes "load_or_init E L entropy f = (Inl err, f')" and "err \<noteq> WriteFailed"
  shows "f' = f"
  using assms
  by (auto simp: load_or_init_def save_def split: sum.splits prod.splits if_splits option.splits)

lemma load_or_init_error_keeps_file_witness:
  "snd (load_or_init demo_env demo_crypto [5] (TextFile ''z'')) = TextFile ''z''"
proof -
  have "load_or_init demo_env demo_crypto [5] (TextFile ''z'') = (Inl YamlParse, TextFile ''z'')"
    by (simp add: load_or_init_def read_config_def demo_env_def)
  from load_or_init_error_keeps_file [OF this] this show ?thesis by simp
qed

end
