(* ===== verification/Peers.thy ===== *)
theory Peers
  imports Rust_Str "HOL-Library.AList"
begin

text \<open>
  \<open>src/src/peers.rs\<close>: the signed manifest of a provider and the store of the manifests heard of. The
  sled database and the JSON codec are parameters, gathered in \<open>store_lib\<close>; \<open>store_ok\<close> states their
  documented behaviour. The store is used by the relay, by the discovery and by the dashboard, which
  rely only on what the locale \<open>directory\<close> promises.
\<close>

section \<open>The manifest\<close>

record manifest =
  mf_node_id :: string
  mf_endpoints :: "string list"
  mf_uptime_secs :: u64
  mf_latency_ms :: u64
  mf_requests_total :: u64
  mf_signed_at :: u64
  mf_version :: string
  mf_signature :: string
  mf_seen_at :: u64

definition canonical_bytes :: "manifest \<Rightarrow> bytes" where
  "canonical_bytes m =
     as_bytes (mf_node_id m) @ as_bytes ''|'' @
     as_bytes (join '','' (mf_endpoints m)) @ as_bytes ''|'' @
     to_be_bytes 8 (mf_uptime_secs m) @ as_bytes ''|'' @
     to_be_bytes 8 (mf_latency_ms m) @ as_bytes ''|'' @
     to_be_bytes 8 (mf_requests_total m) @ as_bytes ''|'' @
     to_be_bytes 8 (mf_signed_at m)"

text \<open>What follows the names: a fixed number of bytes.\<close>

definition signed_tail :: "manifest \<Rightarrow> bytes" where
  "signed_tail m =
     as_bytes ''|'' @ to_be_bytes 8 (mf_uptime_secs m) @ as_bytes ''|'' @ to_be_bytes 8 (mf_latency_ms m) @
     as_bytes ''|'' @ to_be_bytes 8 (mf_requests_total m) @ as_bytes ''|'' @ to_be_bytes 8 (mf_signed_at m)"

lemma signed_tail_length: "length (signed_tail m) = 36"
  by (simp add: signed_tail_def)

lemma signed_tail_inject:
  "signed_tail m = signed_tail m' \<longleftrightarrow>
    mf_uptime_secs m = mf_uptime_secs m' \<and> mf_latency_ms m = mf_latency_ms m' \<and>
    mf_requests_total m = mf_requests_total m' \<and> mf_signed_at m = mf_signed_at m'"
  by (simp add: signed_tail_def append_eq_append_conv)

text \<open>The names are only joined, so that a comma in a name is the same as a name that ends there.\<close>

lemma join_comma: "join sep (as @ [a @ sep @ b] @ bs) = join sep (as @ [a, b] @ bs)"
  by (induction "as" rule: induct_list012) (cases bs; simp)+

lemma canonical_bytes_names:
  "canonical_bytes (m\<lparr>mf_endpoints := as @ [a @ '','' @ b] @ bs\<rparr>) = canonical_bytes (m\<lparr>mf_endpoints := as @ [a, b] @ bs\<rparr>)"
  "canonical_bytes (m\<lparr>mf_endpoints := [[]]\<rparr>) = canonical_bytes (m\<lparr>mf_endpoints := []\<rparr>)"
  using join_comma [where sep = "'',''"] by (simp_all add: canonical_bytes_def)

section \<open>The store\<close>

text \<open>
  \<open>sled_insert\<close> returns whether it succeeded and the database it leaves; \<open>sled_iter\<close> the entries in
  the order of the iterator, a failed read as \<open>Inl\<close>. \<open>to_json\<close> and \<open>from_json\<close> are
  \<open>serde_json::to_vec\<close> and \<open>serde_json::from_slice\<close> at the type \<open>Manifest\<close>.
\<close>

record 'db store_lib =
  sled_insert :: "'db \<Rightarrow> bytes \<Rightarrow> bytes \<Rightarrow> bool \<times> 'db"
  sled_iter :: "'db \<Rightarrow> (io_error + bytes \<times> bytes) list"
  to_json :: "manifest \<Rightarrow> bytes option"
  from_json :: "bytes \<Rightarrow> manifest option"

datatype store_error = JsonPrint | SledInsert

definition upsert :: "'db store_lib \<Rightarrow> manifest \<Rightarrow> 'db \<Rightarrow> (store_error + unit) \<times> 'db" where
  "upsert S m db =
     (case to_json S m of
        None \<Rightarrow> (Inl JsonPrint, db)
      | Some b \<Rightarrow> (case sled_insert S db (as_bytes (mf_node_id m)) b of
                     (ok, db') \<Rightarrow> ((if ok then Inr () else Inl SledInsert), db')))"

definition peer_list :: "'db store_lib \<Rightarrow> 'db \<Rightarrow> manifest list" where
  "peer_list S db =
     List.map_filter (\<lambda>kv. from_json S (snd kv))
       (List.map_filter (\<lambda>r. case r of Inl e \<Rightarrow> None | Inr kv \<Rightarrow> Some kv) (sled_iter S db))"

definition providers_of :: "'db store_lib \<Rightarrow> 'db \<Rightarrow> string \<Rightarrow> string \<Rightarrow> string list" where
  "providers_of S db target exclude =
     map mf_node_id
       (filter (\<lambda>m. mf_node_id m \<noteq> exclude \<and> list_ex (\<lambda>e. e = target) (mf_endpoints m)) (peer_list S db))"

definition others :: "'db store_lib \<Rightarrow> 'db \<Rightarrow> string \<Rightarrow> string list" where
  "others S db exclude = map mf_node_id (filter (\<lambda>m. mf_node_id m \<noteq> exclude) (peer_list S db))"

section \<open>The libraries' laws\<close>

text \<open>
  \<open>view\<close> is what the database holds. The iterator gives each key once and, when no read fails, every
  entry; a successful insert sets its key and nothing else, a failed one may or may not have. JSON
  reads back what it printed.
\<close>

definition read_entries :: "'db store_lib \<Rightarrow> 'db \<Rightarrow> (bytes \<times> bytes) list" where
  "read_entries S db = List.map_filter (\<lambda>r. case r of Inl e \<Rightarrow> None | Inr kv \<Rightarrow> Some kv) (sled_iter S db)"

definition reads_all :: "'db store_lib \<Rightarrow> 'db \<Rightarrow> bool" where
  "reads_all S db \<longleftrightarrow> list_all (\<lambda>r. case r of Inl e \<Rightarrow> False | Inr kv \<Rightarrow> True) (sled_iter S db)"

definition store_ok :: "'db store_lib \<Rightarrow> ('db \<Rightarrow> bytes \<rightharpoonup> bytes) \<Rightarrow> bool" where
  "store_ok S view \<longleftrightarrow>
     (\<forall>db. distinct (map fst (read_entries S db))
        \<and> (\<forall>k v. (k, v) \<in> set (read_entries S db) \<longrightarrow> view db k = Some v)
        \<and> (\<forall>k v. reads_all S db \<and> view db k = Some v \<longrightarrow> (k, v) \<in> set (read_entries S db))) \<and>
     (\<forall>db k v ok db'. sled_insert S db k v = (ok, db') \<longrightarrow>
        view db' = (view db)(k \<mapsto> v) \<or> \<not> ok \<and> view db' = view db) \<and>
     (\<forall>m b. to_json S m = Some b \<longrightarrow> from_json S b = Some m)"

text \<open>Every stored value that parses is a manifest stored under its own identifier.\<close>

definition store_inv :: "'db store_lib \<Rightarrow> ('db \<Rightarrow> bytes \<rightharpoonup> bytes) \<Rightarrow> 'db \<Rightarrow> bool" where
  "store_inv S view db \<longleftrightarrow>
     (\<forall>k v m. view db k = Some v \<and> from_json S v = Some m \<longrightarrow> k = as_bytes (mf_node_id m))"

text \<open>The store as a map from identifiers to manifests.\<close>

definition abs_store :: "'db store_lib \<Rightarrow> ('db \<Rightarrow> bytes \<rightharpoonup> bytes) \<Rightarrow> 'db \<Rightarrow> string \<rightharpoonup> manifest" where
  "abs_store S view db n = (case view db (as_bytes n) of None \<Rightarrow> None | Some v \<Rightarrow> from_json S v)"

lemma store_okD:
  assumes "store_ok S view"
  shows store_distinct: "distinct (map fst (read_entries S db))"
    and store_read: "(k, v) \<in> set (read_entries S db) \<Longrightarrow> view db k = Some v"
    and store_complete: "reads_all S db \<Longrightarrow> view db k = Some v \<Longrightarrow> (k, v) \<in> set (read_entries S db)"
    and store_insert: "sled_insert S db k v = (ok, db') \<Longrightarrow>
      view db' = (view db)(k \<mapsto> v) \<or> \<not> ok \<and> view db' = view db"
    and json_roundtrip: "to_json S m = Some b \<Longrightarrow> from_json S b = Some m"
  using assms unfolding store_ok_def by blast+

lemma peer_list_entries: "peer_list S db = List.map_filter (\<lambda>kv. from_json S (snd kv)) (read_entries S db)"
  by (simp add: peer_list_def read_entries_def)

text \<open>What is listed, in terms of the map.\<close>

lemma peer_list_abs:
  assumes "store_ok S view" and "store_inv S view db"
  shows "m \<in> set (peer_list S db) \<Longrightarrow> abs_store S view db (mf_node_id m) = Some m"
    and "reads_all S db \<Longrightarrow> m \<in> set (peer_list S db) \<longleftrightarrow> abs_store S view db (mf_node_id m) = Some m"
    and "distinct (map mf_node_id (peer_list S db))"
proof -
  have key: "k = as_bytes (mf_node_id m)" if "view db k = Some v" and "from_json S v = Some m" for k v m
    using assms(2) that unfolding store_inv_def by blast
  have listed: "m \<in> set (peer_list S db) \<longleftrightarrow> (\<exists>k v. (k, v) \<in> set (read_entries S db) \<and> from_json S v = Some m)" for m
    unfolding peer_list_entries set_map_filter by (simp add: Bex_def split_paired_Ex)
  show one: "m \<in> set (peer_list S db) \<Longrightarrow> abs_store S view db (mf_node_id m) = Some m" for m
  proof -
    assume "m \<in> set (peer_list S db)"
    then obtain k v where kv: "(k, v) \<in> set (read_entries S db)" "from_json S v = Some m"
      using listed by blast
    then have "view db k = Some v" using store_read [OF assms(1)] by blast
    with kv key show ?thesis by (auto simp: abs_store_def)
  qed
  show "m \<in> set (peer_list S db) \<longleftrightarrow> abs_store S view db (mf_node_id m) = Some m" if r: "reads_all S db"
  proof
    assume "abs_store S view db (mf_node_id m) = Some m"
    then obtain v where "view db (as_bytes (mf_node_id m)) = Some v" and "from_json S v = Some m"
      by (auto simp: abs_store_def split: option.splits)
    with store_complete [OF assms(1) r] listed show "m \<in> set (peer_list S db)" by blast
  qed (rule one)
  have "distinct (map (of_bytes \<circ> fst) (read_entries S db))"
    using store_distinct [OF assms(1), of db] by (auto simp: distinct_map inj_on_def)
  then show "distinct (map mf_node_id (peer_list S db))"
    unfolding peer_list_entries
  proof (rule distinct_map_filter)
    fix kv m assume "kv \<in> set (read_entries S db)" and j: "from_json S (snd kv) = Some m"
    then have "view db (fst kv) = Some (snd kv)" using store_read [OF assms(1)] by (cases kv) auto
    from key [OF this j] show "mf_node_id m = (of_bytes \<circ> fst) kv" by simp
  qed
qed

text \<open>The codec and the database are independent.\<close>

lemma store_ok_codec:
  assumes "store_ok S view" and "\<And>m b. pr m = Some b \<Longrightarrow> rd b = Some m"
  shows "store_ok (S\<lparr>to_json := pr, from_json := rd\<rparr>) view"
proof -
  have r: "read_entries (S\<lparr>to_json := pr, from_json := rd\<rparr>) db = read_entries S db"
    "reads_all (S\<lparr>to_json := pr, from_json := rd\<rparr>) db = reads_all S db"
    "sled_insert (S\<lparr>to_json := pr, from_json := rd\<rparr>) = sled_insert S"
    "to_json (S\<lparr>to_json := pr, from_json := rd\<rparr>) = pr"
    "from_json (S\<lparr>to_json := pr, from_json := rd\<rparr>) = rd" for db
    by (simp_all add: read_entries_def reads_all_def)
  show ?thesis using assms unfolding store_ok_def r by blast
qed

section \<open>Inserting\<close>

lemma upsert_view:
  assumes "store_ok S view" and "upsert S m db = (r, db')"
  shows "(\<exists>b. from_json S b = Some m \<and> view db' = (view db)(as_bytes (mf_node_id m) \<mapsto> b))
    \<or> r \<noteq> Inr () \<and> view db' = view db"
proof (cases "to_json S m")
  case None
  with assms(2) show ?thesis by (auto simp: upsert_def)
next
  case (Some b)
  obtain ok db'' where ins: "sled_insert S db (as_bytes (mf_node_id m)) b = (ok, db'')" by fastforce
  with Some assms(2) have "db'' = db'" and "r = (if ok then Inr () else Inl SledInsert)"
    by (simp_all add: upsert_def)
  with store_insert [OF assms(1) ins] json_roundtrip [OF assms(1) Some] show ?thesis by auto
qed

text \<open>
  What a client of the store relies on, over any environment \<open>ok\<close> and any state invariant: the map
  after an insertion, the invariant, and the listing.
\<close>

locale directory =
  fixes inv :: "'e \<Rightarrow> 'db \<Rightarrow> bool"
    and abs_map :: "'e \<Rightarrow> 'db \<Rightarrow> string \<rightharpoonup> 'm"
    and put :: "'e \<Rightarrow> 'm \<Rightarrow> 'db \<Rightarrow> (store_error + unit) \<times> 'db"
    and all_of :: "'e \<Rightarrow> 'db \<Rightarrow> 'm list"
    and key_of :: "'m \<Rightarrow> string"
  assumes put_abs: "inv e db \<Longrightarrow> put e m db = (r, db') \<Longrightarrow>
      abs_map e db' = (abs_map e db)(key_of m \<mapsto> m) \<or> r \<noteq> Inr () \<and> abs_map e db' = abs_map e db"
    and put_inv: "inv e db \<Longrightarrow> inv e (snd (put e m db))"
    and listed_abs: "inv e db \<Longrightarrow> m \<in> set (all_of e db) \<Longrightarrow> abs_map e db (key_of m) = Some m"
    and keys_distinct: "inv e db \<Longrightarrow> distinct (map key_of (all_of e db))"
begin

definition put_all :: "'e \<Rightarrow> 'm list \<Rightarrow> 'db \<Rightarrow> 'db" where
  "put_all e ms db = fold (\<lambda>m d. snd (put e m d)) ms db"

lemma put_all_inv: "inv e db \<Longrightarrow> inv e (put_all e ms db)"
  unfolding put_all_def by (induction ms arbitrary: db) (simp_all add: put_inv)

text \<open>Nothing is listed that was not there or inserted.\<close>

lemma put_all_source:
  "inv e db \<Longrightarrow> abs_map e (put_all e ms db) k = Some m \<Longrightarrow> abs_map e db k = Some m \<or> m \<in> set ms"
  unfolding put_all_def
proof (induction ms arbitrary: db)
  case (Cons x ms)
  obtain r db' where p: "put e x db = (r, db')" by fastforce
  have "inv e db'" using put_inv [OF Cons.prems(1), of x] p by simp
  with Cons.IH [of db'] Cons.prems(2) p have "abs_map e db' k = Some m \<or> m \<in> set ms" by simp
  with put_abs [OF Cons.prems(1) p] show ?case by (auto split: if_splits)
qed simp

lemma listed_source:
  "inv e db \<Longrightarrow> m \<in> set (all_of e (put_all e ms db)) \<Longrightarrow> m \<in> set ms \<or> abs_map e db (key_of m) = Some m"
  using put_all_source listed_abs put_all_inv by blast

end

text \<open>The provider's own store, with the environment of libraries as the parameter.\<close>

definition good_store :: "'db store_lib \<times> ('db \<Rightarrow> bytes \<rightharpoonup> bytes) \<Rightarrow> 'db \<Rightarrow> bool" where
  "good_store e db \<longleftrightarrow> store_ok (fst e) (snd e) \<and> store_inv (fst e) (snd e) db"

lemma abs_store_update:
  "from_json S b = Some m \<Longrightarrow> view db' = (view db)(as_bytes (mf_node_id m) \<mapsto> b) \<Longrightarrow>
     abs_store S view db' = (abs_store S view db)(mf_node_id m \<mapsto> m)"
  by (auto simp: abs_store_def fun_eq_iff)

lemma upsert_abs:
  assumes "store_ok S view" and "upsert S m db = (r, db')"
  shows "abs_store S view db' = (abs_store S view db)(mf_node_id m \<mapsto> m)
    \<or> r \<noteq> Inr () \<and> abs_store S view db' = abs_store S view db"
proof -
  note V = upsert_view [OF assms]
  show ?thesis
  proof (cases "view db' = view db \<and> r \<noteq> Inr ()")
    case True
    then have "abs_store S view db' = abs_store S view db" by (simp add: abs_store_def fun_eq_iff)
    with True show ?thesis by simp
  next
    case False
    with V obtain b where "from_json S b = Some m"
      and "view db' = (view db)(as_bytes (mf_node_id m) \<mapsto> b)" by blast
    then have "abs_store S view db' = (abs_store S view db)(mf_node_id m \<mapsto> m)"
      by (rule abs_store_update)
    then show ?thesis by simp
  qed
qed

lemma upsert_inv:
  assumes "store_ok S view" and "store_inv S view db"
  shows "store_inv S view (snd (upsert S m db))"
proof -
  obtain r db' where u: "upsert S m db = (r, db')" by fastforce
  have old: "k = as_bytes (mf_node_id x)" if "view db k = Some v" and "from_json S v = Some x" for k v x
    using assms(2) that unfolding store_inv_def by blast
  from upsert_view [OF assms(1) u] have "k = as_bytes (mf_node_id x)"
    if "view db' k = Some v" and "from_json S v = Some x" for k v x
    using that old by (metis fun_upd_apply option.inject)
  then show ?thesis by (simp add: store_inv_def u)
qed

interpretation peers: directory
  good_store "\<lambda>e. abs_store (fst e) (snd e)" "\<lambda>e. upsert (fst e)" "\<lambda>e. peer_list (fst e)" mf_node_id
proof unfold_locales
  fix e :: "'db store_lib \<times> ('db \<Rightarrow> bytes \<rightharpoonup> bytes)" and db and m :: manifest and r db'
  assume "good_store e db"
  then have g: "store_ok (fst e) (snd e)" "store_inv (fst e) (snd e) db"
    by (simp_all add: good_store_def)
  show "upsert (fst e) m db = (r, db') \<Longrightarrow>
      abs_store (fst e) (snd e) db' = (abs_store (fst e) (snd e) db)(mf_node_id m \<mapsto> m)
      \<or> r \<noteq> Inr () \<and> abs_store (fst e) (snd e) db' = abs_store (fst e) (snd e) db"
    by (rule upsert_abs [OF g(1)])
  show "good_store e (snd (upsert (fst e) m db))"
    using upsert_inv [OF g] g(1) by (simp add: good_store_def)
  show "m \<in> set (peer_list (fst e) db) \<Longrightarrow> abs_store (fst e) (snd e) db (mf_node_id m) = Some m"
    by (rule peer_list_abs(1) [OF g])
  show "distinct (map mf_node_id (peer_list (fst e) db))"
    by (rule peer_list_abs(3) [OF g])
qed

section \<open>A store that satisfies the laws\<close>

text \<open>An association list, and a codec that knows two manifests.\<close>

definition demo_manifest :: "string \<Rightarrow> string list \<Rightarrow> manifest" where
  "demo_manifest n eps =
     \<lparr>mf_node_id = n, mf_endpoints = eps, mf_uptime_secs = 1, mf_latency_ms = 2, mf_requests_total = 3,
      mf_signed_at = 4, mf_version = ''0.6.2'', mf_signature = [], mf_seen_at = 0\<rparr>"

definition demo_store :: "(bytes \<times> bytes) list store_lib" where
  "demo_store =
     \<lparr>sled_insert = (\<lambda>db k v. (True, AList.update k v db)),
      sled_iter = (\<lambda>db. map Inr (AList.clearjunk db)),
      to_json = (\<lambda>m. if m = demo_manifest ''a'' [''x''] then Some [1]
                     else if m = demo_manifest ''b'' [''x'', ''y''] then Some [2] else None),
      from_json = (\<lambda>b. if b = [1] then Some (demo_manifest ''a'' [''x''])
                     else if b = [2] then Some (demo_manifest ''b'' [''x'', ''y'']) else None)\<rparr>"

lemma demo_store_entries: "read_entries demo_store db = AList.clearjunk db"
  by (simp add: read_entries_def demo_store_def List.map_filter_def comp_def)

lemma demo_store_ok [demo_laws]: "store_ok demo_store map_of"
proof -
  have "\<forall>db. distinct (map fst (read_entries demo_store db))
        \<and> (\<forall>k v. (k, v) \<in> set (read_entries demo_store db) \<longrightarrow> map_of db k = Some v)
        \<and> (\<forall>k v. reads_all demo_store db \<and> map_of db k = Some v \<longrightarrow> (k, v) \<in> set (read_entries demo_store db))"
  proof (intro allI conjI impI)
    fix db :: "(bytes \<times> bytes) list" and k v
    show d: "distinct (map fst (read_entries demo_store db))"
      unfolding demo_store_entries by (rule distinct_clearjunk)
    show "map_of db k = Some v" if "(k, v) \<in> set (read_entries demo_store db)"
      using map_of_is_SomeI [OF d that] by (simp add: demo_store_entries map_of_clearjunk)
    show "(k, v) \<in> set (read_entries demo_store db)" if "reads_all demo_store db \<and> map_of db k = Some v"
      using that by (auto simp: demo_store_entries map_of_clearjunk intro: map_of_SomeD)
  qed
  moreover have "\<forall>db k v ok db'. sled_insert demo_store db k v = (ok, db') \<longrightarrow>
      map_of db' = (map_of db)(k \<mapsto> v) \<or> \<not> ok \<and> map_of db' = map_of db"
    by (auto simp: demo_store_def update_conv')
  moreover have "\<forall>m b. to_json demo_store m = Some b \<longrightarrow> from_json demo_store b = Some m"
    by (auto simp: demo_store_def split: if_splits)
  ultimately show ?thesis unfolding store_ok_def by blast
qed

definition demo_db :: "(bytes \<times> bytes) list" where
  "demo_db = [(as_bytes ''a'', [1])]"

lemma demo_store_inv: "store_inv demo_store map_of demo_db"
  by (auto simp: store_inv_def demo_db_def demo_store_def demo_manifest_def)

section \<open>Properties\<close>

text \<open>C29: an accepted manifest replaces the one its node had and no other: the store, read as a map
  from node identifiers to manifests, is updated at one point, and what is listed afterwards is the
  new manifest and the old ones of the other nodes, each node once.\<close>

theorem upsert_refines_map:
  assumes "store_ok S view" and "store_inv S view db" and "upsert S m db = (Inr (), db')"
    and "reads_all S db" and "reads_all S db'"
  shows "abs_store S view db' = (abs_store S view db)(mf_node_id m \<mapsto> m)
    \<and> store_inv S view db'
    \<and> set (peer_list S db') = insert m {x \<in> set (peer_list S db). mf_node_id x \<noteq> mf_node_id m}
    \<and> distinct (map mf_node_id (peer_list S db'))"
proof -
  have abs: "abs_store S view db' = (abs_store S view db)(mf_node_id m \<mapsto> m)"
    using upsert_abs [OF assms(1,3)] by simp
  have inv: "store_inv S view db'" using upsert_inv [OF assms(1,2), of m] assms(3) by simp
  note listed = peer_list_abs [OF assms(1) assms(2)] peer_list_abs [OF assms(1) inv]
  have "x \<in> set (peer_list S db') \<longleftrightarrow> x = m \<or> x \<in> set (peer_list S db) \<and> mf_node_id x \<noteq> mf_node_id m" for x
    using listed(2,5) assms(4,5) abs by auto
  with abs inv listed(6) show ?thesis by blast
qed

lemma upsert_refines_map_witness:
  "set (peer_list demo_store (snd (upsert demo_store (demo_manifest ''b'' [''x'', ''y'']) demo_db)))
     = insert (demo_manifest ''b'' [''x'', ''y''])
        {x \<in> set (peer_list demo_store demo_db). mf_node_id x \<noteq> mf_node_id (demo_manifest ''b'' [''x'', ''y''])}"
proof -
  have "upsert demo_store (demo_manifest ''b'' [''x'', ''y'']) demo_db
      = (Inr (), AList.update (as_bytes ''b'') [2] demo_db)"
    by (simp add: upsert_def demo_store_def demo_manifest_def)
  from upsert_refines_map [OF demo_store_ok demo_store_inv this] this show ?thesis
    by (simp add: reads_all_def demo_store_def list_all_iff)
qed

text \<open>C30: the relay's candidates for a name are exactly the listed nodes that announce it, the
  fallback all listed nodes, each once, never the node itself.\<close>

theorem relay_candidates:
  assumes "store_ok S view" and "store_inv S view db"
  shows "(n \<in> set (providers_of S db target me)
      \<longleftrightarrow> n \<noteq> me \<and> (\<exists>m\<in>set (peer_list S db). mf_node_id m = n \<and> target \<in> set (mf_endpoints m)))
    \<and> (n \<in> set (others S db me) \<longleftrightarrow> n \<noteq> me \<and> (\<exists>m\<in>set (peer_list S db). mf_node_id m = n))
    \<and> distinct (providers_of S db target me) \<and> distinct (others S db me)"
proof -
  have d: "distinct (map mf_node_id (peer_list S db))" by (rule peer_list_abs(3) [OF assms])
  show ?thesis
    unfolding providers_of_def others_def using d
    by (auto simp: list_ex_iff distinct_map intro: inj_on_subset)
qed

lemma relay_candidates_witness:
  "distinct (providers_of demo_store demo_db ''x'' ''me'') \<and> ''a'' \<in> set (providers_of demo_store demo_db ''x'' ''me'')"
proof -
  note R = relay_candidates [OF demo_store_ok demo_store_inv, of "''a''" "''x''" "''me''"]
  have "peer_list demo_store demo_db = [demo_manifest ''a'' [''x'']]"
    by (simp add: peer_list_entries demo_store_entries List.map_filter_simps)
      (simp add: demo_db_def demo_store_def List.map_filter_simps)
  with R show ?thesis by (simp add: demo_manifest_def)
qed

text \<open>C31: the signed bytes of a manifest determine the fields they cover when node identifiers have no
  bar and names are not empty and have no comma; the version, the signature and the reception time are
  not covered. Without the condition on names they do not: a name with a comma and the two names it
  consists of give the same bytes, and so do an empty name and none.\<close>

theorem manifest_canonical_iff:
  assumes "CHR ''|'' \<notin> set (mf_node_id m)" and "CHR ''|'' \<notin> set (mf_node_id m')"
    and "list_all (\<lambda>e. e \<noteq> [] \<and> CHR '','' \<notin> set e) (mf_endpoints m)"
    and "list_all (\<lambda>e. e \<noteq> [] \<and> CHR '','' \<notin> set e) (mf_endpoints m')"
  shows "(canonical_bytes m = canonical_bytes m' \<longleftrightarrow>
      mf_node_id m = mf_node_id m' \<and> mf_endpoints m = mf_endpoints m' \<and>
      mf_uptime_secs m = mf_uptime_secs m' \<and> mf_latency_ms m = mf_latency_ms m' \<and>
      mf_requests_total m = mf_requests_total m' \<and> mf_signed_at m = mf_signed_at m')
    \<and> canonical_bytes (m\<lparr>mf_endpoints := as @ [a @ '','' @ b] @ bs\<rparr>) = canonical_bytes (m\<lparr>mf_endpoints := as @ [a, b] @ bs\<rparr>)
    \<and> canonical_bytes (m\<lparr>mf_endpoints := [[]]\<rparr>) = canonical_bytes (m\<lparr>mf_endpoints := []\<rparr>)"
proof -
  have bar: "of_char (CHR ''|'') \<notin> set (as_bytes (mf_node_id m))"
    "of_char (CHR ''|'') \<notin> set (as_bytes (mf_node_id m'))"
    using assms(1,2) by (simp_all only: in_set_as_bytes not_False_eq_True)
  have "canonical_bytes x = as_bytes (mf_node_id x) @ of_char (CHR ''|'') #
      (as_bytes (join '','' (mf_endpoints x)) @ signed_tail x)" for x
    by (simp add: canonical_bytes_def signed_tail_def)
  then have "canonical_bytes m = canonical_bytes m' \<longleftrightarrow> mf_node_id m = mf_node_id m' \<and>
      join '','' (mf_endpoints m) = join '','' (mf_endpoints m') \<and> signed_tail m = signed_tail m'"
    using append_sep_inject [OF bar] by (simp add: signed_tail_length append_eq_append_conv)
  then show ?thesis using join_inject [OF assms(3,4)] signed_tail_inject canonical_bytes_names by simp
qed

lemma manifest_canonical_iff_witness:
  "canonical_bytes (demo_manifest ''a'' [''x'']) \<noteq> canonical_bytes (demo_manifest ''b'' [''x'', ''y''])
    \<and> canonical_bytes ((demo_manifest ''a'' [''x''])\<lparr>mf_endpoints := [''u,v'']\<rparr>)
      = canonical_bytes ((demo_manifest ''a'' [''x''])\<lparr>mf_endpoints := [''u'', ''v'']\<rparr>)"
  using manifest_canonical_iff [of "demo_manifest ''a'' [''x'']" "demo_manifest ''b'' [''x'', ''y'']" "[]" "''u''" "''v''" "[]"]
  by (simp add: demo_manifest_def)

end
