(* ===== verification/Proxy_Engine.thy ===== *)
theory Proxy_Engine
  imports Protocol Json Config Peers
begin

text \<open>
  \<open>src/src/proxy_engine.rs\<close>: the table of endpoints, the HTTP request built from a packet, and the
  response with its signed \<open>pdata\<close> object. \<open>reqwest\<close>, \<open>serde_json\<close>, \<open>base64\<close> and Rust's Unicode
  \<open>to_uppercase\<close> are parameters; the answer of the local service is a function of the request.
\<close>

section \<open>The engine\<close>

record engine =
  by_name :: "(string, endpoint_cfg) mapping"
  default_name :: "string option"
  pe_node_id :: string
  signing :: bytes

datatype proxy_error = ClientBuild | NotServed string

text \<open>\<open>eps\<close> are the values of the configuration's endpoint map in its iteration order.\<close>

definition engine_names :: "endpoint_cfg list \<Rightarrow> (string, endpoint_cfg) mapping" where
  "engine_names eps = fold (\<lambda>ep m. Mapping.update (ep_name ep) ep m) eps Mapping.empty"

definition min_key :: "(string, 'v) mapping \<Rightarrow> string option" where
  "min_key m = (if Mapping.is_empty m then None else Some (Min (Mapping.keys m)))"

definition engine_new :: "bool \<Rightarrow> endpoint_cfg list \<Rightarrow> root \<Rightarrow> string \<Rightarrow> proxy_error + engine" where
  "engine_new client_ok eps rt node_id =
     (if \<not> client_ok then Inl ClientBuild
      else
        let m = engine_names eps
        in Inr \<lparr>by_name = m, default_name = min_key m, pe_node_id = node_id, signing = signing_key rt\<rparr>)"

definition iterates :: "config \<Rightarrow> endpoint_cfg list \<Rightarrow> bool" where
  "iterates cfg eps \<longleftrightarrow>
     (\<exists>ks. distinct ks \<and> set ks = Mapping.keys (endpoints cfg)
        \<and> map Some eps = map (Mapping.lookup (endpoints cfg)) ks)"

definition resolve :: "engine \<Rightarrow> string \<Rightarrow> endpoint_cfg option" where
  "resolve E target =
     (if target = [] then (case default_name E of None \<Rightarrow> None | Some n \<Rightarrow> Mapping.lookup (by_name E) n)
      else Mapping.lookup (by_name E) target)"

definition serves :: "engine \<Rightarrow> string \<Rightarrow> bool" where
  "serves E target \<longleftrightarrow> resolve E target \<noteq> None"

definition rate_for :: "engine \<Rightarrow> string \<Rightarrow> u32" where
  "rate_for E target = (case resolve E target of None \<Rightarrow> 0 | Some e \<Rightarrow> rate_limit_per_peer e)"

text \<open>\<open>names\<close> lists the keys in the order of the hash map, which is not determined.\<close>

definition is_names :: "engine \<Rightarrow> string list \<Rightarrow> bool" where
  "is_names E ns \<longleftrightarrow> distinct ns \<and> set ns = Mapping.keys (by_name E)"

definition protocols_for :: "engine \<Rightarrow> string \<Rightarrow> string list" where
  "protocols_for E name =
     (case resolve E name of
        None \<Rightarrow> []
      | Some ep \<Rightarrow> [''rpc''] @ (if local_ws_url ep \<noteq> None then [''ws''] else []))"

definition ws_url_for :: "engine \<Rightarrow> string \<Rightarrow> string \<Rightarrow> string option" where
  "ws_url_for E name sub_path =
     (case resolve E name of
        None \<Rightarrow> None
      | Some ep \<Rightarrow> (case local_ws_url ep of
                      None \<Rightarrow> None
                    | Some u \<Rightarrow> Some (trim_end_matches (CHR ''/'') u @ sub_path)))"

definition ws_msg_rate_for :: "engine \<Rightarrow> string \<Rightarrow> u32" where
  "ws_msg_rate_for E name = (case resolve E name of None \<Rightarrow> 30 | Some e \<Rightarrow> ws_rate_limit_per_peer e)"

text \<open>\<open>get url\<close> is whether the request was answered and how many nanoseconds it took.\<close>

definition health :: "engine \<Rightarrow> (string \<Rightarrow> bool \<times> nat) \<Rightarrow> string \<Rightarrow> bool \<times> u64" where
  "health E get name =
     (case Mapping.lookup (by_name E) name of
        None \<Rightarrow> (False, 0)
      | Some ep \<Rightarrow> (case get (local_url ep) of (ok, ns) \<Rightarrow> (ok, of_nat (ns div 10 ^ 6))))"

section \<open>The upstream request\<close>

record http_request =
  rq_method :: string
  rq_url :: string
  rq_headers :: "(string \<times> string) list"
  rq_body :: "bytes option"

datatype http_outcome = Response u16 "bytes option" | SendError string

text \<open>
  \<open>method_of\<close> is \<open>Method::from_bytes\<close>, \<open>header_name\<close> is \<open>HeaderName::from_bytes\<close> and
  \<open>header_value_ok\<close> says whether \<open>HeaderValue::from_str\<close> accepts a value.
\<close>

record http_lib =
  to_uppercase :: "string \<Rightarrow> string"
  method_of :: "string \<Rightarrow> string option"
  header_name :: "string \<Rightarrow> string option"
  header_value_ok :: "string \<Rightarrow> bool"

definition blocked_headers :: "string list" where
  "blocked_headers =
     [''host'', ''connection'', ''content-length'', ''transfer-encoding'', ''upgrade'',
      ''proxy-connection'', ''keep-alive'', ''origin'', ''referer'', ''user-agent'']"

definition is_forwardable :: "string \<Rightarrow> bool" where
  "is_forwardable name \<longleftrightarrow> to_ascii_lowercase name \<notin> set blocked_headers"

definition upstream_url :: "endpoint_cfg \<Rightarrow> string \<Rightarrow> string" where
  "upstream_url ep path = trim_end_matches (CHR ''/'') (local_url ep) @ path"

text \<open>The loop over the packet's headers, in the order of its \<open>BTreeMap\<close>; the flags are set before
  the validity check.\<close>

fun forward_headers ::
  "http_lib \<Rightarrow> (string \<times> string) list \<Rightarrow> bool \<times> bool \<times> (string \<times> string) list
     \<Rightarrow> bool \<times> bool \<times> (string \<times> string) list" where
  "forward_headers H [] acc = acc"
| "forward_headers H ((k, v) # hs) (has_ct, has_accept, out) =
     (if \<not> is_forwardable k then forward_headers H hs (has_ct, has_accept, out)
      else
        let lk = to_ascii_lowercase k;
            has_ct = (lk = ''content-type'' \<or> has_ct);
            has_accept = (lk = ''accept'' \<or> has_accept);
            out = (case header_name H k of
                     None \<Rightarrow> out
                   | Some hn \<Rightarrow> if header_value_ok H v then out @ [(hn, v)] else out)
        in forward_headers H hs (has_ct, has_accept, out))"

definition build_request :: "http_lib \<Rightarrow> endpoint_cfg \<Rightarrow> mesh_packet \<Rightarrow> http_request" where
  "build_request H ep pkt =
     (let url = upstream_url ep (req_path pkt);
          meth = (case method_of H (to_uppercase H (req_method pkt)) of None \<Rightarrow> ''GET'' | Some m \<Rightarrow> m)
      in (case forward_headers H (req_headers pkt) (False, False, []) of
            (has_ct, has_accept, hs) \<Rightarrow>
              (if req_body pkt = [] then \<lparr>rq_method = meth, rq_url = url, rq_headers = hs, rq_body = None\<rparr>
               else
                 let hs = (if has_ct then hs else hs @ [(''Content-Type'', ''application/json'')]);
                     hs = (if has_accept then hs else hs @ [(''Accept'', ''application/json'')])
                 in \<lparr>rq_method = meth, rq_url = url, rq_headers = hs, rq_body = Some (req_body pkt)\<rparr>)))"

section \<open>The signed response\<close>

text \<open>\<open>now_secs\<close>: 0 for a clock before the epoch.\<close>

definition now_secs :: "int \<Rightarrow> u64" where
  "now_secs ns = (if ns < 0 then 0 else of_int (ns div 10 ^ 9))"

definition canon_bytes :: "string \<Rightarrow> u16 \<Rightarrow> u64 \<Rightarrow> bytes \<Rightarrow> bytes" where
  "canon_bytes node_id status signed_at raw =
     as_bytes (node_id @ ''|'' @ show_nat (unat status) @ ''|'' @ show_nat (unat signed_at) @ ''|'') @ raw"

definition pdata_of ::
  "engine \<Rightarrow> crypto_lib \<Rightarrow> json_lib \<Rightarrow> string \<Rightarrow> u16 \<Rightarrow> bytes \<Rightarrow> bool \<Rightarrow> u64 \<Rightarrow> f64 json" where
  "pdata_of E L J name status raw relayed signed_at =
     obj_of
       [(''v'', JPos 1), (''node_id'', JStr (pe_node_id E)), (''name'', JStr name),
        (''status'', JPos (ucast status)), (''signed_at'', JPos signed_at), (''relayed'', JBool relayed),
        (''alg'', JStr ''ed25519''),
        (''sig'', JStr (sign_hex L (signing E) (canon_bytes (pe_node_id E) status signed_at raw))),
        (''body_b64'', JStr (b64_encode J raw))]"

definition finalize ::
  "engine \<Rightarrow> crypto_lib \<Rightarrow> json_lib \<Rightarrow> int \<Rightarrow> string \<Rightarrow> u16 \<Rightarrow> bytes \<Rightarrow> bool \<Rightarrow> bytes" where
  "finalize E L J clock name status raw relayed =
     (let pdata = pdata_of E L J name status raw relayed (now_secs clock);
          printed = (\<lambda>v. case json_print J v of None \<Rightarrow> raw | Some b \<Rightarrow> b)
      in (case json_read J raw of
            Some (JObj m) \<Rightarrow> printed (JObj (map_insert ''pdata'' pdata m))
          | _ \<Rightarrow> printed (obj_of [(''pdata'', pdata)])))"

definition error_body :: "json_lib \<Rightarrow> string \<Rightarrow> string \<Rightarrow> bytes" where
  "error_body J err detail =
     (case json_print J (obj_of [(''error'', JStr err), (''detail'', JStr detail)]) of
        None \<Rightarrow> [] | Some b \<Rightarrow> b)"

definition upstream_answer :: "json_lib \<Rightarrow> http_outcome \<Rightarrow> u16 \<times> bytes" where
  "upstream_answer J res =
     (case res of
        Response status body \<Rightarrow> (status, (case body of None \<Rightarrow> [] | Some b \<Rightarrow> b))
      | SendError e \<Rightarrow> (502, error_body J ''upstream_unreachable'' e))"

definition execute ::
  "engine \<Rightarrow> crypto_lib \<Rightarrow> json_lib \<Rightarrow> http_lib \<Rightarrow> (http_request \<Rightarrow> http_outcome) \<Rightarrow> int
     \<Rightarrow> mesh_packet \<Rightarrow> bool \<Rightarrow> proxy_error + bytes" where
  "execute E L J H http clock pkt relayed =
     (case resolve E (target_provider pkt) of
        None \<Rightarrow> Inl (NotServed (target_provider pkt))
      | Some ep \<Rightarrow>
          (case upstream_answer J (http (build_request H ep pkt)) of
             (status, raw) \<Rightarrow> Inr (finalize E L J clock (ep_name ep) status raw relayed)))"

text \<open>The detail is the Russian text of the source, in UTF-8.\<close>

definition rate_limited_detail :: string where
  "rate_limited_detail = of_bytes
     [208, 191, 209, 128, 208, 181, 208, 178, 209, 139, 209, 136, 208, 181, 208, 189, 32, 208,
     187, 208, 184, 208, 188, 208, 184, 209, 130, 32, 208, 183, 208, 176, 208, 191, 209, 128,
     208, 190, 209, 129, 208, 190, 208, 178, 32, 208, 189, 208, 176, 32, 209, 141, 209, 130,
     208, 190, 209, 130, 32, 80, 101, 101, 114, 73, 68]"

definition reject_body :: "engine \<Rightarrow> crypto_lib \<Rightarrow> json_lib \<Rightarrow> int \<Rightarrow> mesh_packet \<Rightarrow> bytes" where
  "reject_body E L J clock pkt =
     finalize E L J clock (target_provider pkt) 429
       (error_body J ''rate_limited'' rate_limited_detail) False"

section \<open>The libraries' laws\<close>

text \<open>A header name is normalised to lower case; a digit-only name prints as itself in every case.\<close>

definition http_ok :: "http_lib \<Rightarrow> bool" where
  "http_ok H \<longleftrightarrow> (\<forall>k hn. header_name H k = Some hn \<longrightarrow> hn = to_ascii_lowercase k)"

definition demo_http :: http_lib where
  "demo_http = \<lparr>to_uppercase = id, method_of = Some, header_name = (\<lambda>k. Some (to_ascii_lowercase k)),
     header_value_ok = list_all (\<lambda>c. 32 \<le> (of_char c :: nat) \<and> (of_char c :: nat) \<le> 126)\<rparr>"

lemma demo_http_ok [demo_laws]: "http_ok demo_http"
  by (simp add: http_ok_def demo_http_def)

definition demo_json :: json_lib where
  "demo_json = \<lparr>json_read = demo_read, json_print = demo_print, float_reread = id,
     b64_encode = demo_hex, b64_decode = demo_unhex\<rparr>"

lemma demo_json_ok [demo_laws]: "json_ok demo_json"
proof -
  have "demo_read b = Some v \<Longrightarrow> json_wf v \<and> json_depth v < 128" for b v
    by (auto simp: demo_read_def Let_def split: if_splits)
  moreover have "list_all printable (demo_hex b)" for b
    using demo_hex_digits [of b] hex_digit_props by (auto simp: list_all_iff)
  ultimately show ?thesis
    by (simp add: json_ok_def demo_json_def demo_read_print demo_unhex_hex demo_print_def json.map_id)
qed

section \<open>The canonical bytes\<close>

lemma canon_bytes_inject:
  assumes "CHR ''|'' \<notin> set n" and "CHR ''|'' \<notin> set n'"
  shows "canon_bytes n st t raw = canon_bytes n' st' t' raw' \<longleftrightarrow> n = n' \<and> st = st' \<and> t = t' \<and> raw = raw'"
proof -
  have form: "canon_bytes x a b r = as_bytes x @ of_char (CHR ''|'') # as_bytes (show_nat (unat a)) @
      of_char (CHR ''|'') # as_bytes (show_nat (unat b)) @ of_char (CHR ''|'') # r" for x a b r
    by (simp add: canon_bytes_def)
  have bar: "of_char (CHR ''|'') \<notin> set (as_bytes n)" "of_char (CHR ''|'') \<notin> set (as_bytes n')"
    using assms by (simp_all only: in_set_as_bytes not_False_eq_True)
  have num: "of_char (CHR ''|'') \<notin> set (as_bytes (show_nat k))" for k
    by (simp only: in_set_as_bytes show_nat_no_bar not_False_eq_True)
  show ?thesis
    unfolding form append_sep_inject [OF bar] append_sep_inject [OF num num]
    by (simp add: word_unat_eq_iff)
qed

section \<open>The embedded \<open>pdata\<close>\<close>

text \<open>The fields a client reads.\<close>

definition json_field :: "string \<Rightarrow> 'f json \<Rightarrow> 'f json option" where
  "json_field k v = (case v of JObj m \<Rightarrow> map_of m k | _ \<Rightarrow> None)"

lemma json_field_obj_of:
  "json_field k (obj_of kvs) = map_of (rev kvs) k"
proof -
  have "map_of (fold (\<lambda>(k, v) m. map_insert k v m) kvs m0) k = (map_of m0 ++ map_of (rev kvs)) k" for m0
    by (induction kvs arbitrary: m0) (auto simp: map_of_map_insert map_add_def split: option.splits)
  from this [of "[]"] show ?thesis by (simp add: obj_of_def json_field_def)
qed

lemma json_field_map: "json_field k (map_json g v) = map_option (map_json g) (json_field k v)"
proof (cases v)
  case (JObj m)
  have "map_of (map (map_prod id (map_json g)) m) k = map_option (map_json g) (map_of m k)"
    by (induction m) auto
  with JObj show ?thesis by (simp add: json_field_def)
qed (simp_all add: json_field_def)

lemma json_obj_of:
  assumes "\<forall>kv\<in>set kvs. str_ok (fst kv) \<and> json_wf (snd kv) \<and> json_depth (snd kv) < 127"
  shows "json_wf (obj_of kvs)" and "json_depth (obj_of kvs) < 128"
proof -
  have "json_wf (JObj (fold (\<lambda>(k, v) m. map_insert k v m) kvs m0))
      \<and> json_depth (JObj (fold (\<lambda>(k, v) m. map_insert k v m) kvs m0)) < 128"
    if "json_wf (JObj m0)" and "json_depth (JObj m0) < 128" for m0
    using assms that
  proof (induction kvs arbitrary: m0)
    case (Cons kv kvs)
    obtain k v where kv: "kv = (k, v)" by fastforce
    have "json_wf (JObj (map_insert k v m0))" and "json_depth (JObj (map_insert k v m0)) < 128"
      using json_insert [of m0 k v] Cons.prems kv by simp_all
    with Cons kv show ?case by simp
  qed simp
  from this [of "[]"] show "json_wf (obj_of kvs)" and "json_depth (obj_of kvs) < 128"
    by (simp_all add: obj_of_def json_wf_obj json_depth.simps)
qed

lemma json_field_insert: "json_field k (JObj (map_insert k' v m)) = (if k = k' then Some v else map_of m k)"
  by (simp add: json_field_def map_of_map_insert)

text \<open>
  The checks a client makes, following the description of \<open>pdata\<close> at the head of the source file:
  the object is there, names the node that was asked, and its signature covers the status, the
  time and the original body.
\<close>

fun as_str :: "'f json option \<Rightarrow> string option" where
  "as_str (Some (JStr s)) = Some s"
| "as_str _ = None"

fun as_u64 :: "'f json option \<Rightarrow> u64 option" where
  "as_u64 (Some (JPos n)) = Some n"
| "as_u64 _ = None"

definition pdata_fields ::
  "f64 json \<Rightarrow> string option \<times> u64 option \<times> u64 option \<times> string option \<times> string option" where
  "pdata_fields p = (as_str (json_field ''node_id'' p), as_u64 (json_field ''status'' p),
     as_u64 (json_field ''signed_at'' p), as_str (json_field ''sig'' p), as_str (json_field ''body_b64'' p))"

definition client_read ::
  "crypto_lib \<Rightarrow> json_lib \<Rightarrow> string \<Rightarrow> bytes \<Rightarrow> (u16 \<times> u64 \<times> bytes) option" where
  "client_read L J node_id out =
     (case json_read J out of
        None \<Rightarrow> None
      | Some v \<Rightarrow>
          (case json_field ''pdata'' v of
             None \<Rightarrow> None
           | Some p \<Rightarrow>
               (case pdata_fields p of
                  (Some n, Some st, Some t, Some sg, Some b) \<Rightarrow>
                    (case b64_decode J b of
                       None \<Rightarrow> None
                     | Some raw \<Rightarrow>
                         if n = node_id \<and> unat st < 2 ^ 16
                            \<and> verify_hex L node_id (canon_bytes node_id (ucast st) t raw) sg
                         then Some (ucast st, t, raw) else None)
                | _ \<Rightarrow> None)))"

lemma pdata_of_fields:
  "pdata_fields (map_json g (pdata_of E L J name status raw relayed t)) =
     (Some (pe_node_id E), Some (ucast status), Some t,
      Some (sign_hex L (signing E) (canon_bytes (pe_node_id E) status t raw)), Some (b64_encode J raw))"
  unfolding pdata_fields_def json_field_map pdata_of_def json_field_obj_of by simp

lemma empty_obj [simp]: "json_wf (JObj [])" "json_depth (JObj []) < 128"
  by (simp_all add: json_wf_obj json_depth.simps)

lemma status_ucast:
  fixes st :: u16
  shows "unat (ucast st :: u64) < 2 ^ 16" and "ucast (ucast st :: u64) = st"
proof -
  have "unat (ucast st :: u64) = unat st"
    unfolding unsigned_ucast_eq by (rule take_bit_nat_eq_self) (use unat_bound [of st] in simp)
  then show "unat (ucast st :: u64) < 2 ^ 16" and "ucast (ucast st :: u64) = st"
    using unat_bound [of st]
    by (simp_all add: word_unat_eq_iff unsigned_ucast_eq [where 'b = 64] take_bit_nat_eq_self)
qed

text \<open>The object the service sent, or none.\<close>

definition service_fields :: "json_lib \<Rightarrow> bytes \<Rightarrow> (string \<times> f64 json) list" where
  "service_fields J raw = (case json_read J raw of Some (JObj m) \<Rightarrow> m | _ \<Rightarrow> [])"

text \<open>What is printed is that object with the \<open>pdata\<close> just made, whatever the upstream sent.\<close>

lemma finalize_value:
  assumes "json_ok J" and wf: "json_wf (pdata_of E L J name status raw relayed (now_secs clock))"
    and depth: "json_depth (pdata_of E L J name status raw relayed (now_secs clock)) < 127"
  shows "json_read J (finalize E L J clock name status raw relayed)
    = Some (map_json (float_reread J)
        (JObj (map_insert ''pdata'' (pdata_of E L J name status raw relayed (now_secs clock)) (service_fields J raw))))"
proof -
  define p where "p = pdata_of E L J name status raw relayed (now_secs clock)"
  define m where "m = service_fields J raw"
  define out where "out = finalize E L J clock name status raw relayed"
  have m: "json_wf (JObj m)" "json_depth (JObj m) < 128"
    using json_read_wf [OF assms(1), of raw] json_read_depth [OF assms(1), of raw]
    by (simp_all add: m_def service_fields_def split: option.split json.split)
  have "str_ok ''pdata''" by (rule str_ok_printable) (simp add: printable_def)
  note ins = json_insert [OF m(1) this wf [folded p_def] m(2) depth [folded p_def]]
  obtain b where b: "json_print J (JObj (map_insert ''pdata'' p m)) = Some b"
    "json_read J b = Some (map_json (float_reread J) (JObj (map_insert ''pdata'' p m)))"
    using json_print_read [OF assms(1) ins] by blast
  have "out = (case json_print J (JObj (map_insert ''pdata'' p m)) of None \<Rightarrow> raw | Some b \<Rightarrow> b)"
    unfolding out_def finalize_def Let_def p_def m_def obj_of_def service_fields_def
    by (cases "json_read J raw") (simp_all split: json.split)
  with b show ?thesis unfolding out_def [symmetric] p_def [symmetric] m_def [symmetric] by simp
qed

lemma pdata_of_wf:
  assumes "crypto_ok L" and "json_ok J" and "pe_node_id E = node_id_of L rt" and "str_ok name"
  shows "json_wf (pdata_of E L J name status raw relayed t)"
    and "json_depth (pdata_of E L J name status raw relayed t) < 127"
proof -
  have s: "str_ok (pe_node_id E)" "str_ok (sign_hex L sk msg)" "str_ok (b64_encode J raw)" for sk msg
    using assms(1-3) by (simp_all add: str_ok_printable node_id_printable sign_hex_printable b64_printable)
  have keys: "str_ok ''v''" "str_ok ''node_id''" "str_ok ''name''" "str_ok ''status''" "str_ok ''signed_at''"
    "str_ok ''relayed''" "str_ok ''alg''" "str_ok ''sig''" "str_ok ''body_b64''" "str_ok ''ed25519''"
    by (rule str_ok_printable, simp add: printable_def)+
  show "json_wf (pdata_of E L J name status raw relayed t)"
    unfolding pdata_of_def by (rule json_obj_of(1)) (simp add: s keys assms(4))
  have "json_depth (pdata_of E L J name status raw relayed t) \<le> Suc 0"
    unfolding pdata_of_def obj_of_def by (simp add: json_depth.simps)
  then show "json_depth (pdata_of E L J name status raw relayed t) < 127" by simp
qed

text \<open>The client's check succeeds on what is made here.\<close>

lemma client_read_finalize:
  assumes "crypto_ok L" and "json_ok J" and "root_from_mnemonic L mnemonic = Inr rt"
    and "pe_node_id E = node_id_of L rt" and "signing E = signing_key rt" and "str_ok name"
  shows "client_read L J (node_id_of L rt) (finalize E L J clock name status raw relayed)
    = Some (status, now_secs clock, raw)"
proof -
  note small = status_ucast(1) [of status] and narrow = status_ucast(2) [of status]
  have v: "json_read J (finalize E L J clock name status raw relayed) = Some (map_json (float_reread J)
      (JObj (map_insert ''pdata'' (pdata_of E L J name status raw relayed (now_secs clock)) (service_fields J raw))))"
    by (rule finalize_value [OF assms(2) pdata_of_wf [OF assms(1,2,4,6)]])
  show ?thesis
    using sign_hex_verifies [OF assms(1) root_length [OF assms(1,3)]] small narrow
    unfolding client_read_def v option.case json_field_map json_field_insert
    by (simp add: pdata_of_fields b64_roundtrip [OF assms(2)] assms(4,5))
qed

section \<open>Properties\<close>

text \<open>C9: what the engine answers is end-to-end verifiable: a client that knows only the node's
  identifier recovers from the response the status, the time and exactly the bytes the local service
  sent, and its signature check succeeds, whatever these bytes are and whatever \<open>pdata\<close> field they
  contain.\<close>

theorem response_verifies:
  assumes "crypto_ok L" and "json_ok J" and "root_from_mnemonic L mnemonic = Inr rt"
    and "pe_node_id E = node_id_of L rt" and "signing E = signing_key rt" and "str_ok name"
  shows "client_read L J (node_id_of L rt) (finalize E L J clock name status raw relayed)
    = Some (status, now_secs clock, raw)"
  using assms by (rule client_read_finalize)

definition demo_engine :: engine where
  "demo_engine = \<lparr>by_name = Mapping.empty, default_name = None,
     pe_node_id = node_id_of demo_crypto (replicate 32 7), signing = signing_key (replicate 32 7)\<rparr>"

lemma response_verifies_witness:
  "client_read demo_crypto demo_json (node_id_of demo_crypto (replicate 32 7))
     (finalize demo_engine demo_crypto demo_json (5 * 10 ^ 9) ''x'' 200 [123, 125] False)
   = Some (200, now_secs (5 * 10 ^ 9), [123, 125])"
  by (rule response_verifies [OF demo_crypto_ok demo_json_ok, where mnemonic = "''demo''"])
    (simp_all add: root_from_mnemonic_def demo_crypto_def demo_engine_def)

text \<open>C33: What is answered is always a well-formed JSON object: every field of the service's own object is
  kept, apart from a \<open>pdata\<close> of its own, and the field \<open>pdata\<close> is the one made here. Numbers with a
  fraction are what the JSON library reads back after printing them.\<close>

theorem response_shape:
  assumes "crypto_ok L" and "json_ok J" and "pe_node_id E = node_id_of L rt" and "str_ok name"
  shows "\<exists>m. json_read J (finalize E L J clock name status raw relayed) = Some (JObj m) \<and> json_wf (JObj m)
    \<and> map_of m k =
      (if k = ''pdata''
       then Some (map_json (float_reread J) (pdata_of E L J name status raw relayed (now_secs clock)))
       else map_option (map_json (float_reread J)) (map_of (service_fields J raw) k))"
proof -
  define p where "p = pdata_of E L J name status raw relayed (now_secs clock)"
  define v where "v = map_json (float_reread J) (JObj (map_insert ''pdata'' p (service_fields J raw)))"
  have read: "json_read J (finalize E L J clock name status raw relayed) = Some v"
    unfolding v_def p_def by (rule finalize_value [OF assms(2) pdata_of_wf [OF assms]])
  obtain m where m: "v = JObj m" by (simp add: v_def)
  have "json_wf v" using json_read_wf [OF assms(2) read] .
  moreover have "json_field k v = map_of m k" by (simp add: m json_field_def)
  moreover have "json_field k v = map_option (map_json (float_reread J)) (json_field k (JObj (map_insert ''pdata'' p (service_fields J raw))))"
    unfolding v_def by (rule json_field_map)
  ultimately show ?thesis
    unfolding read json_field_insert p_def [symmetric] by (auto simp: m)
qed

lemma response_shape_witness:
  "\<exists>m. json_read demo_json (finalize demo_engine demo_crypto demo_json 5 ''x'' 200 [123, 125] False) = Some (JObj m)
    \<and> json_wf (JObj m)
    \<and> map_of m ''data'' = (if ''data'' = ''pdata''
       then Some (map_json (float_reread demo_json) (pdata_of demo_engine demo_crypto demo_json ''x'' 200 [123, 125] False (now_secs 5)))
       else map_option (map_json (float_reread demo_json)) (map_of (service_fields demo_json [123, 125]) ''data''))"
  by (rule response_shape [OF demo_crypto_ok demo_json_ok, where rt = "replicate 32 7"])
    (simp_all add: demo_engine_def)

text \<open>C32: the signed bytes determine what is signed: two responses of nodes with the same canonical
  bytes agree on the node, the status, the time and the body.\<close>

theorem canon_bytes_iff:
  assumes "crypto_ok L"
  shows "canon_bytes (node_id_of L rt) st t raw = canon_bytes (node_id_of L rt') st' t' raw'
    \<longleftrightarrow> node_id_of L rt = node_id_of L rt' \<and> st = st' \<and> t = t' \<and> raw = raw'"
  by (rule canon_bytes_inject [OF node_id_no_bar [OF assms] node_id_no_bar [OF assms]])

lemma canon_bytes_iff_witness:
  "canon_bytes (node_id_of demo_crypto (replicate 32 7)) 200 1 [49] = canon_bytes (node_id_of demo_crypto (replicate 32 7)) 200 11 []
    \<longleftrightarrow> False"
  by (subst canon_bytes_iff [OF demo_crypto_ok]) simp

section \<open>What reaches the local service\<close>

definition forwarded :: "http_lib \<Rightarrow> string \<times> string \<Rightarrow> (string \<times> string) option" where
  "forwarded H kv =
     (if \<not> is_forwardable (fst kv) then None
      else (case header_name H (fst kv) of
              None \<Rightarrow> None | Some hn \<Rightarrow> if header_value_ok H (snd kv) then Some (hn, snd kv) else None))"

definition names_header :: "string \<Rightarrow> (string \<times> string) list \<Rightarrow> bool" where
  "names_header n hs \<longleftrightarrow> list_ex (\<lambda>kv. to_ascii_lowercase (fst kv) = n) hs"

lemma always_forwardable:
  "to_ascii_lowercase k = ''content-type'' \<Longrightarrow> is_forwardable k"
  "to_ascii_lowercase k = ''accept'' \<Longrightarrow> is_forwardable k"
  by (simp_all add: is_forwardable_def blocked_headers_def)

lemma forward_headers_eq:
  "forward_headers H hs (ct, ac, out) =
     (ct \<or> names_header ''content-type'' hs, ac \<or> names_header ''accept'' hs,
      out @ List.map_filter (forwarded H) hs)"
proof (induction hs arbitrary: ct ac out)
  case (Cons kv hs)
  obtain k v where kv: "kv = (k, v)" by fastforce
  have f: "forwarded H (k, v) = (if \<not> is_forwardable k then None
      else case header_name H k of None \<Rightarrow> None | Some hn \<Rightarrow> if header_value_ok H v then Some (hn, v) else None)"
    by (simp only: forwarded_def fst_conv snd_conv)
  show ?case
  proof (cases "is_forwardable k")
    case True
    then show ?thesis
      unfolding kv forward_headers.simps Let_def Cons.IH List.map_filter_simps f
      by (auto simp: names_header_def split: option.split)
  next
    case False
    with always_forwardable [of k] Cons.IH show ?thesis
      by (auto simp: kv names_header_def f List.map_filter_simps)
  qed
qed (simp add: names_header_def List.map_filter_simps)

lemma build_request_headers:
  "rq_headers (build_request H ep pkt) = List.map_filter (forwarded H) (req_headers pkt) @
     (if req_body pkt \<noteq> [] \<and> \<not> names_header ''content-type'' (req_headers pkt)
      then [(''Content-Type'', ''application/json'')] else []) @
     (if req_body pkt \<noteq> [] \<and> \<not> names_header ''accept'' (req_headers pkt)
      then [(''Accept'', ''application/json'')] else [])"
  and build_request_url: "rq_url (build_request H ep pkt) = upstream_url ep (req_path pkt)"
  and build_request_body: "rq_body (build_request H ep pkt) = (if req_body pkt = [] then None else Some (req_body pkt))"
  by (simp_all add: build_request_def forward_headers_eq Let_def)

lemma lower_defaults:
  "to_ascii_lowercase ''Content-Type'' = ''content-type''" "to_ascii_lowercase ''content-type'' = ''content-type''"
  "to_ascii_lowercase ''Accept'' = ''accept''"
  by code_simp+

lemma in_forwarded:
  "(n, v) \<in> set (List.map_filter (forwarded H) hs) \<longleftrightarrow>
    (\<exists>k. (k, v) \<in> set hs \<and> is_forwardable k \<and> header_name H k = Some n \<and> header_value_ok H v)"
  by (force simp: set_map_filter forwarded_def split: option.splits if_splits)

text \<open>C21: of the packet's headers only valid ones reach the local service, under their lower-case
  name, and none of the ten that frame the message, name the host or tell where the client comes from;
  the only additions are the two defaults.\<close>

theorem no_blocked_header:
  assumes "http_ok H" and "(n, v) \<in> set (rq_headers (build_request H ep pkt))"
  shows "to_ascii_lowercase n \<notin> set [''host'', ''connection'', ''content-length'', ''transfer-encoding'',
      ''upgrade'', ''proxy-connection'', ''keep-alive'', ''origin'', ''referer'', ''user-agent''] \<and>
    ((n, v) \<in> {(''Content-Type'', ''application/json''), (''Accept'', ''application/json'')} \<or>
     (\<exists>k. (k, v) \<in> set (req_headers pkt) \<and> n = to_ascii_lowercase k \<and> header_value_ok H v))"
proof (cases "(n, v) \<in> set (List.map_filter (forwarded H) (req_headers pkt))")
  case True
  then obtain k where "(k, v) \<in> set (req_headers pkt)" "is_forwardable k" "header_name H k = Some n"
    "header_value_ok H v" unfolding in_forwarded by blast
  moreover from this(3) assms(1) have "n = to_ascii_lowercase k" unfolding http_ok_def by blast
  ultimately show ?thesis by (auto simp: is_forwardable_def blocked_headers_def)
next
  case False
  with assms(2) have "(n, v) \<in> {(''Content-Type'', ''application/json''), (''Accept'', ''application/json'')}"
    by (auto simp: build_request_headers split: if_splits)
  then show ?thesis by (auto simp: lower_defaults)
qed

text \<open>Not all hop-by-hop headers are among the ten: these are passed on.\<close>

lemma hop_by_hop_forwarded:
  "is_forwardable ''TE'' \<and> is_forwardable ''Trailer'' \<and> is_forwardable ''Proxy-Authorization''"
  by code_simp

definition demo_packet :: "string \<Rightarrow> (string \<times> string) list \<Rightarrow> bytes \<Rightarrow> mesh_packet" where
  "demo_packet path hs bod =
     \<lparr>target_provider = ''x'', req_method = ''POST'', req_path = path, req_body = bod, req_headers = hs,
      ttl = 5, request_id = ''r''\<rparr>"

definition demo_endpoint :: "string \<Rightarrow> string \<Rightarrow> endpoint_cfg" where
  "demo_endpoint n u =
     \<lparr>ep_protocol = ''api'', ep_name = n, local_url = u, rate_limit_per_peer = 5, local_ws_url = None,
      ws_rate_limit_per_peer = 30\<rparr>"

lemma no_blocked_header_witness:
  "(''x-id'', ''1'') \<in> set (rq_headers (build_request demo_http (demo_endpoint ''x'' ''http://l'')
      (demo_packet ''/'' [(''Host'', ''h''), (''X-Id'', ''1'')] [123])))
    \<and> to_ascii_lowercase ''x-id'' \<notin> set [''host'', ''connection'', ''content-length'', ''transfer-encoding'',
      ''upgrade'', ''proxy-connection'', ''keep-alive'', ''origin'', ''referer'', ''user-agent'']"
proof -
  have "(''x-id'', ''1'') \<in> set (rq_headers (build_request demo_http (demo_endpoint ''x'' ''http://l'')
      (demo_packet ''/'' [(''Host'', ''h''), (''X-Id'', ''1'')] [123])))"
    by code_simp
  from no_blocked_header [OF demo_http_ok this] this show ?thesis by blast
qed

text \<open>A body travels unchanged, and with it a content type, given by the client or
  \<open>application/json\<close>, when the client's own content type, if any, is valid; without a body there is no
  body and no default header.\<close>

theorem body_has_content_type:
  assumes "\<And>k v. (k, v) \<in> set (req_headers pkt) \<Longrightarrow> to_ascii_lowercase k = ''content-type'' \<Longrightarrow>
      header_value_ok H v \<and> header_name H k = Some ''content-type''"
  shows "if req_body pkt = [] then rq_body (build_request H ep pkt) = None
      \<and> rq_headers (build_request H ep pkt) = List.map_filter (forwarded H) (req_headers pkt)
    else rq_body (build_request H ep pkt) = Some (req_body pkt)
      \<and> names_header ''content-type'' (rq_headers (build_request H ep pkt))"
proof (cases "names_header ''content-type'' (req_headers pkt)")
  case True
  then obtain k v where kv: "(k, v) \<in> set (req_headers pkt)" "to_ascii_lowercase k = ''content-type''"
    by (auto simp: names_header_def list_ex_iff)
  then have "(''content-type'', v) \<in> set (List.map_filter (forwarded H) (req_headers pkt))"
    unfolding in_forwarded using assms always_forwardable(1) by blast
  then have "names_header ''content-type'' (List.map_filter (forwarded H) (req_headers pkt))"
    by (force simp: names_header_def list_ex_iff lower_defaults)
  then show ?thesis by (auto simp: build_request_headers build_request_body names_header_def)
next
  case False
  then show ?thesis
    by (auto simp: build_request_headers build_request_body names_header_def lower_defaults)
qed

lemma body_has_content_type_witness:
  "names_header ''content-type''
     (rq_headers (build_request demo_http (demo_endpoint ''x'' ''http://l'') (demo_packet ''/'' [(''A'', ''b'')] [123])))"
proof -
  have "if req_body (demo_packet ''/'' [(''A'', ''b'')] [123]) = []
    then rq_body (build_request demo_http (demo_endpoint ''x'' ''http://l'') (demo_packet ''/'' [(''A'', ''b'')] [123])) = None
      \<and> rq_headers (build_request demo_http (demo_endpoint ''x'' ''http://l'') (demo_packet ''/'' [(''A'', ''b'')] [123]))
        = List.map_filter (forwarded demo_http) (req_headers (demo_packet ''/'' [(''A'', ''b'')] [123]))
    else rq_body (build_request demo_http (demo_endpoint ''x'' ''http://l'') (demo_packet ''/'' [(''A'', ''b'')] [123]))
        = Some (req_body (demo_packet ''/'' [(''A'', ''b'')] [123]))
      \<and> names_header ''content-type''
        (rq_headers (build_request demo_http (demo_endpoint ''x'' ''http://l'') (demo_packet ''/'' [(''A'', ''b'')] [123])))"
    by (rule body_has_content_type)
      (auto simp: demo_packet_def to_ascii_lowercase_def ascii_lower_def)
  then show ?thesis by (simp add: demo_packet_def)
qed

text \<open>An invalid content type is dropped after it has switched the default off, so a body can
  travel without any.\<close>

theorem dropped_content_type:
  "rq_headers (build_request demo_http (demo_endpoint ''x'' ''http://l'')
     (demo_packet ''/'' [(''Accept'', ''a''), (''Content-Type'', [CHR 0x0A])] [123])) = [(''accept'', ''a'')]"
  by code_simp

section \<open>The upstream's address\<close>

text \<open>The authority of a URL (user, host and port), as URL parsers delimit it.\<close>

definition url_delim :: "char \<Rightarrow> bool" where
  "url_delim c \<longleftrightarrow> c \<in> set ''/?#'' \<or> c = CHR 0x5C"

fun after_slashes :: "string \<Rightarrow> string" where
  "after_slashes (a # b # r) = (if a = CHR ''/'' \<and> b = CHR ''/'' then r else after_slashes (b # r))"
| "after_slashes _ = []"

definition url_authority :: "string \<Rightarrow> string" where
  "url_authority u = takeWhile (\<lambda>c. \<not> url_delim c) (after_slashes u)"

definition url_host :: "string \<Rightarrow> string" where
  "url_host u =
     takeWhile (\<lambda>c. c \<noteq> CHR '':'')
       (rev (takeWhile (\<lambda>c. c \<noteq> CHR ''@'') (rev (url_authority u))))"

lemma after_slashes_base: "CHR ''/'' \<notin> set sch \<Longrightarrow> after_slashes (sch @ ''//'' @ r) = r"
proof (induction sch)
  case (Cons a sch)
  then show ?case by (cases sch) auto
qed simp

text \<open>C24: a packet cannot choose where its request goes: the authority of the URL is the one of the
  configured service, provided that the path starts like one or that the configured URL has a path.\<close>

theorem upstream_authority:
  assumes "trim_end_matches (CHR ''/'') (local_url ep) = sch @ ''//'' @ r" and "CHR ''/'' \<notin> set sch"
    and "path = [] \<or> url_delim (hd path) \<or> list_ex url_delim r"
  shows "url_authority (rq_url (build_request H ep (pkt\<lparr>req_path := path\<rparr>)))
    = url_authority (trim_end_matches (CHR ''/'') (local_url ep))"
proof -
  have "takeWhile (\<lambda>c. \<not> url_delim c) (r @ path) = takeWhile (\<lambda>c. \<not> url_delim c) r"
  proof (cases "list_ex url_delim r")
    case True
    then show ?thesis by (auto simp: list_ex_iff takeWhile_append)
  next
    case False
    then have r: "\<forall>x\<in>set r. \<not> url_delim x" by (simp add: list_ex_iff)
    have "takeWhile (\<lambda>c. \<not> url_delim c) r = r" unfolding takeWhile_eq_all_conv using r by blast
    moreover have "takeWhile (\<lambda>c. \<not> url_delim c) (r @ path) = r @ takeWhile (\<lambda>c. \<not> url_delim c) path"
      using r by (simp add: takeWhile_append2)
    moreover have "takeWhile (\<lambda>c. \<not> url_delim c) path = []"
      using False assms(3) by (cases path) auto
    ultimately show ?thesis by (simp only: append_Nil2)
  qed
  then show ?thesis
    unfolding build_request_url upstream_url_def url_authority_def assms(1)
    using after_slashes_base [OF assms(2), of "r @ path"] after_slashes_base [OF assms(2), of r] by simp
qed

lemma upstream_authority_witness:
  "url_authority (rq_url (build_request demo_http (demo_endpoint ''x'' ''http://l:1/'')
      ((demo_packet [] [] [])\<lparr>req_path := ''/a@b''\<rparr>)))
    = url_authority (trim_end_matches (CHR ''/'') (local_url (demo_endpoint ''x'' ''http://l:1/'')))"
  by (rule upstream_authority [where sch = "''http:''" and r = "''l:1''"])
    (simp_all add: demo_endpoint_def trim_end_matches_def url_delim_def)

text \<open>C25: without that proviso a packet names the host itself: for every service whose URL has no
  path, and every host, there is a path that sends the request to that host, the configured
  authority becoming a user name.\<close>

theorem path_chooses_host:
  assumes "trim_end_matches (CHR ''/'') (local_url ep) = sch @ ''//'' @ r" and "CHR ''/'' \<notin> set sch"
    and "list_all (\<lambda>c. \<not> url_delim c) r"
    and "list_all (\<lambda>c. \<not> url_delim c \<and> c \<noteq> CHR ''@'' \<and> c \<noteq> CHR '':'') host"
  shows "url_host (rq_url (build_request H ep (pkt\<lparr>req_path := ''@'' @ host @ ''/'' @ p\<rparr>))) = host"
proof -
  have h: "\<And>c. c \<in> set (r @ CHR ''@'' # host) \<Longrightarrow> \<not> url_delim c"
    using assms(3,4) by (auto simp: list_all_iff url_delim_def)
  have "takeWhile (\<lambda>c. \<not> url_delim c) ((r @ CHR ''@'' # host) @ CHR ''/'' # p) = r @ CHR ''@'' # host"
    using h by (subst takeWhile_append2) (auto simp: url_delim_def)
  then have "url_authority (rq_url (build_request H ep (pkt\<lparr>req_path := ''@'' @ host @ ''/'' @ p\<rparr>))) = r @ CHR ''@'' # host"
    using after_slashes_base [OF assms(2), of "r @ CHR ''@'' # host @ CHR ''/'' # p"]
    by (simp add: build_request_url upstream_url_def url_authority_def assms(1))
  moreover have "takeWhile (\<lambda>c. c \<noteq> CHR ''@'') (rev host @ CHR ''@'' # rev r) = rev host"
    using assms(4) by (subst takeWhile_append2) (auto simp: list_all_iff)
  moreover have "takeWhile (\<lambda>c. c \<noteq> CHR '':'') host = host"
    unfolding takeWhile_eq_all_conv using assms(4) by (auto simp: list_all_iff)
  ultimately show ?thesis by (simp add: url_host_def)
qed

lemma path_chooses_host_witness:
  "url_host (rq_url (build_request demo_http (demo_endpoint ''x'' ''http://localhost:4003'')
     ((demo_packet [] [] [])\<lparr>req_path := ''@'' @ ''evil.example'' @ ''/'' @ ''a''\<rparr>))) = ''evil.example''"
  by (rule path_chooses_host [where sch = "''http:''" and r = "''localhost:4003''"])
    (simp_all add: demo_endpoint_def trim_end_matches_def url_delim_def)

section \<open>The table of endpoints\<close>

lemma lookup_engine_names:
  "Mapping.lookup (engine_names eps) n = find (\<lambda>ep. ep_name ep = n) (rev eps)"
proof -
  have "Mapping.lookup (fold (\<lambda>ep m. Mapping.update (ep_name ep) ep m) eps m0) n
      = (case find (\<lambda>ep. ep_name ep = n) (rev eps) of None \<Rightarrow> Mapping.lookup m0 n | Some ep \<Rightarrow> Some ep)" for m0
  proof (induction eps arbitrary: m0)
    case (Cons ep eps)
    have "find P (xs @ ys) = (case find P xs of None \<Rightarrow> find P ys | Some x \<Rightarrow> Some x)"
      for P and xs ys :: "endpoint_cfg list"
      by (induction xs) auto
    with Cons show ?case by (simp add: Mapping.lookup_update' split: option.split)
  qed simp
  from this [of Mapping.empty] show ?thesis
    by (simp add: engine_names_def split: option.split)
qed

lemma keys_engine_names: "Mapping.keys (engine_names eps) = ep_name ` set eps"
proof -
  have "n \<in> Mapping.keys (engine_names eps) \<longleftrightarrow> n \<in> ep_name ` set eps" for n
  proof -
    have "n \<in> Mapping.keys (engine_names eps) \<longleftrightarrow> find (\<lambda>ep. ep_name ep = n) (rev eps) \<noteq> None"
      by (simp add: keys_dom_lookup domIff lookup_engine_names)
    then show ?thesis by (auto simp: find_None_iff)
  qed
  then show ?thesis by blast
qed

lemma lookup_engine_names_Some:
  "Mapping.lookup (engine_names eps) n = Some ep \<Longrightarrow> ep \<in> set eps \<and> ep_name ep = n"
  using find_SomeD [of "\<lambda>ep. ep_name ep = n" "rev eps" ep] by (simp add: lookup_engine_names)

text \<open>C39: a target is served exactly when an endpoint has its name, the empty target when there is
  any endpoint; it is served by an endpoint of the configuration with that name, the empty one by
  the endpoint with the least name.\<close>

theorem resolve_endpoint:
  assumes "engine_new True eps rt nid = Inr E"
  shows "case resolve E target of
      None \<Rightarrow> (if target = [] then eps = [] else target \<notin> ep_name ` set eps)
    | Some ep \<Rightarrow> ep \<in> set eps
        \<and> ep_name ep = (if target = [] then Min (ep_name ` set eps) else target)"
proof -
  define n where "n = (if target = [] then Min (ep_name ` set eps) else target)"
  have E: "by_name E = engine_names eps" "default_name E = min_key (engine_names eps)"
    using assms by (auto simp: engine_new_def Let_def)
  have empty: "Mapping.is_empty (engine_names eps) \<longleftrightarrow> eps = []"
    by (simp add: Mapping.is_empty_def keys_engine_names)
  show ?thesis
  proof (cases "target = [] \<and> eps = []")
    case True
    then have "Mapping.is_empty (engine_names eps)" unfolding empty by blast
    with True show ?thesis by (simp add: resolve_def E min_key_def)
  next
    case False
    then have r: "resolve E target = Mapping.lookup (engine_names eps) n"
      by (auto simp: resolve_def E n_def min_key_def empty keys_engine_names)
    have in_n: "target = [] \<Longrightarrow> n \<in> ep_name ` set eps"
      using False Min_in [of "ep_name ` set eps"] by (simp add: n_def)
    show ?thesis
    proof (cases "Mapping.lookup (engine_names eps) n")
      case None
      then have "n \<notin> ep_name ` set eps"
        using keys_engine_names [of eps] by (auto simp: keys_dom_lookup domIff)
      with None r in_n show ?thesis by (auto simp: n_def)
    next
      case (Some ep)
      with r lookup_engine_names_Some [OF Some] show ?thesis by (simp add: n_def)
    qed
  qed
qed

lemma resolve_endpoint_witness:
  "case resolve \<lparr>by_name = engine_names [demo_endpoint ''b'' ''u'', demo_endpoint ''a'' ''v''],
      default_name = min_key (engine_names [demo_endpoint ''b'' ''u'', demo_endpoint ''a'' ''v'']),
      pe_node_id = ''n'', signing = signing_key []\<rparr> ''a'' of
      None \<Rightarrow> ''a'' \<notin> {''a'', ''b''}
    | Some ep \<Rightarrow> ep_name ep = ''a''"
proof -
  have "engine_new True [demo_endpoint ''b'' ''u'', demo_endpoint ''a'' ''v''] [] ''n''
    = Inr \<lparr>by_name = engine_names [demo_endpoint ''b'' ''u'', demo_endpoint ''a'' ''v''],
      default_name = min_key (engine_names [demo_endpoint ''b'' ''u'', demo_endpoint ''a'' ''v'']),
      pe_node_id = ''n'', signing = signing_key []\<rparr>"
    by (simp add: engine_new_def Let_def)
  from resolve_endpoint [OF this, of "''a''"] show ?thesis
    by (auto simp: demo_endpoint_def split: option.splits)
qed

end
