(* ===== verification/Relay.thy ===== *)
theory Relay
  imports Proxy_Engine
begin

text \<open>
  \<open>Handler::relay\<close> and \<open>Handler::forward_to\<close> of \<open>src/src/p2p_server.rs\<close>: a packet for a name that is
  not served here goes, with one hop less, to the first peer that answers. The outgoing connection
  belongs to iroh; each of its calls is a parameter that may fail.
\<close>

section \<open>Parameters\<close>

text \<open>The module \<open>b64\<close> of \<open>src/src/protocol.rs\<close>: a body in JSON is a string of base64.\<close>

definition b64_serialize :: "json_lib \<Rightarrow> bytes \<Rightarrow> 'f json" where
  "b64_serialize J v = JStr (b64_encode J v)"

definition b64_deserialize :: "json_lib \<Rightarrow> 'f json \<Rightarrow> bytes option" where
  "b64_deserialize J v = (case v of JStr s \<Rightarrow> b64_decode J s | _ \<Rightarrow> None)"

lemma b64_deserialize_serialize: "json_ok J \<Longrightarrow> b64_deserialize J (b64_serialize J v) = Some v"
  by (simp add: b64_deserialize_def b64_serialize_def b64_roundtrip)

text \<open>\<open>serde_json\<close> at the type \<open>MeshPacket\<close>, whose body has that form.\<close>

record packet_codec =
  pkt_read :: "bytes \<Rightarrow> mesh_packet option"
  pkt_print :: "mesh_packet \<Rightarrow> bytes option"

text \<open>
  The calls on a connection to an endpoint: \<open>connect\<close>, \<open>open_bi\<close>, \<open>write_all\<close>, \<open>finish\<close>, and
  \<open>read_to_end\<close> with its limit, whose answer depends on what was written.
\<close>

record net_lib =
  connect :: "bytes \<Rightarrow> bool"
  open_bi :: "bytes \<Rightarrow> bool"
  write_out :: "bytes \<Rightarrow> bytes \<Rightarrow> bool"
  finish_out :: "bytes \<Rightarrow> bool"
  read_reply :: "bytes \<Rightarrow> bytes \<Rightarrow> nat \<Rightarrow> bytes option"

datatype relay_error =
    BadNodeId string | ConnectError | OpenError | PacketPrint | WriteError | FinishError | ReplyError
  | TtlExpired | NoPeers | AllFailed

section \<open>The functions\<close>

text \<open>Each function returns its result with what it wrote: the endpoint and the bytes, in order.\<close>

definition forward_io ::
  "crypto_lib \<Rightarrow> net_lib \<Rightarrow> packet_codec \<Rightarrow> string \<Rightarrow> mesh_packet
     \<Rightarrow> (relay_error + bytes) \<times> (bytes \<times> bytes) list" where
  "forward_io L N P node_id_str pkt =
     (case eid_parse L node_id_str of
        None \<Rightarrow> (Inl (BadNodeId node_id_str), [])
      | Some eid \<Rightarrow>
          if \<not> connect N eid then (Inl ConnectError, [])
          else if \<not> open_bi N eid then (Inl OpenError, [])
          else (case pkt_print P pkt of
                  None \<Rightarrow> (Inl PacketPrint, [])
                | Some json \<Rightarrow>
                    (if \<not> write_out N eid json then Inl WriteError
                     else if \<not> finish_out N eid then Inl FinishError
                     else (case read_reply N eid json MAX_FRAME of
                             None \<Rightarrow> Inl ReplyError | Some raw \<Rightarrow> Inr raw), [(eid, json)])))"

definition forward_to ::
  "crypto_lib \<Rightarrow> net_lib \<Rightarrow> packet_codec \<Rightarrow> string \<Rightarrow> mesh_packet \<Rightarrow> relay_error + bytes" where
  "forward_to L N P node_id_str pkt = fst (forward_io L N P node_id_str pkt)"

fun try_candidates ::
  "(string \<Rightarrow> (relay_error + bytes) \<times> 'o list) \<Rightarrow> string list \<Rightarrow> (relay_error + bytes) \<times> 'o list" where
  "try_candidates fwd [] = (Inl AllFailed, [])"
| "try_candidates fwd (cand # cands) =
     (case fwd cand of
        (Inr resp, out) \<Rightarrow> (Inr resp, out)
      | (Inl e, out) \<Rightarrow> (case try_candidates fwd cands of (r, out') \<Rightarrow> (r, out @ out')))"

definition next_hop :: "mesh_packet \<Rightarrow> mesh_packet" where
  "next_hop pkt = pkt\<lparr>ttl := ttl pkt - 1\<rparr>"

definition candidates :: "'db store_lib \<Rightarrow> 'db \<Rightarrow> string \<Rightarrow> string \<Rightarrow> string list" where
  "candidates S db target me =
     (let named = providers_of S db target me in if named = [] then others S db me else named)"

definition relay_io ::
  "crypto_lib \<Rightarrow> net_lib \<Rightarrow> packet_codec \<Rightarrow> 'db store_lib \<Rightarrow> 'db \<Rightarrow> string \<Rightarrow> mesh_packet
     \<Rightarrow> (relay_error + bytes) \<times> (bytes \<times> bytes) list" where
  "relay_io L N P S db me pkt =
     (if ttl pkt = 0 then (Inl TtlExpired, [])
      else
        let fwd = next_hop pkt; cands = candidates S db (target_provider pkt) me
        in (if cands = [] then (Inl NoPeers, [])
            else try_candidates (\<lambda>cand. forward_io L N P cand fwd) cands))"

definition relay ::
  "crypto_lib \<Rightarrow> net_lib \<Rightarrow> packet_codec \<Rightarrow> 'db store_lib \<Rightarrow> 'db \<Rightarrow> string \<Rightarrow> mesh_packet
     \<Rightarrow> relay_error + bytes" where
  "relay L N P S db me pkt = fst (relay_io L N P S db me pkt)"

definition relay_sends ::
  "crypto_lib \<Rightarrow> net_lib \<Rightarrow> packet_codec \<Rightarrow> 'db store_lib \<Rightarrow> 'db \<Rightarrow> string \<Rightarrow> mesh_packet
     \<Rightarrow> (bytes \<times> bytes) list" where
  "relay_sends L N P S db me pkt = snd (relay_io L N P S db me pkt)"

section \<open>One hop\<close>

text \<open>The reply is what the connection to the named endpoint gave to the printed packet, unchanged.\<close>

lemma forward_to_Inr:
  "forward_to L N P n pkt = Inr resp \<longleftrightarrow>
    (\<exists>eid json. eid_parse L n = Some eid \<and> pkt_print P pkt = Some json
       \<and> connect N eid \<and> open_bi N eid \<and> write_out N eid json \<and> finish_out N eid
       \<and> read_reply N eid json MAX_FRAME = Some resp)"
  by (auto simp: forward_to_def forward_io_def split: option.splits)

lemma forward_io_sends:
  "(eid, json) \<in> set (snd (forward_io L N P n pkt)) \<longleftrightarrow>
    eid_parse L n = Some eid \<and> connect N eid \<and> open_bi N eid \<and> pkt_print P pkt = Some json"
  by (auto simp: forward_io_def split: option.splits)

section \<open>The candidates in turn\<close>

lemma try_candidates_Cons:
  "fst (try_candidates fwd (c # cs)) =
    (case fst (fwd c) of Inr resp \<Rightarrow> Inr resp | Inl e \<Rightarrow> fst (try_candidates fwd cs))"
  by (auto split: prod.split sum.split)

lemma try_candidates_sends:
  "x \<in> set (snd (try_candidates fwd cs)) \<Longrightarrow> \<exists>c \<in> set cs. x \<in> set (snd (fwd c))"
  by (induction cs) (fastforce split: prod.splits sum.splits)+

lemma try_candidates_Inr:
  "fst (try_candidates fwd cands) = Inr resp \<longleftrightarrow>
    (\<exists>pre c post. cands = pre @ c # post \<and> fst (fwd c) = Inr resp \<and> list_all (\<lambda>p. \<exists>e. fst (fwd p) = Inl e) pre)"
proof (induction cands)
  case (Cons c cands)
  show ?case
  proof (cases "fst (fwd c)")
    case (Inl e)
    have "(\<exists>pre d post. c # cands = pre @ d # post \<and> fst (fwd d) = Inr resp \<and> list_all (\<lambda>p. \<exists>e. fst (fwd p) = Inl e) pre)
        \<longleftrightarrow> (\<exists>pre d post. cands = pre @ d # post \<and> fst (fwd d) = Inr resp \<and> list_all (\<lambda>p. \<exists>e. fst (fwd p) = Inl e) pre)"
      (is "?l \<longleftrightarrow> ?r")
    proof
      assume ?l
      then obtain pre d post where p: "c # cands = pre @ d # post" "fst (fwd d) = Inr resp"
        "list_all (\<lambda>p. \<exists>e. fst (fwd p) = Inl e) pre" by blast
      with Inl obtain pre' where "pre = c # pre'" by (cases pre) auto
      with p show ?r by auto
    next
      assume ?r
      then obtain pre d post where "cands = pre @ d # post" "fst (fwd d) = Inr resp"
        "list_all (\<lambda>p. \<exists>e. fst (fwd p) = Inl e) pre" by blast
      with Inl show ?l by (intro exI [of _ "c # pre"]) auto
    qed
    with Inl Cons show ?thesis by (simp add: try_candidates_Cons del: try_candidates.simps(2))
  next
    case (Inr r)
    have "r = resp \<longleftrightarrow> (\<exists>pre d post. c # cands = pre @ d # post \<and> fst (fwd d) = Inr resp
        \<and> list_all (\<lambda>p. \<exists>e. fst (fwd p) = Inl e) pre)"
    proof
      assume "r = resp"
      with Inr show "\<exists>pre d post. c # cands = pre @ d # post \<and> fst (fwd d) = Inr resp
          \<and> list_all (\<lambda>p. \<exists>e. fst (fwd p) = Inl e) pre"
        by (intro exI [of _ "[]"] exI [of _ c] exI [of _ cands]) simp
    qed (use Inr in \<open>auto simp: Cons_eq_append_conv\<close>)
    with Inr show ?thesis by (simp add: try_candidates_Cons del: try_candidates.simps(2))
  qed
qed simp

lemma try_candidates_total:
  "c \<in> set cands \<Longrightarrow> fst (fwd c) = Inr r \<Longrightarrow> \<exists>resp. fst (try_candidates fwd cands) = Inr resp"
  by (induction cands) (auto simp: try_candidates_Cons simp del: try_candidates.simps(2) split: sum.split)

text \<open>The relay by its parts, with what each call returned.\<close>

lemma relay_cases:
  "relay L N P S db me pkt =
    (if ttl pkt = 0 then Inl TtlExpired
     else if candidates S db (target_provider pkt) me = [] then Inl NoPeers
     else fst (try_candidates (\<lambda>c. forward_io L N P c (next_hop pkt)) (candidates S db (target_provider pkt) me)))"
  by (simp add: relay_def relay_io_def Let_def)

text \<open>Whatever a relay writes is the packet with a hop less, to a candidate.\<close>

lemma relay_sends_next_hop:
  assumes "(eid, json) \<in> set (relay_sends L N P S db me pkt)"
  shows "ttl pkt \<noteq> 0" and "pkt_print P (next_hop pkt) = Some json"
    and "\<exists>c \<in> set (candidates S db (target_provider pkt) me). eid_parse L c = Some eid"
  using assms try_candidates_sends [of "(eid, json)"]
  by (force simp: relay_sends_def relay_io_def Let_def forward_io_sends split: if_split_asm)+

lemma relay_Inr:
  "relay L N P S db me pkt = Inr resp \<longleftrightarrow> ttl pkt \<noteq> 0 \<and>
    (\<exists>pre c post. candidates S db (target_provider pkt) me = pre @ c # post
       \<and> forward_to L N P c (next_hop pkt) = Inr resp
       \<and> list_all (\<lambda>p. \<exists>e. forward_to L N P p (next_hop pkt) = Inl e) pre)"
  by (auto simp: relay_cases try_candidates_Inr forward_to_def)

lemma candidates_not_me: "c \<in> set (candidates S db target me) \<Longrightarrow> c \<noteq> me"
  by (auto simp: candidates_def providers_of_def others_def Let_def split: if_splits)

lemma next_hop_ttl: "ttl pkt \<noteq> 0 \<Longrightarrow> Suc (unat (ttl (next_hop pkt))) = unat (ttl pkt)"
  by (simp add: next_hop_def unat_minus_one unat_gt_0)

section \<open>Properties\<close>

text \<open>C20: a relayed answer is the untouched answer of the first candidate that gives one, to the same
  packet with one hop less; and when a hop is left and a candidate answers, there is an answer.\<close>

theorem relay_first_answer:
  "(relay L N P S db me pkt = Inr resp \<longleftrightarrow> ttl pkt \<noteq> 0 \<and>
     (\<exists>pre c post. candidates S db (target_provider pkt) me = pre @ c # post
        \<and> forward_to L N P c (pkt\<lparr>ttl := ttl pkt - 1\<rparr>) = Inr resp
        \<and> list_all (\<lambda>p. \<exists>e. forward_to L N P p (pkt\<lparr>ttl := ttl pkt - 1\<rparr>) = Inl e) pre))
   \<and> ((\<exists>resp. relay L N P S db me pkt = Inr resp) \<longleftrightarrow> ttl pkt \<noteq> 0 \<and>
     list_ex (\<lambda>c. \<exists>r. forward_to L N P c (pkt\<lparr>ttl := ttl pkt - 1\<rparr>) = Inr r)
       (candidates S db (target_provider pkt) me))"
proof
  show "relay L N P S db me pkt = Inr resp \<longleftrightarrow> ttl pkt \<noteq> 0 \<and>
     (\<exists>pre c post. candidates S db (target_provider pkt) me = pre @ c # post
        \<and> forward_to L N P c (pkt\<lparr>ttl := ttl pkt - 1\<rparr>) = Inr resp
        \<and> list_all (\<lambda>p. \<exists>e. forward_to L N P p (pkt\<lparr>ttl := ttl pkt - 1\<rparr>) = Inl e) pre)"
    unfolding relay_Inr next_hop_def ..
  show "(\<exists>resp. relay L N P S db me pkt = Inr resp) \<longleftrightarrow> ttl pkt \<noteq> 0 \<and>
     list_ex (\<lambda>c. \<exists>r. forward_to L N P c (pkt\<lparr>ttl := ttl pkt - 1\<rparr>) = Inr r)
       (candidates S db (target_provider pkt) me)" (is "?l \<longleftrightarrow> ?r")
  proof
    assume ?l
    then obtain resp where "relay L N P S db me pkt = Inr resp" by blast
    then show ?r unfolding relay_Inr next_hop_def by (force simp: list_ex_iff)
  next
    assume r: ?r
    then obtain c a where c: "c \<in> set (candidates S db (target_provider pkt) me)"
      "forward_to L N P c (next_hop pkt) = Inr a" by (auto simp: list_ex_iff next_hop_def)
    obtain resp where "fst (try_candidates (\<lambda>cand. forward_io L N P cand (next_hop pkt))
        (candidates S db (target_provider pkt) me)) = Inr resp"
      using try_candidates_total [OF c(1), of "\<lambda>cand. forward_io L N P cand (next_hop pkt)"] c(2)
      by (auto simp: forward_to_def)
    with r c(1) show ?l by (auto simp: relay_cases)
  qed
qed

end
