(* ===== verification/Rate_Limit.thy ===== *)
theory Rate_Limit
  imports Float64
begin

text \<open>
  \<open>src/src/ratelimit.rs\<close>: the per-peer token bucket. A bucket keeps its tokens as an \<open>f64\<close> and the
  instant of its last update; the limiter maps peers to buckets. An \<open>Instant\<close> is a number of
  nanoseconds on the monotonic clock. \<open>allow\<close> reads the clock before it takes the lock, so the
  instant is an argument and the calls are given in the order they take the lock.
\<close>

section \<open>The bucket and the limiter\<close>

record bucket =
  tokens :: f64
  last_update :: nat

type_synonym limiter = "string \<Rightarrow> bucket option"

definition limiter_new :: limiter where
  "limiter_new = (\<lambda>_. None)"

text \<open>\<open>Duration::as_secs_f64\<close> and \<open>Instant::duration_since\<close>, which is 0 for a later argument.\<close>

definition as_secs_f64 :: "nat \<Rightarrow> f64" where
  "as_secs_f64 n =
     f64_add (f64_of_nat (n div 10 ^ 9)) (f64_div (f64_of_nat (n mod 10 ^ 9)) (f64_of_nat (10 ^ 9)))"

definition duration_since :: "nat \<Rightarrow> nat \<Rightarrow> nat" where
  "duration_since now earlier = now - earlier"

definition refill :: "bucket \<Rightarrow> nat \<Rightarrow> f64 \<Rightarrow> f64" where
  "refill b now cap =
     min (f64_add (tokens b) (f64_mul (as_secs_f64 (duration_since now (last_update b))) cap)) cap"

definition bucket_step :: "bucket \<Rightarrow> nat \<Rightarrow> f64 \<Rightarrow> bucket \<times> bool" where
  "bucket_step b now cap =
     (let t = refill b now cap in
      if 1 \<le> t then (\<lparr>tokens = f64_sub t 1, last_update = now\<rparr>, True)
      else (\<lparr>tokens = t, last_update = now\<rparr>, False))"

definition allow :: "limiter \<Rightarrow> nat \<Rightarrow> string \<Rightarrow> u32 \<Rightarrow> limiter \<times> bool" where
  "allow l now peer rate =
     (if rate = 0 then (l, True)
      else
        let cap = f64_of_nat (unat rate);
            b = (case l peer of None \<Rightarrow> \<lparr>tokens = cap, last_update = now\<rparr> | Some b \<Rightarrow> b);
            r = bucket_step b now cap
        in (l(peer \<mapsto> fst r), snd r))"

section \<open>Sequences of calls\<close>

text \<open>A call is the instant it read, the peer key and the rate. The decisions come in call order.\<close>

type_synonym call = "nat \<times> string \<times> u32"

primrec run_calls ::
  "('l \<Rightarrow> nat \<Rightarrow> string \<Rightarrow> u32 \<Rightarrow> 'l \<times> bool) \<Rightarrow> 'l \<Rightarrow> call list \<Rightarrow> bool list" where
  "run_calls alw l [] = []"
| "run_calls alw l (c # cs) =
     (let r = alw l (fst c) (fst (snd c)) (snd (snd c)) in snd r # run_calls alw (fst r) cs)"

text \<open>The calls of one peer alone, against its own part of the state.\<close>

primrec run_own ::
  "('b \<Rightarrow> nat \<Rightarrow> u32 \<Rightarrow> 'b \<times> bool) \<Rightarrow> 'b \<Rightarrow> (nat \<times> u32) list \<Rightarrow> bool list" where
  "run_own stp b [] = []"
| "run_own stp b (c # cs) = (let r = stp b (fst c) (snd c) in snd r # run_own stp (fst r) cs)"

definition calls_of :: "string \<Rightarrow> call list \<Rightarrow> (nat \<times> u32) list" where
  "calls_of p cs = map (\<lambda>c. (fst c, snd (snd c))) (filter (\<lambda>c. fst (snd c) = p) cs)"

definition decisions_of :: "string \<Rightarrow> call list \<Rightarrow> bool list \<Rightarrow> bool list" where
  "decisions_of p cs ds = map snd (filter (\<lambda>(c, d). fst (snd c) = p) (zip cs ds))"

lemma calls_of_simps [simp]:
  "calls_of p [] = []"
  "calls_of p (c # cs) =
     (if fst (snd c) = p then (fst c, snd (snd c)) # calls_of p cs else calls_of p cs)"
  by (simp_all add: calls_of_def)

lemma decisions_of_simps [simp]:
  "decisions_of p [] [] = []"
  "decisions_of p (c # cs) (d # ds) =
     (if fst (snd c) = p then d # decisions_of p cs ds else decisions_of p cs ds)"
  by (simp_all add: decisions_of_def)

section \<open>The interface: state kept per key\<close>

text \<open>
  What the stream handler and the tunnel rely on when they share one limiter: a call changes the
  part of the state that belongs to its own key, and is decided by that part alone.
\<close>

locale keyed_limiter =
  fixes alw :: "'l \<Rightarrow> nat \<Rightarrow> string \<Rightarrow> u32 \<Rightarrow> 'l \<times> bool"
    and view :: "'l \<Rightarrow> string \<Rightarrow> 'b"
    and stp :: "'b \<Rightarrow> nat \<Rightarrow> u32 \<Rightarrow> 'b \<times> bool"
  assumes view_alw: "view (fst (alw l t p r)) q = (if q = p then fst (stp (view l p) t r) else view l q)"
    and snd_alw: "snd (alw l t p r) = snd (stp (view l p) t r)"
begin

lemma isolation: "decisions_of p cs (run_calls alw l cs) = run_own stp (view l p) (calls_of p cs)"
proof (induction cs arbitrary: l)
  case Nil
  then show ?case by simp
next
  case (Cons c cs)
  show ?case
    using Cons [of "fst (alw l (fst c) (fst (snd c)) (snd (snd c)))"]
    by (auto simp: Let_def view_alw snd_alw)
qed

lemma isolation_cong:
  assumes "view l p = view l' p" and "calls_of p cs = calls_of p cs'"
  shows "decisions_of p cs (run_calls alw l cs) = decisions_of p cs' (run_calls alw l' cs')"
  using assms by (simp add: isolation)

end

definition own_step :: "bucket option \<Rightarrow> nat \<Rightarrow> u32 \<Rightarrow> bucket option \<times> bool" where
  "own_step bo now rate =
     (if rate = 0 then (bo, True)
      else
        let cap = f64_of_nat (unat rate);
            b = (case bo of None \<Rightarrow> \<lparr>tokens = cap, last_update = now\<rparr> | Some b \<Rightarrow> b);
            r = bucket_step b now cap
        in (Some (fst r), snd r))"

interpretation limiter: keyed_limiter allow "\<lambda>l p. l p" own_step
  by unfold_locales (auto simp: allow_def own_step_def Let_def split: option.splits)

section \<open>The bucket's arithmetic\<close>

lemma as_secs_f64_below_second:
  assumes "n < 10 ^ 9"
  shows "as_secs_f64 n = f64_round (f64_round (of_nat n / 10 ^ 9))"
proof -
  have "n div 10 ^ 9 = 0" and "n mod 10 ^ 9 = n" using assms by simp_all
  moreover have "f64_of_nat n = of_nat n" and "f64_of_nat (10 ^ 9) = 10 ^ 9"
    using assms f64_round_of_nat [of n] f64_round_of_nat [of "10 ^ 9"]
    by (simp_all add: f64_of_nat_def)
  ultimately show ?thesis
    by (simp add: as_secs_f64_def f64_add_def f64_div_def f64_of_nat_def)
qed

lemma as_secs_f64_nonneg: "0 \<le> as_secs_f64 n"
  by (simp add: as_secs_f64_def f64_add_def f64_div_def f64_of_nat_def f64_round_nonneg)

lemma as_secs_f64_ge_one:
  assumes "10 ^ 9 \<le> n"
  shows "1 \<le> as_secs_f64 n"
proof -
  have "1 \<le> n div 10 ^ 9" using assms by (simp add: div_le_mono less_eq_div_iff_mult_less_eq)
  then have "f64_round (of_nat 1) \<le> f64_of_nat (n div 10 ^ 9)"
    unfolding f64_of_nat_def by (intro f64_round_mono) (simp_all only: of_nat_0_le_iff of_nat_le_iff)
  then have one: "1 \<le> f64_of_nat (n div 10 ^ 9)" by simp
  have "0 \<le> f64_div (f64_of_nat (n mod 10 ^ 9)) (f64_of_nat (10 ^ 9))"
    by (simp add: f64_div_def f64_of_nat_def f64_round_nonneg)
  with one have "f64_round 1 \<le> as_secs_f64 n"
    unfolding as_secs_f64_def f64_add_def by (intro f64_round_mono) simp_all
  then show ?thesis by simp
qed

text \<open>A bucket that waited a second is full again.\<close>

lemma refill_full:
  assumes "0 \<le> tokens b" and "last_update b + 10 ^ 9 \<le> now" and "n < 2 ^ 53"
  shows "refill b now (of_nat n) = of_nat n"
proof -
  let ?e = "as_secs_f64 (duration_since now (last_update b))"
  have "1 \<le> ?e" using assms(2) by (intro as_secs_f64_ge_one) (simp add: duration_since_def)
  then have "of_nat n \<le> ?e * of_nat n" using mult_right_mono [of 1 ?e "of_nat n"] by simp
  then have "f64_round (of_nat n) \<le> f64_mul ?e (of_nat n)"
    unfolding f64_mul_def by (intro f64_round_mono) simp_all
  with assms have "of_nat n \<le> tokens b + f64_mul ?e (of_nat n)" by simp
  then have "f64_round (of_nat n) \<le> f64_add (tokens b) (f64_mul ?e (of_nat n))"
    unfolding f64_add_def by (intro f64_round_mono) simp_all
  with assms(3) show ?thesis by (simp add: refill_def)
qed

lemma refill_nonneg:
  assumes "0 \<le> tokens b" and "0 \<le> cap"
  shows "0 \<le> refill b now cap"
proof -
  have "0 \<le> f64_mul (as_secs_f64 (duration_since now (last_update b))) cap"
    using as_secs_f64_nonneg assms(2) unfolding f64_mul_def by (intro f64_round_nonneg) simp
  then show ?thesis
    using assms by (simp add: refill_def f64_add_def f64_round_nonneg)
qed

text \<open>One refill adds at most the exact amount and five roundings.\<close>

lemma refill_bound:
  assumes "0 \<le> tokens b" and "1 \<le> n" and "n < 2 ^ 53"
  shows "refill b now (of_nat n)
       \<le> tokens b + of_nat (now - last_update b) / 10 ^ 9 * of_nat n + 5 * (of_nat n / 2 ^ 53)"
proof -
  define cap where "cap = (of_nat n :: rat)"
  define d where "d = (of_nat (now - last_update b) :: rat) / 10 ^ 9"
  have cap: "1 \<le> cap" "f64_round cap = cap" using assms(2,3) by (simp_all add: cap_def)
  have d0: "0 \<le> d" by (simp add: d_def)
  show ?thesis
  proof (cases "tokens b + d * cap < cap")
    case False
    then show ?thesis using cap unfolding cap_def [symmetric] d_def [symmetric]
      by (simp add: refill_def min_le_iff_disj)
  next
    case True
    have "d * cap < 1 * cap" using True assms(1) by simp
    then have d1: "d < 1" using cap(1) by (simp only: mult_less_cancel_right)
    then have n9: "now - last_update b < 10 ^ 9"
      by (simp add: d_def)
    define a where "a = f64_round d"
    define e where "e = f64_round a"
    define f where "f = f64_round (e * cap)"
    have a: "0 \<le> a" "a \<le> 1" "a \<le> d + 1 / 2 ^ 53"
      using f64_round_nonneg [OF d0] f64_round_mono [OF d0, of 1] f64_round_error [of d 1] d0 d1
      by (auto simp: a_def abs_if split: if_splits)
    have e: "0 \<le> e" "e \<le> 1" "e \<le> a + 1 / 2 ^ 53"
      using f64_round_nonneg [OF a(1)] f64_round_mono [OF a(1,2)] f64_round_error [of a 1] a
      by (auto simp: e_def abs_if split: if_splits)
    have ec: "0 \<le> e * cap" "e * cap \<le> cap"
      using e cap by (simp_all add: mult_left_le_one_le mult_le_cancel_right1)
    have f: "0 \<le> f" "f \<le> cap" "f \<le> e * cap + cap / 2 ^ 53"
      using f64_round_nonneg [OF ec(1)] f64_round_mono [OF ec] f64_round_error [OF ec cap(1)] cap
      by (auto simp: f_def abs_if split: if_splits)
    have tok: "tokens b \<le> cap"
      using True d0 cap mult_nonneg_nonneg [OF d0, of cap] by linarith
    have "f64_round (tokens b + f) \<le> tokens b + f + 2 * cap / 2 ^ 53"
      using f64_round_error [of "tokens b + f" "2 * cap"] tok f cap assms(1)
      by (auto simp: abs_if split: if_splits)
    moreover have "e * cap \<le> (d + 2 / 2 ^ 53) * cap"
      using a e cap by (intro mult_right_mono) simp_all
    ultimately have "f64_round (tokens b + f) \<le> tokens b + d * cap + 5 * (cap / 2 ^ 53)"
      using f(3) by (simp add: algebra_simps)
    moreover have "refill b now cap \<le> f64_round (tokens b + f)"
      using as_secs_f64_below_second [OF n9]
      by (simp add: refill_def duration_since_def f64_add_def f64_mul_def f_def e_def a_def d_def)
    ultimately show ?thesis by (simp add: cap_def d_def)
  qed
qed

lemma bucket_step_simps:
  "last_update (fst (bucket_step b now cap)) = now"
  "tokens (fst (bucket_step b now cap)) =
     (if 1 \<le> refill b now cap then f64_sub (refill b now cap) 1 else refill b now cap)"
  "snd (bucket_step b now cap) \<longleftrightarrow> 1 \<le> refill b now cap"
  by (simp_all add: bucket_step_def Let_def)

lemma bucket_step_nonneg:
  "0 \<le> tokens b \<Longrightarrow> 0 \<le> cap \<Longrightarrow> 0 \<le> tokens (fst (bucket_step b now cap))"
  by (simp add: bucket_step_simps f64_sub_def f64_round_nonneg refill_nonneg)

text \<open>What a call leaves and what it spends come from what the refill made available.\<close>

lemma bucket_step_spend:
  assumes "0 \<le> tokens b" and "1 \<le> cap"
  shows "tokens (fst (bucket_step b now cap)) + of_bool (snd (bucket_step b now cap))
       \<le> refill b now cap + cap / 2 ^ 53"
proof (cases "1 \<le> refill b now cap")
  case True
  have "refill b now cap \<le> cap" by (simp add: refill_def)
  then have "\<bar>f64_round (refill b now cap - 1) - (refill b now cap - 1)\<bar> \<le> cap / 2 ^ 53"
    using True assms by (intro f64_round_error) simp_all
  with True show ?thesis
    by (simp add: bucket_step_simps f64_sub_def abs_if split: if_splits)
next
  case False
  with assms show ?thesis by (simp add: bucket_step_simps)
qed

definition used :: "bool list \<Rightarrow> nat" where
  "used ds = length (filter (\<lambda>d. d) ds)"

lemma used_simps [simp]: "used [] = 0" "used (d # ds) = of_bool d + used ds"
  by (simp_all add: used_def)

definition limiter_ok :: "limiter \<Rightarrow> bool" where
  "limiter_ok l \<longleftrightarrow> (\<forall>p b. l p = Some b \<longrightarrow> 0 \<le> tokens b)"

lemma limiter_ok_new [simp]: "limiter_ok limiter_new"
  by (simp add: limiter_ok_def limiter_new_def)

text \<open>By how much the clock readings go back, in the order of the lock.\<close>

fun setbacks :: "nat list \<Rightarrow> nat" where
  "setbacks (t # u # ts) = (t - u) + setbacks (u # ts)"
| "setbacks ts = 0"

lemma setbacks_sorted [simp]: "sorted ts \<Longrightarrow> setbacks ts = 0"
  by (induction ts rule: setbacks.induct) auto

text \<open>A run of one peer's calls from a bucket, all at rates up to \<open>R\<close>: what the clock goes back is credited
  twice.\<close>

lemma run_own_bound:
  assumes "0 \<le> tokens b" and "last_update b \<le> t1" and "\<And>c. c \<in> set cs \<Longrightarrow> fst c \<le> t1"
    and "\<And>c. c \<in> set cs \<Longrightarrow> snd c \<noteq> 0 \<and> unat (snd c) \<le> R"
  shows "of_nat (used (run_own own_step (Some b) cs))
       \<le> tokens b + of_nat (t1 - last_update b + setbacks (last_update b # map fst cs)) / 10 ^ 9 * of_nat R
         + of_nat (length cs) * (of_nat R / 2 ^ 50)"
  using assms
proof (induction cs arbitrary: b)
  case Nil
  then show ?case by simp
next
  case (Cons c cs)
  define n where "n = unat (snd c)"
  define s where "s = bucket_step b (fst c) (of_nat n)"
  define b' where "b' = fst s"
  have n: "1 \<le> n" "n \<le> R" "n < 2 ^ 53"
    using Cons.prems(4) [of c] unat_bound [of "snd c"]
    by (simp_all add: n_def Suc_le_eq unat_gt_0)
  have t: "fst c \<le> t1" using Cons.prems(3) [of c] by simp
  have b': "last_update b' = fst c" "0 \<le> tokens b'"
    using Cons.prems(1) n by (simp_all add: b'_def s_def bucket_step_simps(1) bucket_step_nonneg)
  have step: "own_step (Some b) (fst c) (snd c) = (Some b', snd s)"
    using n f64_of_u32 [of "snd c"] Cons.prems(4) [of c]
    by (simp only: own_step_def Let_def option.case s_def b'_def n_def) simp
  have ih: "of_nat (used (run_own own_step (Some b') cs))
       \<le> tokens b' + of_nat (t1 - fst c + setbacks (fst c # map fst cs)) / 10 ^ 9 * of_nat R
         + of_nat (length cs) * (of_nat R / 2 ^ 50)"
    using Cons.IH [OF b'(2), unfolded b'(1), OF t] Cons.prems(3,4) by simp
  have spend: "tokens b' + of_bool (snd s) \<le> refill b (fst c) (of_nat n) + of_nat n / 2 ^ 53"
    unfolding b'_def s_def using Cons.prems(1) n by (intro bucket_step_spend) simp_all
  have filled: "refill b (fst c) (of_nat n) \<le> tokens b
      + of_nat (fst c - last_update b) / 10 ^ 9 * of_nat n + 5 * (of_nat n / 2 ^ 53)"
    using Cons.prems(1) n by (intro refill_bound) simp_all
  have rate: "of_nat (fst c - last_update b) / 10 ^ 9 * of_nat n
      \<le> of_nat (fst c - last_update b) / 10 ^ 9 * (of_nat R :: rat)"
    using n(2) by (intro mult_left_mono) simp_all
  have "of_nat n \<le> (of_nat R :: rat)" using n(2) by simp
  then have err: "6 * (of_nat n / 2 ^ 53) \<le> (of_nat R :: rat) / 2 ^ 50"
    by (simp add: field_simps)
  have "t1 - last_update b + setbacks (last_update b # map fst (c # cs))
      = (fst c - last_update b) + (t1 - fst c + setbacks (fst c # map fst cs))"
    using t Cons.prems(2) by simp
  then have time: "(of_nat (t1 - last_update b + setbacks (last_update b # map fst (c # cs))) :: rat) / 10 ^ 9 * of_nat R
      = of_nat (fst c - last_update b) / 10 ^ 9 * of_nat R
        + of_nat (t1 - fst c + setbacks (fst c # map fst cs)) / 10 ^ 9 * of_nat R"
    by (simp only: of_nat_add) (simp add: field_simps)
  have use: "(of_nat (used (run_own own_step (Some b) (c # cs))) :: rat)
      = of_bool (snd s) + of_nat (used (run_own own_step (Some b') cs))"
    by (simp add: step Let_def)
  have len: "of_nat (length (c # cs)) * (of_nat R / 2 ^ 50)
      = (of_nat R :: rat) / 2 ^ 50 + of_nat (length cs) * (of_nat R / 2 ^ 50)"
    by (simp add: algebra_simps)
  show ?case
    unfolding use len time using ih spend filled rate err by linarith
qed

text \<open>The first call may find any bucket: its refill is capped at the rate.\<close>

lemma own_step_first:
  assumes "\<And>b. bo = Some b \<Longrightarrow> 0 \<le> tokens b" and "r \<noteq> 0" and "unat r \<le> R"
  obtains b' where "fst (own_step bo t r) = Some b'" and "last_update b' = t" and "0 \<le> tokens b'"
    and "tokens b' + of_bool (snd (own_step bo t r)) \<le> of_nat R + of_nat R / 2 ^ 53"
proof -
  define n where "n = unat r"
  define b where "b = (case bo of None \<Rightarrow> \<lparr>tokens = of_nat n, last_update = t\<rparr> | Some b \<Rightarrow> b)"
  define s where "s = bucket_step b t (of_nat n)"
  have n: "1 \<le> n" "n \<le> R" using assms(2,3) by (simp_all add: n_def Suc_le_eq unat_gt_0)
  have b: "0 \<le> tokens b" using assms(1) by (simp add: b_def split: option.split)
  have step: "own_step bo t r = (Some (fst s), snd s)"
    using assms(2) unfolding own_step_def Let_def f64_of_u32 s_def b_def n_def by (simp only: if_False)
  have R: "(of_nat n :: rat) \<le> of_nat R" using n(2) by simp
  have "refill b t (of_nat n) \<le> of_nat n" by (simp add: refill_def)
  then have "tokens (fst s) + of_bool (snd s) \<le> of_nat R + of_nat R / 2 ^ 53"
    using bucket_step_spend [OF b, of "of_nat n" t] n(1) R by (simp add: s_def)
  with b n that [of "fst s"] show ?thesis
    by (simp add: step s_def bucket_step_simps(1) bucket_step_nonneg)
qed

lemma run_own_window:
  assumes "\<And>b. bo = Some b \<Longrightarrow> 0 \<le> tokens b"
    and "\<And>c. c \<in> set cs \<Longrightarrow> t0 \<le> fst c \<and> fst c \<le> t1"
    and "\<And>c. c \<in> set cs \<Longrightarrow> snd c \<noteq> 0 \<and> unat (snd c) \<le> R"
  shows "of_nat (used (run_own own_step bo cs))
       \<le> of_nat R + of_nat (t1 - t0 + setbacks (map fst cs)) / 10 ^ 9 * of_nat R
         + of_nat (length cs) * (of_nat R / 2 ^ 50 :: rat)"
proof (cases cs)
  case Nil
  then show ?thesis by simp
next
  case (Cons c cs')
  then have c: "snd c \<noteq> 0" "unat (snd c) \<le> R" "t0 \<le> fst c" "fst c \<le> t1"
    using assms(2,3) [of c] by simp_all
  obtain b' where b': "fst (own_step bo (fst c) (snd c)) = Some b'" "last_update b' = fst c"
      "0 \<le> tokens b'"
    and spend: "tokens b' + of_bool (snd (own_step bo (fst c) (snd c))) \<le> of_nat R + of_nat R / 2 ^ 53"
    by (rule own_step_first [where bo = bo and r = "snd c" and R = R and t = "fst c"])
      (use assms(1) c in auto)
  have "of_nat (used (run_own own_step (Some b') cs'))
      \<le> tokens b' + of_nat (t1 - last_update b' + setbacks (last_update b' # map fst cs')) / 10 ^ 9 * of_nat R
        + of_nat (length cs') * (of_nat R / 2 ^ 50 :: rat)"
    using assms Cons b' c by (intro run_own_bound) auto
  moreover have "of_nat (t1 - last_update b' + setbacks (last_update b' # map fst cs')) / 10 ^ 9 * of_nat R
      \<le> of_nat (t1 - t0 + setbacks (map fst cs)) / 10 ^ 9 * (of_nat R :: rat)"
    using b'(2) c by (intro mult_right_mono divide_right_mono) (simp_all add: Cons)
  moreover have "(of_nat (used (run_own own_step bo cs)) :: rat)
      = of_bool (snd (own_step bo (fst c) (snd c))) + of_nat (used (run_own own_step (Some b') cs'))"
    using b'(1) by (simp add: Cons Let_def)
  moreover have "of_nat (length cs) * (of_nat R / 2 ^ 50)
      = (of_nat R :: rat) / 2 ^ 50 + of_nat (length cs') * (of_nat R / 2 ^ 50)"
    by (simp add: Cons algebra_simps)
  moreover have "(of_nat R :: rat) / 2 ^ 53 \<le> of_nat R / 2 ^ 50" by (simp add: field_simps)
  ultimately show ?thesis using spend by linarith
qed

text \<open>Calls at the rate 0 are not limited, and leave the bucket as it is.\<close>

definition limited :: "(nat \<times> u32) list \<Rightarrow> (nat \<times> u32) list" where
  "limited cs = filter (\<lambda>c. snd c \<noteq> 0) cs"

lemma run_own_limited:
  "map snd (filter (\<lambda>(c, d). snd c \<noteq> 0) (zip cs (run_own own_step bo cs))) = run_own own_step bo (limited cs)"
proof (induction cs arbitrary: bo)
  case (Cons c cs)
  have "snd c = 0 \<Longrightarrow> own_step bo (fst c) (snd c) = (bo, True)" by (simp add: own_step_def)
  with Cons [of "fst (own_step bo (fst c) (snd c))"] show ?case
    by (cases "snd c = 0") (simp_all add: limited_def Let_def)
qed (simp add: limited_def)

text \<open>The bound for any run of the limiter.\<close>

lemma window_bound:
  assumes "limiter_ok l"
    and "\<And>t r. (t, r) \<in> set (calls_of p cs) \<Longrightarrow> t0 \<le> t \<and> t \<le> t1 \<and> r \<noteq> 0 \<and> unat r \<le> R"
  shows "of_nat (used (decisions_of p cs (run_calls allow l cs)))
       \<le> of_nat R + of_nat (t1 - t0 + setbacks (map fst (calls_of p cs))) / 10 ^ 9 * of_nat R
         + of_nat (length (calls_of p cs)) * (of_nat R / 2 ^ 50 :: rat)"
  unfolding limiter.isolation
proof (rule run_own_window)
  fix b assume "l p = Some b"
  then show "0 \<le> tokens b" using assms(1) by (auto simp: limiter_ok_def)
qed (use assms(2) in force)+

lemma limited_bound:
  assumes "limiter_ok l"
    and "\<And>t r. (t, r) \<in> set (limited (calls_of p cs)) \<Longrightarrow> t0 \<le> t \<and> t \<le> t1 \<and> unat r \<le> R"
  shows "of_nat (used (map snd (filter (\<lambda>(c, d). snd c \<noteq> 0)
            (zip (calls_of p cs) (decisions_of p cs (run_calls allow l cs))))))
       \<le> of_nat R + of_nat (t1 - t0 + setbacks (map fst (limited (calls_of p cs)))) / 10 ^ 9 * of_nat R
         + of_nat (length (limited (calls_of p cs))) * (of_nat R / 2 ^ 50 :: rat)"
  unfolding limiter.isolation run_own_limited
proof (rule run_own_window)
  fix b assume "l p = Some b"
  then show "0 \<le> tokens b" using assms(1) by (auto simp: limiter_ok_def)
next
  fix c assume "c \<in> set (limited (calls_of p cs))"
  with assms(2) [of "fst c" "snd c"] show "t0 \<le> fst c \<and> fst c \<le> t1" and "snd c \<noteq> 0 \<and> unat (snd c) \<le> R"
    by (simp_all add: limited_def)
qed

text \<open>A stretch of a run is a run from the limiter that the calls before it left.\<close>

lemma limiter_ok_step:
  assumes "limiter_ok l"
  shows "limiter_ok (fst (allow l now p rate))"
proof (cases "rate = 0")
  case False
  define n where "n = unat rate"
  define b where "b = (case l p of None \<Rightarrow> \<lparr>tokens = of_nat n, last_update = now\<rparr> | Some b \<Rightarrow> b)"
  have "0 \<le> tokens b" using assms by (auto simp: b_def limiter_ok_def split: option.split)
  then have "0 \<le> tokens (fst (bucket_step b now (of_nat n)))" by (simp add: bucket_step_nonneg)
  moreover have "fst (allow l now p rate) = l(p \<mapsto> fst (bucket_step b now (of_nat n)))"
    using False unfolding allow_def Let_def f64_of_u32 b_def n_def by (simp only: if_False fst_conv)
  ultimately show ?thesis using assms by (simp add: limiter_ok_def)
qed (use assms in \<open>simp add: allow_def\<close>)

lemma length_run_calls [simp]: "length (run_calls alw l cs) = length cs"
  by (induction cs arbitrary: l) (simp_all add: Let_def)

lemma run_calls_stretch:
  assumes "limiter_ok l"
  shows "\<exists>l'. limiter_ok l' \<and> (\<forall>ds. run_calls allow l (cs @ ds) = run_calls allow l cs @ run_calls allow l' ds)"
  using assms
proof (induction cs arbitrary: l)
  case (Cons c cs)
  from Cons.IH [OF limiter_ok_step [OF Cons.prems, of "fst c" "fst (snd c)" "snd (snd c)"]] show ?case
    by (auto simp: Let_def)
qed auto

section \<open>Properties\<close>

text \<open>Over any window, however the peers' calls interleave, one peer gets at most a full
  bucket plus the rate times the window's length through the limiter, up to the \<open>f64\<close> rounding of
  \<open>R / 2 ^ 50\<close> per call.\<close>

theorem limiter_window_bound:
  assumes "limiter_ok l" and "sorted (map fst (calls_of p cs))"
    and "\<And>t r. (t, r) \<in> set (calls_of p cs) \<Longrightarrow> t0 \<le> t \<and> t \<le> t1 \<and> r \<noteq> 0 \<and> unat r \<le> R"
  shows "of_nat (used (decisions_of p cs (run_calls allow l cs)))
       \<le> of_nat R + of_nat (t1 - t0) / 10 ^ 9 * of_nat R
         + of_nat (length (calls_of p cs)) * (of_nat R / 2 ^ 50 :: rat)"
  using window_bound [OF assms(1,3), of p cs] assms(2) by simp

lemma limiter_window_bound_witness:
  "of_nat (used (decisions_of ''a'' [(0, ''a'', 2), (7, ''b'', 1), (500000000, ''a'', 2)]
      (run_calls allow limiter_new [(0, ''a'', 2), (7, ''b'', 1), (500000000, ''a'', 2)])))
     \<le> (2 + 1 * 2 + 2 * (2 / 2 ^ 50) :: rat)"
proof -
  let ?cs = "[(0, ''a'', 2), (7, ''b'', 1), (500000000, ''a'', 2)] :: call list"
  have "of_nat (used (decisions_of ''a'' ?cs (run_calls allow limiter_new ?cs)))
      \<le> of_nat 2 + of_nat (10 ^ 9 - 0) / 10 ^ 9 * of_nat 2
        + of_nat (length (calls_of ''a'' ?cs)) * (of_nat 2 / 2 ^ 50 :: rat)"
    by (rule limiter_window_bound) auto
  then show ?thesis by (simp del: run_calls.simps)
qed

text \<open>The decisions for one peer depend on its own calls only; other peers can neither use up
  its tokens nor refill them.\<close>

theorem limiter_isolation:
  assumes "l p = l' p" and "calls_of p cs = calls_of p cs'"
  shows "decisions_of p cs (run_calls allow l cs) = decisions_of p cs' (run_calls allow l' cs')"
  using assms by (rule limiter.isolation_cong)

lemma limiter_isolation_witness:
  "decisions_of ''a'' [(0, ''a'', 1), (1, ''b'', 1), (2, ''a'', 1)]
      (run_calls allow limiter_new [(0, ''a'', 1), (1, ''b'', 1), (2, ''a'', 1)])
   = decisions_of ''a'' [(0, ''a'', 1), (2, ''a'', 1)]
      (run_calls allow limiter_new [(0, ''a'', 1), (2, ''a'', 1)])"
  by (rule limiter_isolation) simp_all

text \<open>A peer that made no call for a second is let through, whatever its bucket held, and so is
  a peer that never called.\<close>

theorem limiter_idle_allowed:
  assumes "limiter_ok l" and "\<And>b. l p = Some b \<Longrightarrow> last_update b + 10 ^ 9 \<le> now"
  shows "snd (allow l now p rate)"
proof (cases "rate = 0")
  case True
  then show ?thesis by (simp add: allow_def)
next
  case False
  define n where "n = unat rate"
  have n: "1 \<le> n" "n < 2 ^ 53" 
    using False unat_bound [of rate] by (simp_all add: n_def Suc_le_eq unat_gt_0)
  define b where "b = (case l p of None \<Rightarrow> \<lparr>tokens = of_nat n, last_update = now\<rparr> | Some b \<Rightarrow> b)"
  have "refill b now (of_nat n) = of_nat n"
  proof (cases "l p")
    case None
    then show ?thesis 
      using n as_secs_f64_below_second [of 0]
      by (simp add: b_def refill_def duration_since_def f64_mul_def f64_add_def)
  next
    case (Some b')
    with assms n(2) show ?thesis
      by (intro refill_full) (auto simp: b_def limiter_ok_def)
  qed
  then have "snd (bucket_step b now (of_nat n))" using n(1) by (simp add: bucket_step_simps)
  with False show ?thesis
    unfolding allow_def Let_def f64_of_u32 b_def n_def by (simp only: if_False snd_conv)
qed

lemma limiter_idle_allowed_witness:
  "snd (allow [''a'' \<mapsto> \<lparr>tokens = 0, last_update = 5\<rparr>] 1000000005 ''a'' 3)"
  by (rule limiter_idle_allowed) (simp_all add: limiter_ok_def)

text \<open>The first call of any peer is let through.\<close>

lemma limiter_first: "snd (allow limiter_new now p rate)"
  by (rule limiter_idle_allowed) (simp_all add: limiter_new_def limiter_ok_def)

text \<open>Every call keeps the token counts non-negative, so the three properties above hold of
  every state the limiter reaches.\<close>

theorem limiter_ok_allow:
  assumes "limiter_ok l"
  shows "limiter_ok (fst (allow l now p rate))"
  using assms by (rule limiter_ok_step)

lemma limiter_ok_allow_witness:
  "limiter_ok (fst (allow limiter_new 0 ''a'' 1))"
  by (rule limiter_ok_allow) simp

text \<open>The values of two small examples; the only fraction is a power of two.\<close>

lemma f64_round_quarter: "f64_round (1/4) = 1/4"
  by code_simp

lemma as_secs_values:
  "as_secs_f64 0 = 0" "as_secs_f64 1000000000 = 1" "as_secs_f64 250000000 = 1/4"
  using as_secs_f64_below_second [of 0] as_secs_f64_below_second [of 250000000]
  by (simp_all add: f64_round_quarter as_secs_f64_def f64_add_def f64_div_def f64_of_nat_def)

lemma f64_values:
  "f64_mul (1/4) 8 = 2" "f64_mul 0 8 = 0" "f64_mul 0 1 = 0" "f64_mul 1 1 = 1"
  "f64_add 0 2 = 2" "f64_add 0 1 = 1" "f64_add 0 0 = 0" "f64_add 8 0 = 8" "f64_add 7 0 = 7" "f64_add 1 0 = 1"
  "f64_sub 8 1 = 7" "f64_sub 1 1 = 0" "f64_sub 2 1 = 1" "f64_of_nat 8 = 8" "f64_of_nat (Suc 0) = 1"
  using f64_round_of_nat [of 8] f64_round_of_nat [of 1]
  by (simp_all add: f64_mul_def f64_add_def f64_sub_def f64_of_nat_def f64_round_numeral)

text \<open>The clock is read before the lock is taken, and a call with a stale reading moves the
  bucket's instant back, so the time between is credited again: at one request per second, calls
  that take the lock with the readings 0 s, 1 s, 0 s, 1 s get three requests through in one second.\<close>

theorem limiter_stale_clock:
  "run_calls allow limiter_new
     [(0, ''a'', 1), (10 ^ 9, ''a'', 1), (0, ''a'', 1), (10 ^ 9, ''a'', 1)] = [True, True, False, True]"
  by (simp add: allow_def limiter_new_def Let_def bucket_step_def refill_def duration_since_def f64_values as_secs_values)

text \<open>The endpoints of a node share one bucket per peer, so a peer that alternates with a faster
  endpoint gets more from a slow one than its own limit: here three requests in half a second at a limit
  of one per second.\<close>

theorem limiter_mixed_rates:
  "run_calls allow limiter_new
     [(0, ''p'', 8), (0, ''p'', 1), (250000000, ''p'', 8), (250000000, ''p'', 1),
      (500000000, ''p'', 8), (500000000, ''p'', 1)]
   = [True, True, True, True, True, True]"
  by (simp add: allow_def limiter_new_def Let_def bucket_step_def refill_def duration_since_def f64_values as_secs_values)

end
