(* ===== verification/Runs.thy ===== *)
theory Runs
  imports Main "HOL-Library.Multiset"
begin

text \<open>
  Runs of a step function over a list of operations, the shape that every concurrent component takes
  here: each operation takes effect at one point, and the list is the order of these points. Two
  interfaces: operations that keep an invariant, and operations whose order does not matter. A third is
  that of a step relation with labels, whose runs grow at the end: what can be composed, and what was so
  at an earlier moment of a run.
\<close>

definition run_ops :: "('o \<Rightarrow> 's \<Rightarrow> 's) \<Rightarrow> 'o list \<Rightarrow> 's \<Rightarrow> 's" where
  "run_ops stp os s = fold stp os s"

primrec legal :: "('o \<Rightarrow> 's \<Rightarrow> 's) \<Rightarrow> ('s \<Rightarrow> 'o \<Rightarrow> bool) \<Rightarrow> 'o list \<Rightarrow> 's \<Rightarrow> bool" where
  "legal stp allowed [] s \<longleftrightarrow> True"
| "legal stp allowed (x # xs) s \<longleftrightarrow> allowed s x \<and> legal stp allowed xs (stp x s)"

lemma run_ops_simps [simp]:
  "run_ops stp [] s = s"
  "run_ops stp (x # xs) s = run_ops stp xs (stp x s)"
  "run_ops stp (xs @ ys) s = run_ops stp ys (run_ops stp xs s)"
  by (simp_all add: run_ops_def)

locale invariant_ops =
  fixes stp :: "'o \<Rightarrow> 's \<Rightarrow> 's"
    and allowed :: "'s \<Rightarrow> 'o \<Rightarrow> bool"
    and inv :: "'s \<Rightarrow> bool"
  assumes step_inv: "inv s \<Longrightarrow> allowed s x \<Longrightarrow> inv (stp x s)"
begin

lemma run_inv: "inv s \<Longrightarrow> legal stp allowed xs s \<Longrightarrow> inv (run_ops stp xs s)"
  by (induction xs arbitrary: s) (simp_all add: step_inv)

end

locale commuting_ops =
  fixes stp :: "'o \<Rightarrow> 's \<Rightarrow> 's"
  assumes step_commute: "stp x (stp y s) = stp y (stp x s)"
begin

lemma run_perm: "mset xs = mset ys \<Longrightarrow> run_ops stp xs s = run_ops stp ys s"
  unfolding run_ops_def
  by (rule fun_cong [OF fold_multiset_equiv]) (simp_all add: fun_eq_iff step_commute)

end

locale labelled_runs =
  fixes stp :: "'s \<Rightarrow> 'l \<Rightarrow> 's \<Rightarrow> bool"
    and run :: "'s \<Rightarrow> 'l list \<Rightarrow> 's \<Rightarrow> bool"
  assumes run_none: "run s [] s"
    and run_more: "run s ls t \<Longrightarrow> stp t l u \<Longrightarrow> run s (ls @ [l]) u"
    and run_induct: "run s ls t \<Longrightarrow> I [] s \<Longrightarrow> (\<And>ls t l u. run s ls t \<Longrightarrow> I ls t \<Longrightarrow> stp t l u \<Longrightarrow> I (ls @ [l]) u) \<Longrightarrow> I ls t"
begin

lemma run_one: "stp s l t \<Longrightarrow> run s [l] t"
  using run_more [OF run_none, of s l t] by simp

lemma run_trans:
  assumes "run t ls' u" and "run s ls t"
  shows "run s (ls @ ls') u"
  using assms(1)
proof (rule run_induct)
  fix ls' t' l u' assume "run s (ls @ ls') t'" and "stp t' l u'"
  then show "run s (ls @ ls' @ [l]) u'" using run_more [of s "ls @ ls'"] by simp
qed (simp add: assms(2))

text \<open>At some moment of a run with the labels \<open>ls\<close> from \<open>s\<close> to \<open>t\<close>, the last one included, \<open>P\<close> held; the
  labels after that moment are known to \<open>P\<close>.\<close>

definition once :: "'s \<Rightarrow> ('l list \<Rightarrow> 's \<Rightarrow> bool) \<Rightarrow> 'l list \<Rightarrow> 's \<Rightarrow> bool" where
  "once s P ls t \<longleftrightarrow> (\<exists>ls1 u ls2. ls = ls1 @ ls2 \<and> run s ls1 u \<and> P ls2 u \<and> run u ls2 t)"

lemma once_now: "run s ls t \<Longrightarrow> P [] t \<Longrightarrow> once s P ls t"
  unfolding once_def using run_none by (intro exI [of _ ls] exI [of _ t] exI [of _ "[]"]) simp

lemma once_step:
  assumes "once s P ls t" and "stp t l u" and "\<And>ls' v. P ls' v \<Longrightarrow> Q (ls' @ [l]) v"
  shows "once s Q (ls @ [l]) u"
proof -
  obtain ls1 v ls2 where "ls = ls1 @ ls2" "run s ls1 v" "P ls2 v" "run v ls2 t"
    using assms(1) unfolding once_def by blast
  with run_more [OF _ assms(2), of v ls2] assms(3) show ?thesis
    unfolding once_def by (intro exI [of _ ls1] exI [of _ v] exI [of _ "ls2 @ [l]"]) simp
qed

text \<open>A run, whatever its labels: a step of a coarser system.\<close>

definition reaches :: "'s \<Rightarrow> 's \<Rightarrow> bool" where
  "reaches s t \<longleftrightarrow> (\<exists>ls. run s ls t)"

lemma reaches_refl: "reaches s s"
  unfolding reaches_def using run_none by blast

lemma reaches_step: "stp s l t \<Longrightarrow> reaches t u \<Longrightarrow> reaches s u"
  unfolding reaches_def using run_trans [OF _ run_one] by blast

lemma reaches_trans: "reaches s t \<Longrightarrow> reaches t u \<Longrightarrow> reaches s u"
  unfolding reaches_def using run_trans by blast

end

end
