(* ===== verification/Ws_Tunnel.thy ===== *)
theory Ws_Tunnel
  imports Proxy_Engine Rate_Limit Runs "HOL-Library.Sublist"
begin

text \<open>
  \<open>Handler::handle_ws_stream\<close> of \<open>src/src/p2p_server.rs\<close>: the handshake with the local WebSocket
  service and the two tasks that move messages. The tasks are a step function over events: an event
  is the point at which a task goes on, with what the outside answered (a frame read from the
  client, a message from the service, the success of a write). The WebSocket client is a parameter.
\<close>

section \<open>Opening the tunnel\<close>

text \<open>A request of the WebSocket client: the URL and its header map, whose names are unique.\<close>

record ws_request =
  wsr_url :: string
  wsr_headers :: "(string \<times> string) list"

datatype ws_connect = Connected u16 | ConnectFailed string | ConnectTimeout

datatype ws_error = BadUrl | AckWrite

datatype ws_opened = Refused | Session

definition ws_blocked_headers :: "string list" where
  "ws_blocked_headers =
     [''host'', ''connection'', ''upgrade'', ''sec-websocket-key'', ''sec-websocket-version'',
      ''sec-websocket-accept'', ''content-length'', ''origin'', ''referer'', ''user-agent'']"

fun ws_insert_headers :: "http_lib \<Rightarrow> (string \<times> string) list \<Rightarrow> (string \<times> string) list \<Rightarrow> (string \<times> string) list" where
  "ws_insert_headers H [] hdrs = hdrs"
| "ws_insert_headers H ((k, v) # hs) hdrs =
     (if to_ascii_lowercase k \<in> set ws_blocked_headers then ws_insert_headers H hs hdrs
      else
        (case header_name H k of
           None \<Rightarrow> ws_insert_headers H hs hdrs
         | Some hn \<Rightarrow>
             if header_value_ok H v then ws_insert_headers H hs (AList.update hn v hdrs)
             else ws_insert_headers H hs hdrs))"

text \<open>The reason of the source for a missing URL, its Russian part in UTF-8.\<close>

definition no_ws_url_reason :: "string \<Rightarrow> string" where
  "no_ws_url_reason target = ''provider '' @ [CHR 0x27] @ target @ [CHR 0x27] @ of_bytes
     [32, 208, 189, 208, 181, 32, 208, 184, 208, 188, 208, 181, 208, 181, 209, 130, 32, 108,
     111, 99, 97, 108, 95, 119, 115, 95, 117, 114, 108, 32, 208, 178, 32, 99, 111, 110, 102,
     105, 103, 46, 121, 97, 109, 108, 32, 40, 101, 110, 100, 112, 111, 105, 110, 116, 115, 46,
     60, 107, 101, 121, 62, 46, 108, 111, 99, 97, 108, 95, 119, 115, 95, 117, 114, 108, 41, 32,
     226, 128, 148, 32, 87, 83, 45, 209, 130, 209, 131, 208, 189, 208, 189, 208, 181, 208, 187,
     209, 140, 32, 208, 190, 209, 130, 208, 186, 208, 187, 209, 142, 209, 135, 209, 145, 208,
     189]"

definition refuse :: "'w writer \<Rightarrow> ('w \<Rightarrow> 'w) \<Rightarrow> string \<Rightarrow> 'w \<Rightarrow> 'w" where
  "refuse wr fin reason w = fin (snd (wr (encode (Close 1011 reason)) w))"

definition handshake_ack :: "json_lib \<Rightarrow> u16 \<Rightarrow> string" where
  "handshake_ack J status =
     (case json_print J (obj_of [(''status'', JPos (ucast status))]) of None \<Rightarrow> [] | Some b \<Rightarrow> of_bytes b)"

text \<open>\<open>client_request\<close> is \<open>into_client_request\<close>, \<open>None\<close> for a URL it refuses; \<open>connect\<close> is
  \<open>connect_async\<close> under the timeout of ten seconds.\<close>

definition ws_open ::
  "engine \<Rightarrow> http_lib \<Rightarrow> json_lib \<Rightarrow> (string \<Rightarrow> ws_request option) \<Rightarrow> (ws_request \<Rightarrow> ws_connect)
     \<Rightarrow> 'w writer \<Rightarrow> ('w \<Rightarrow> 'w) \<Rightarrow> mesh_packet \<Rightarrow> 'w \<Rightarrow> (ws_error + ws_opened) \<times> 'w" where
  "ws_open E H J client_request conn wr fin pkt w =
     (case ws_url_for E (target_provider pkt) (req_path pkt) of
        None \<Rightarrow> (Inr Refused, refuse wr fin (no_ws_url_reason (target_provider pkt)) w)
      | Some up_url \<Rightarrow>
          (case client_request up_url of
             None \<Rightarrow> (Inl BadUrl, w)
           | Some req \<Rightarrow>
               (case conn (req\<lparr>wsr_headers := ws_insert_headers H (req_headers pkt) (wsr_headers req)\<rparr>) of
                  ConnectFailed e \<Rightarrow> (Inr Refused, refuse wr fin (''upstream connect: '' @ e) w)
                | ConnectTimeout \<Rightarrow> (Inr Refused, refuse wr fin ''upstream connect timeout'' w)
                | Connected status \<Rightarrow>
                    (case wr (encode (Text (handshake_ack J status))) w of
                       (Inl e, w') \<Rightarrow> (Inl AckWrite, w')
                     | (Inr _, w') \<Rightarrow> (Inr Session, w')))))"

definition ws_peer_key :: "string \<Rightarrow> string \<Rightarrow> string" where
  "ws_peer_key peer target = peer @ '':ws:'' @ target"

section \<open>The two tasks\<close>

text \<open>Messages of the WebSocket library; \<open>MFrame\<close> is its raw frame, which the code ignores.\<close>

datatype tmsg =
    MText string
  | MBinary bytes
  | MPing bytes
  | MPong bytes
  | MClose "(u16 \<times> string) option"
  | MFrame

text \<open>How the client task waits for room in the queue: for five seconds at most, without limit, or
  without limit and then ends.\<close>

datatype send_mode = Timed | Waiting | Final

datatype client_task = Reading | Sending tmsg send_mode | Stopped

definition queue_cap :: nat where
  "queue_cap = 128"

record tunnel =
  t_limiter :: limiter
  client_to_up :: client_task
  queue :: "tmsg list"
  pump_on :: bool
  sent_up :: "tmsg list"
  sent_client :: "ws_frame list"
  finished :: bool
  returned :: bool
  accepted :: "tmsg list"
  heard_up :: "tmsg list"

text \<open>\<open>accepted\<close> and \<open>heard_up\<close> are history: the messages taken from the client after the rate limit,
  and those read from the service.\<close>

definition tunnel_start :: "limiter \<Rightarrow> tunnel" where
  "tunnel_start l =
     \<lparr>t_limiter = l, client_to_up = Reading, queue = [], pump_on = True, sent_up = [], sent_client = [],
      finished = False, returned = False, accepted = [], heard_up = []\<rparr>"

definition safe_code :: "u16 \<Rightarrow> u16" where
  "safe_code code = (if code = 1005 \<or> code = 1006 \<or> code = 1015 then 1000 else code)"

fun client_msg :: "ws_frame \<Rightarrow> tmsg \<times> send_mode" where
  "client_msg (Text t) = (MText t, Timed)"
| "client_msg (Binary b) = (MBinary b, Timed)"
| "client_msg (Ping p) = (MPing p, Waiting)"
| "client_msg (Pong p) = (MPong p, Waiting)"
| "client_msg (Close code reason) = (MClose (Some (safe_code code, reason)), Final)"

text \<open>What the pump writes to the client for a message, whether it ends when the write fails, and
  whether it ends anyway.\<close>

fun up_frame :: "tmsg \<Rightarrow> (ws_frame \<times> bool \<times> bool) option" where
  "up_frame (MText t) = Some (Text t, True, False)"
| "up_frame (MBinary b) = Some (Binary b, True, False)"
| "up_frame (MPing p) = Some (Ping p, False, False)"
| "up_frame (MPong p) = Some (Pong p, False, False)"
| "up_frame (MClose cf) =
     (case cf of None \<Rightarrow> Some (Close 1000 [], False, True) | Some (c, r) \<Rightarrow> Some (Close c r, False, True))"
| "up_frame MFrame = None"

datatype tunnel_event =
    ClientRead "proto_error + ws_frame option" nat
  | Push
  | PushTimeout
  | PushClosed
  | Deliver bool
  | UpstreamMsg tmsg bool
  | UpstreamEnd
  | SessionEnd
  | Expire

definition stop_pump :: "tunnel \<Rightarrow> tunnel" where
  "stop_pump t = t\<lparr>pump_on := False, finished := True\<rparr>"

definition take_frame :: "string \<Rightarrow> u32 \<Rightarrow> nat \<Rightarrow> ws_frame \<Rightarrow> tunnel \<Rightarrow> tunnel" where
  "take_frame key rate now f t =
     (case client_msg f of
        (m, mode) \<Rightarrow>
          (if mode = Timed then
             (case allow (t_limiter t) now key rate of
                (l, ok) \<Rightarrow>
                  (if ok then t\<lparr>t_limiter := l, client_to_up := Sending m mode, accepted := accepted t @ [m]\<rparr>
                   else t\<lparr>t_limiter := l\<rparr>))
           else t\<lparr>client_to_up := Sending m mode, accepted := accepted t @ [m]\<rparr>))"

text \<open>One step; an event that cannot happen in a state leaves it as it is.\<close>

fun tunnel_step :: "string \<Rightarrow> u32 \<Rightarrow> tunnel_event \<Rightarrow> tunnel \<Rightarrow> tunnel" where
  "tunnel_step key rate (ClientRead r now) t =
     (if client_to_up t \<noteq> Reading then t
      else (case r of
              Inr (Some f) \<Rightarrow> take_frame key rate now f t
            | _ \<Rightarrow> t\<lparr>client_to_up := Stopped\<rparr>))"
| "tunnel_step key rate Push t =
     (case client_to_up t of
        Sending m mode \<Rightarrow>
          (if pump_on t \<and> length (queue t) < queue_cap
           then t\<lparr>queue := queue t @ [m], client_to_up := (if mode = Final then Stopped else Reading)\<rparr>
           else t)
      | _ \<Rightarrow> t)"
| "tunnel_step key rate PushTimeout t =
     (case client_to_up t of
        Sending m Timed \<Rightarrow>
          (if pump_on t \<and> queue_cap \<le> length (queue t) then t\<lparr>client_to_up := Stopped\<rparr> else t)
      | _ \<Rightarrow> t)"
| "tunnel_step key rate PushClosed t =
     (case client_to_up t of
        Sending m mode \<Rightarrow>
          (if pump_on t then t
           else t\<lparr>client_to_up := (if mode = Waiting then Reading else Stopped)\<rparr>)
      | _ \<Rightarrow> t)"
| "tunnel_step key rate (Deliver ok) t =
     (case queue t of
        [] \<Rightarrow> t
      | m # q \<Rightarrow>
          (if \<not> pump_on t then t
           else if ok then t\<lparr>queue := q, sent_up := sent_up t @ [m]\<rparr>
           else stop_pump (t\<lparr>queue := q\<rparr>)))"
| "tunnel_step key rate (UpstreamMsg m ok) t =
     (if \<not> pump_on t then t
      else
        (let t' = t\<lparr>heard_up := heard_up t @ [m]\<rparr> in
         (case up_frame m of
            None \<Rightarrow> t'
          | Some (f, breaks, ends) \<Rightarrow>
              (let t' = (if ok then t'\<lparr>sent_client := sent_client t' @ [f]\<rparr> else t')
               in (if ends \<or> breaks \<and> \<not> ok then stop_pump t' else t')))))"
| "tunnel_step key rate UpstreamEnd t = (if pump_on t then stop_pump t else t)"
| "tunnel_step key rate SessionEnd t =
     (if \<not> returned t \<and> (client_to_up t = Stopped \<or> \<not> pump_on t)
      then t\<lparr>client_to_up := Stopped, pump_on := False, returned := True\<rparr> else t)"
| "tunnel_step key rate Expire t = t\<lparr>returned := True\<rparr>"

section \<open>The invariant\<close>

fun pending :: "client_task \<Rightarrow> tmsg list" where
  "pending (Sending m mode) = [m]"
| "pending _ = []"

fun is_close :: "tmsg \<Rightarrow> bool" where
  "is_close (MClose cf) = True"
| "is_close _ = False"

text \<open>Messages that the WebSocket library can put on the wire: no reserved close code.\<close>

fun sendable :: "tmsg \<Rightarrow> bool" where
  "sendable (MClose (Some (c, r))) \<longleftrightarrow> c \<noteq> 1005 \<and> c \<noteq> 1006 \<and> c \<noteq> 1015"
| "sendable (MClose None) = False"
| "sendable MFrame = False"
| "sendable _ = True"

definition closing :: "client_task \<Rightarrow> bool" where
  "closing c \<longleftrightarrow> c = Stopped \<or> (\<exists>m. c = Sending m Final)"

definition up_ok :: "tunnel \<Rightarrow> bool" where
  "up_ok t \<longleftrightarrow>
     prefix (sent_up t) (accepted t) \<and> length (queue t) \<le> queue_cap \<and>
     (pump_on t \<longrightarrow> prefix (sent_up t @ queue t) (accepted t)) \<and>
     (pump_on t \<and> client_to_up t \<noteq> Stopped \<longrightarrow> accepted t = sent_up t @ queue t @ pending (client_to_up t))"

definition close_ok :: "tunnel \<Rightarrow> bool" where
  "close_ok t \<longleftrightarrow>
     list_all sendable (accepted t) \<and> list_all (\<lambda>m. \<not> is_close m) (butlast (accepted t)) \<and>
     (\<not> closing (client_to_up t) \<longrightarrow> list_all (\<lambda>m. \<not> is_close m) (accepted t)) \<and>
     (\<forall>m. client_to_up t = Sending m Final \<longrightarrow> accepted t \<noteq> [])"

definition down_ok :: "tunnel \<Rightarrow> bool" where
  "down_ok t \<longleftrightarrow> subseq (sent_client t) (List.map_filter (\<lambda>m. map_option fst (up_frame m)) (heard_up t))"

definition tunnel_ok :: "tunnel \<Rightarrow> bool" where
  "tunnel_ok t \<longleftrightarrow> up_ok t \<and> close_ok t \<and> down_ok t"

lemmas tunnel_ok_defs = tunnel_ok_def up_ok_def close_ok_def down_ok_def

lemma client_msg_props:
  "client_msg f = (m, mode) \<Longrightarrow> sendable m \<and> (mode = Final \<longleftrightarrow> is_close m)"
  by (cases f) (auto simp: safe_code_def)

lemma take_frame_cases:
  obtains (drop) l where "take_frame key rate now f t = t\<lparr>t_limiter := l\<rparr>"
  | (take) l m mode where "client_msg f = (m, mode)"
    and "take_frame key rate now f t =
      t\<lparr>t_limiter := l, client_to_up := Sending m mode, accepted := accepted t @ [m]\<rparr>"
proof (cases "client_msg f")
  case (Pair m mode)
  show ?thesis
  proof (cases "mode = Timed")
    case True
    obtain l ok where a: "allow (t_limiter t) now key rate = (l, ok)" by fastforce
    show ?thesis
    proof (cases ok)
      case ok: True
      show ?thesis by (rule take [OF Pair]) (simp add: take_frame_def Pair True a ok)
    next
      case False
      show ?thesis by (rule drop) (simp add: take_frame_def Pair True a False)
    qed
  next
    case False
    then show ?thesis by (intro take [OF Pair, of "t_limiter t"]) (simp add: take_frame_def Pair)
  qed
qed

lemma take_frame_ok:
  assumes "tunnel_ok t" and "client_to_up t = Reading"
  shows "tunnel_ok (take_frame key rate now f t)"
proof (rule take_frame_cases [of key rate now f t])
  fix l assume "take_frame key rate now f t = t\<lparr>t_limiter := l\<rparr>"
  with assms show ?thesis by (simp add: tunnel_ok_defs)
next
  fix l m mode assume m: "client_msg f = (m, mode)" and
    eq: "take_frame key rate now f t = t\<lparr>t_limiter := l, client_to_up := Sending m mode, accepted := accepted t @ [m]\<rparr>"
  have old: "list_all (\<lambda>m. \<not> is_close m) (accepted t)"
    using assms by (simp add: tunnel_ok_def close_ok_def closing_def)
  with assms client_msg_props [OF m] show ?thesis
    by (auto simp: eq tunnel_ok_defs closing_def)
qed

text \<open>Steps that only let a task end, or move a message towards the service.\<close>

lemma stop_pump_ok: "tunnel_ok t \<Longrightarrow> tunnel_ok (stop_pump t)"
  by (simp add: tunnel_ok_defs stop_pump_def)

lemma stop_client_ok: "tunnel_ok t \<Longrightarrow> tunnel_ok (t\<lparr>client_to_up := Stopped\<rparr>)"
  by (simp add: tunnel_ok_defs closing_def)

lemma push_ok:
  assumes "tunnel_ok t" and "client_to_up t = Sending m mode" and "pump_on t" and "length (queue t) < queue_cap"
  shows "tunnel_ok (t\<lparr>queue := queue t @ [m], client_to_up := (if mode = Final then Stopped else Reading)\<rparr>)"
  using assms by (auto simp: tunnel_ok_defs closing_def)

lemma deliver_ok:
  assumes "tunnel_ok t" and "queue t = m # q" and "pump_on t"
  shows "tunnel_ok (t\<lparr>queue := q, sent_up := sent_up t @ [m]\<rparr>)" and "tunnel_ok (stop_pump (t\<lparr>queue := q\<rparr>))"
proof -
  have "prefix (sent_up t @ [m]) (sent_up t @ queue t)" by (simp add: assms(2))
  with assms(1,3) have "prefix (sent_up t @ [m]) (accepted t)"
    unfolding tunnel_ok_def up_ok_def using prefix_order.trans by blast
  with assms show "tunnel_ok (t\<lparr>queue := q, sent_up := sent_up t @ [m]\<rparr>)"
    by (simp add: tunnel_ok_defs)
  show "tunnel_ok (stop_pump (t\<lparr>queue := q\<rparr>))"
    using assms by (simp add: tunnel_ok_defs stop_pump_def)
qed

lemma subseq_snoc: "subseq xs ys \<Longrightarrow> subseq xs (ys @ zs)" "subseq xs ys \<Longrightarrow> subseq (xs @ [z]) (ys @ [z])"
  by (auto intro: list_emb_append_mono)

lemma upstream_msg_ok:
  assumes "tunnel_ok t" and "up_frame m = r"
  shows "tunnel_ok (case r of None \<Rightarrow> t\<lparr>heard_up := heard_up t @ [m]\<rparr>
    | Some (f, b) \<Rightarrow> (if ok then t\<lparr>heard_up := heard_up t @ [m], sent_client := sent_client t @ [f]\<rparr>
                       else t\<lparr>heard_up := heard_up t @ [m]\<rparr>))"
  using assms subseq_snoc
  by (auto simp: tunnel_ok_defs List.map_filter_simps map_filter_append
      split: option.split)

lemma tunnel_step_ok:
  assumes "tunnel_ok t"
  shows "tunnel_ok (tunnel_step key rate e t)"
proof (cases e)
  case (ClientRead r now)
  with assms take_frame_ok stop_client_ok show ?thesis by (auto split: sum.split option.split)
next
  case Push
  with assms push_ok show ?thesis by (simp split: client_task.split)
next
  case PushTimeout
  with assms stop_client_ok show ?thesis by (simp split: client_task.split send_mode.split)
next
  case PushClosed
  have "tunnel_ok (t\<lparr>client_to_up := Reading\<rparr>)"
    if "client_to_up t = Sending m Waiting" and "\<not> pump_on t" for m
    using that assms by (auto simp: tunnel_ok_defs closing_def)
  with PushClosed assms stop_client_ok show ?thesis
    by (auto split: client_task.split send_mode.split)
next
  case (Deliver ok)
  with assms deliver_ok show ?thesis by (simp split: list.split)
next
  case (UpstreamMsg m ok)
  note U = upstream_msg_ok [OF assms, of m "up_frame m" ok]
  show ?thesis
  proof (cases "up_frame m")
    case None
    with UpstreamMsg assms U show ?thesis by simp
  next
    case (Some r)
    obtain f b c where "r = (f, b, c)" by (cases r) auto
    with UpstreamMsg Some assms U stop_pump_ok [OF U] show ?thesis
      by (cases ok) (simp_all add: Let_def)
  qed
next
  case UpstreamEnd
  with assms stop_pump_ok show ?thesis by simp
next
  case SessionEnd
  with assms show ?thesis
    by (auto simp: tunnel_ok_defs closing_def)
next
  case Expire
  with assms show ?thesis by (simp add: tunnel_ok_defs)
qed

interpretation tunnel: invariant_ops "tunnel_step key rate" "\<lambda>_ _. True" tunnel_ok for key rate
  by unfold_locales (rule tunnel_step_ok)

lemma legal_True: "legal stp (\<lambda>_ _. True) xs s"
  by (induction xs arbitrary: s) simp_all

definition tunnel_run :: "string \<Rightarrow> u32 \<Rightarrow> limiter \<Rightarrow> tunnel_event list \<Rightarrow> tunnel" where
  "tunnel_run key rate l es = run_ops (tunnel_step key rate) es (tunnel_start l)"

lemma tunnel_run_ok: "tunnel_ok (tunnel_run key rate l es)"
  unfolding tunnel_run_def
  by (rule tunnel.run_inv [OF _ legal_True])
    (simp add: tunnel_ok_defs tunnel_start_def closing_def List.map_filter_simps)

section \<open>The abstract channel\<close>

text \<open>
  What the client's direction of a tunnel promises, without tasks, limits and failures of writes: a
  first-in first-out channel of bounded length that can be cut, after which nothing more is put in.
\<close>

record fifo =
  delivered :: "tmsg list"
  inflight :: "tmsg list"
  is_open :: bool

inductive fifo_step :: "fifo \<Rightarrow> fifo \<Rightarrow> bool" where
  stay: "fifo_step c c"
| put: "is_open c \<Longrightarrow> length (inflight c) \<le> queue_cap \<Longrightarrow> fifo_step c (c\<lparr>inflight := inflight c @ [m]\<rparr>)"
| get: "inflight c = m # q \<Longrightarrow> fifo_step c (c\<lparr>delivered := delivered c @ [m], inflight := q\<rparr>)"
| cut: "inflight c = q @ r \<Longrightarrow> fifo_step c (c\<lparr>inflight := q, is_open := False\<rparr>)"

definition tunnel_abs :: "tunnel \<Rightarrow> fifo" where
  "tunnel_abs t =
     \<lparr>delivered = sent_up t,
      inflight = (if pump_on t then queue t @ pending (client_to_up t) else []),
      is_open = pump_on t \<and> client_to_up t \<noteq> Stopped\<rparr>"

lemma fifo_cut:
  "inflight c = q @ r \<Longrightarrow> c' = c\<lparr>inflight := q, is_open := False\<rparr> \<Longrightarrow> fifo_step c c'"
  by (simp add: fifo_step.cut)

lemma fifo_stay: "c' = c \<Longrightarrow> fifo_step c c'"
  by (simp add: fifo_step.stay)

lemma fifo_close: "fifo_step c (c\<lparr>inflight := [], is_open := False\<rparr>)"
  by (rule fifo_cut [where q = "[]"]) simp_all

lemma stop_pump_cut: "tunnel_abs (stop_pump t) = (tunnel_abs t)\<lparr>inflight := [], is_open := False\<rparr>"
  by (simp add: tunnel_abs_def stop_pump_def)

lemma heard_abs:
  "tunnel_abs (t\<lparr>heard_up := hs\<rparr>) = tunnel_abs t" "tunnel_abs (t\<lparr>sent_client := cs\<rparr>) = tunnel_abs t"
  by (simp_all add: tunnel_abs_def)

lemma take_frame_abs:
  assumes "tunnel_ok t" and "client_to_up t = Reading"
  shows "fifo_step (tunnel_abs t) (tunnel_abs (take_frame key rate now f t))"
proof (rule take_frame_cases [of key rate now f t])
  fix l assume "take_frame key rate now f t = t\<lparr>t_limiter := l\<rparr>"
  then show ?thesis by (intro fifo_stay) (simp add: tunnel_abs_def)
next
  fix l m mode assume eq: "take_frame key rate now f t =
    t\<lparr>t_limiter := l, client_to_up := Sending m mode, accepted := accepted t @ [m]\<rparr>"
  show ?thesis
  proof (cases "pump_on t")
    case True
    then have "tunnel_abs (take_frame key rate now f t) = (tunnel_abs t)\<lparr>inflight := inflight (tunnel_abs t) @ [m]\<rparr>"
      using assms(2) by (simp add: eq tunnel_abs_def)
    moreover have "is_open (tunnel_abs t)" and "length (inflight (tunnel_abs t)) \<le> queue_cap"
      using True assms by (simp_all add: tunnel_abs_def tunnel_ok_def up_ok_def)
    ultimately show ?thesis by (simp add: fifo_step.put)
  next
    case False
    then show ?thesis by (intro fifo_stay) (simp add: eq tunnel_abs_def)
  qed
qed

lemma tunnel_step_abs:
  assumes "tunnel_ok t"
  shows "fifo_step (tunnel_abs t) (tunnel_abs (tunnel_step key rate e t))"
proof (cases e)
  case (ClientRead r now)
  have "fifo_step (tunnel_abs t) (tunnel_abs (t\<lparr>client_to_up := Stopped\<rparr>))" if "client_to_up t = Reading"
    by (rule fifo_cut [where r = "[]"]) (auto simp: tunnel_abs_def that)
  with ClientRead take_frame_abs [OF assms] show ?thesis
    by (auto intro: fifo_stay split: sum.split option.split)
next
  case Push
  show ?thesis
  proof (cases "client_to_up t")
    case (Sending m mode)
    show ?thesis
    proof (cases "pump_on t \<and> length (queue t) < queue_cap")
      case True
      show ?thesis
      proof (cases "mode = Final")
        case final: True
        show ?thesis by (rule fifo_cut [where r = "[]"]) (auto simp: Push Sending True final tunnel_abs_def)
      next
        case False
        show ?thesis by (rule fifo_stay) (simp add: Push Sending True False tunnel_abs_def)
      qed
    next
      case False
      have "tunnel_step key rate e t = t"
        using False by (simp only: Push tunnel_step.simps Sending client_task.simps if_False)
      then show ?thesis by (intro fifo_stay) simp
    qed
  qed (simp_all add: Push fifo_step.stay)
next
  case PushTimeout
  have "fifo_step (tunnel_abs t) (tunnel_abs (t\<lparr>client_to_up := Stopped\<rparr>))"
    if "client_to_up t = Sending m Timed" and "pump_on t" for m
    by (rule fifo_cut [where q = "queue t" and r = "[m]"]) (simp_all add: tunnel_abs_def that)
  with PushTimeout show ?thesis by (auto intro: fifo_stay split: client_task.split send_mode.split)
next
  case PushClosed
  then show ?thesis
    by (intro fifo_stay) (simp add: tunnel_abs_def split: client_task.split)
next
  case (Deliver ok)
  show ?thesis
  proof (cases "queue t")
    case (Cons m q)
    have "fifo_step (tunnel_abs t) (tunnel_abs (t\<lparr>queue := q, sent_up := sent_up t @ [m]\<rparr>))" if "pump_on t"
      using fifo_step.get [of "tunnel_abs t" m "q @ pending (client_to_up t)"] Cons that
      by (simp add: tunnel_abs_def)
    moreover have "tunnel_abs (stop_pump (t\<lparr>queue := q\<rparr>)) = (tunnel_abs t)\<lparr>inflight := [], is_open := False\<rparr>"
      by (simp add: tunnel_abs_def stop_pump_def)
    then have "fifo_step (tunnel_abs t) (tunnel_abs (stop_pump (t\<lparr>queue := q\<rparr>)))" by (simp add: fifo_close)
    ultimately show ?thesis using Deliver Cons by (auto intro: fifo_stay)
  qed (simp add: Deliver fifo_step.stay)
next
  case (UpstreamMsg m ok)
  then show ?thesis
    by (auto simp add: Let_def stop_pump_cut heard_abs fifo_close fifo_step.stay split: option.split prod.split)
next
  case UpstreamEnd
  then show ?thesis by (simp add: stop_pump_cut fifo_close fifo_step.stay)
next
  case SessionEnd
  have "fifo_step (tunnel_abs t) (tunnel_abs (t\<lparr>client_to_up := Stopped, pump_on := False, returned := True\<rparr>))"
    by (rule fifo_cut [where q = "[]"]) (auto simp: tunnel_abs_def)
  with SessionEnd show ?thesis by (auto intro: fifo_stay)
next
  case Expire
  then show ?thesis by (intro fifo_stay) (simp add: tunnel_abs_def)
qed

section \<open>Properties\<close>

text \<open>In every interleaving of the tasks and whatever fails, the service has received, in order and
  without repetition, a beginning of the messages taken from the client, and the client only
  messages of the service, in order; at most 128 messages wait in between.\<close>

theorem tunnel_in_order:
  "prefix (sent_up (tunnel_run key rate l es)) (accepted (tunnel_run key rate l es))
    \<and> length (queue (tunnel_run key rate l es)) \<le> 128
    \<and> subseq (sent_client (tunnel_run key rate l es))
        (List.map_filter (\<lambda>m. map_option fst (up_frame m)) (heard_up (tunnel_run key rate l es)))"
  using tunnel_run_ok [of key rate l es] by (simp add: tunnel_ok_def up_ok_def down_ok_def queue_cap_def)

text \<open>C22: the service is never sent a reserved close code, and nothing after a close message.\<close>

theorem tunnel_close_sendable:
  "list_all sendable (sent_up (tunnel_run key rate l es))
    \<and> list_all (\<lambda>m. \<not> is_close m) (butlast (sent_up (tunnel_run key rate l es)))"
proof -
  let ?t = "tunnel_run key rate l es"
  obtain zs where a: "accepted ?t = sent_up ?t @ zs"
    using tunnel_run_ok [of key rate l es] by (auto simp: tunnel_ok_def up_ok_def prefix_def)
  have "list_all sendable (sent_up ?t @ zs)" and "list_all (\<lambda>m. \<not> is_close m) (butlast (sent_up ?t @ zs))"
    using tunnel_run_ok [of key rate l es] by (simp_all add: tunnel_ok_def close_ok_def flip: a)
  then show ?thesis by (auto simp: butlast_append list_all_iff split: if_splits dest: in_set_butlastD)
qed

lemma deliver_all:
  "pump_on t \<Longrightarrow> sent_up (run_ops (tunnel_step key rate) (replicate (length (queue t)) (Deliver True)) t) = sent_up t @ queue t"
proof (induction "queue t" arbitrary: t)
  case (Cons m q)
  then have "sent_up (run_ops (tunnel_step key rate) (replicate (length q) (Deliver True))
      (t\<lparr>queue := q, sent_up := sent_up t @ [m]\<rparr>)) = sent_up t @ m # q"
    using Cons.hyps(1) [of "t\<lparr>queue := q, sent_up := sent_up t @ [m]\<rparr>"] by simp
  with Cons.hyps(2) [symmetric] Cons.prems show ?case by simp
qed simp

text \<open>C18: the tunnel implements the channel: at every point of every run, a step of a task is a step of
  the channel or none.\<close>

theorem tunnel_refines_fifo:
  "tunnel_abs (tunnel_run key rate l []) = \<lparr>delivered = [], inflight = [], is_open = True\<rparr>
    \<and> fifo_step (tunnel_abs (tunnel_run key rate l es)) (tunnel_abs (tunnel_run key rate l (es @ [e])))"
  using tunnel_step_abs [OF tunnel_run_ok [of key rate l es], of key rate e]
  by (simp add: tunnel_run_def tunnel_abs_def tunnel_start_def)

text \<open>Nothing is stuck: while the pump runs and the client task is ready for the next frame, the
  messages in the queue are all that is missing, and delivering them completes the sequence.\<close>

theorem tunnel_delivers:
  assumes "pump_on (tunnel_run key rate l es)" and "client_to_up (tunnel_run key rate l es) = Reading"
  shows "sent_up (tunnel_run key rate l (es @ replicate (length (queue (tunnel_run key rate l es))) (Deliver True)))
    = accepted (tunnel_run key rate l es)"
  using assms tunnel_run_ok [of key rate l es] deliver_all [OF assms(1), of key rate]
  by (simp add: tunnel_run_def tunnel_ok_def up_ok_def)

lemma tunnel_delivers_witness:
  "sent_up (tunnel_run ''k'' 0 limiter_new ([ClientRead (Inr (Some (Text ''a''))) 0, Push]
      @ replicate (length (queue (tunnel_run ''k'' 0 limiter_new [ClientRead (Inr (Some (Text ''a''))) 0, Push]))) (Deliver True)))
    = accepted (tunnel_run ''k'' 0 limiter_new [ClientRead (Inr (Some (Text ''a''))) 0, Push])"
  by (rule tunnel_delivers)
    (simp_all add: tunnel_run_def tunnel_start_def take_frame_def allow_def queue_cap_def)

text \<open>A client that closes after a message can have both lost: the client task ends once they are
  in the queue, and the end of either task stops the other.\<close>

theorem close_may_be_lost:
  "(let t = tunnel_run ''k'' 0 limiter_new
      [ClientRead (Inr (Some (Text ''a''))) 0, Push, ClientRead (Inr (Some (Close 1000 []))) 0, Push,
       SessionEnd, Deliver True, Deliver True]
    in (sent_up t, queue t)) = ([], [MText ''a'', MClose (Some (1000, []))])"
  by code_simp

text \<open>Once the handler has returned, the end of one task does not stop the other any more, and nothing
  else looks at the flag.\<close>

definition is_session_end :: "tunnel_event \<Rightarrow> bool" where
  "is_session_end e \<longleftrightarrow> e = SessionEnd"

lemma step_returned:
  "\<not> is_session_end e \<Longrightarrow> e \<noteq> Expire \<Longrightarrow>
     tunnel_step key rate e (t\<lparr>returned := True\<rparr>) = (tunnel_step key rate e t)\<lparr>returned := True\<rparr>"
  by (cases e)
    (auto simp: is_session_end_def take_frame_def stop_pump_def Let_def
      split: sum.split option.split list.split client_task.split send_mode.split prod.split)

lemma run_returned:
  "run_ops (tunnel_step key rate) es (t\<lparr>returned := True\<rparr>)
     = (run_ops (tunnel_step key rate) (filter (\<lambda>e. \<not> is_session_end e) es) t)\<lparr>returned := True\<rparr>"
proof (induction es arbitrary: t)
  case (Cons e es)
  consider (ended) "e = SessionEnd" | (again) "e = Expire" | (other) "\<not> is_session_end e" "e \<noteq> Expire"
    by (auto simp: is_session_end_def)
  then show ?case
  proof cases
    case ended
    then show ?thesis using Cons.IH [of t] by (simp add: is_session_end_def)
  next
    case again
    then show ?thesis using Cons.IH [of "t\<lparr>returned := True\<rparr>"] by (simp add: is_session_end_def)
  next
    case other
    then show ?thesis using Cons.IH [of "tunnel_step key rate e t"] by (simp add: step_returned)
  qed
qed simp

text \<open>C37: the limit of 24 hours ends the handler and not the session: what happens afterwards is what
  would have happened without it, in both directions, except that now nothing stops a task when
  the other has ended.\<close>

theorem expired_tunnel_runs_on:
  "sent_up (tunnel_run key rate l (es @ Expire # fs))
     = sent_up (tunnel_run key rate l (es @ filter (\<lambda>e. \<not> is_session_end e) fs))
   \<and> sent_client (tunnel_run key rate l (es @ Expire # fs))
     = sent_client (tunnel_run key rate l (es @ filter (\<lambda>e. \<not> is_session_end e) fs))
   \<and> returned (tunnel_run key rate l (es @ Expire # fs))"
  by (simp add: tunnel_run_def run_returned)

lemma handshake_ack_reads:
  assumes "json_ok J"
  shows "json_read J (as_bytes (handshake_ack J status)) = Some (obj_of [(''status'', JPos (ucast status))])"
proof -
  have "json_wf (obj_of [(''status'', JPos (ucast status) :: f64 json)])"
    and "json_depth (obj_of [(''status'', JPos (ucast status) :: f64 json)]) < 128"
    by (rule json_obj_of; simp)+
  from json_print_read [OF assms this] show ?thesis
    by (auto simp: handshake_ack_def obj_of_def)
qed

text \<open>C40: what a client of a tunnel sees first, on each branch. Without a WebSocket URL for the name it is a
  close 1011 that says so; for a URL that the WebSocket client refuses it is nothing; when the service
  cannot be reached, or not in time, it is a close 1011 with the error, or that there was none; and only
  when the service has accepted, with the client's admissible headers, it is the acknowledgement, whose
  JSON has the service's status.\<close>

theorem ws_open_first_frame:
  assumes "writer_ok wr out" and "\<And>bs v. fst (wr bs v) = Inr ()" and "\<And>v. out (fin v) = out v" and "json_ok J"
    and "ws_open E H J client_request conn wr fin pkt w = (r, w')"
  shows "case ws_url_for E (target_provider pkt) (req_path pkt) of
      None \<Rightarrow> r = Inr Refused \<and> out w' = out w @ encode (Close 1011 (no_ws_url_reason (target_provider pkt)))
    | Some u \<Rightarrow> (case client_request u of
        None \<Rightarrow> r = Inl BadUrl \<and> w' = w
      | Some req \<Rightarrow> (case conn (req\<lparr>wsr_headers := ws_insert_headers H (req_headers pkt) (wsr_headers req)\<rparr>) of
          ConnectFailed e \<Rightarrow> r = Inr Refused \<and> out w' = out w @ encode (Close 1011 (''upstream connect: '' @ e))
        | ConnectTimeout \<Rightarrow> r = Inr Refused \<and> out w' = out w @ encode (Close 1011 ''upstream connect timeout'')
        | Connected status \<Rightarrow> r = Inr Session \<and> (\<exists>ack. out w' = out w @ encode (Text ack)
            \<and> json_read J (as_bytes ack) = Some (obj_of [(''status'', JPos (ucast status))]))))"
proof -
  have put: "out (snd (wr bs v)) = out v @ bs" for bs v
    using assms(1,2) by (simp add: writer_ok_def)
  have ref: "out (refuse wr fin reason v) = out v @ encode (Close 1011 reason)" for reason v
    by (simp add: refuse_def assms(3) put)
  have ack: "wr bs v = (Inr (), v') \<Longrightarrow> out v' = out v @ bs" for bs v v'
    using put [of bs v] by simp
  have no_err: "wr bs v \<noteq> (Inl e, v')" for bs v v' e
    using assms(2) [of bs v] by auto
  show ?thesis
    using assms(5) unfolding ws_open_def using ref ack no_err handshake_ack_reads [OF assms(4)]
    by (auto split: option.splits ws_connect.splits sum.splits prod.splits)
qed

lemma ws_open_first_frame_witness:
  "\<exists>w' ack. ws_open (demo_engine\<lparr>by_name := engine_names [(demo_endpoint ''x'' ''http://l'')\<lparr>local_ws_url := Some ''ws://l''\<rparr>]\<rparr>)
      demo_http demo_json (\<lambda>u. Some \<lparr>wsr_url = u, wsr_headers = []\<rparr>) (\<lambda>r. Connected 101) vec_write id
      (demo_packet ''/'' [] []) [] = (Inr Session, w')
    \<and> w' = encode (Text ack) \<and> json_read demo_json (as_bytes ack) = Some (obj_of [(''status'', JPos 101)])"
proof -
  let ?E = "demo_engine\<lparr>by_name := engine_names [(demo_endpoint ''x'' ''http://l'')\<lparr>local_ws_url := Some ''ws://l''\<rparr>]\<rparr>"
  let ?pkt = "demo_packet ''/'' [] []"
  obtain r w' where o: "ws_open ?E demo_http demo_json (\<lambda>u. Some \<lparr>wsr_url = u, wsr_headers = []\<rparr>) (\<lambda>r. Connected 101)
      vec_write id ?pkt [] = (r, w')" by fastforce
  have "ws_url_for ?E (target_provider ?pkt) (req_path ?pkt) = Some ''ws://l/''"
    by (simp add: ws_url_for_def resolve_def lookup_engine_names demo_endpoint_def demo_packet_def trim_end_matches_def)
  then show ?thesis
    using ws_open_first_frame [OF vec_write_ok _ _ demo_json_ok o] o by (simp add: vec_write_def)
qed

end
