(* ===== verification/Stats.thy ===== *)
theory Stats
  imports Runs Peers
begin

text \<open>
  \<open>src/src/stats.rs\<close>: the counters, the connection gauge with its guard, the status of the local
  RPCs and the tables behind \<open>/status\<close> and \<open>/peers\<close>. Each atomic operation is one step, and tasks
  interleave them. Counters are \<open>AtomicU64\<close> and wrap around. The page itself is static text and is
  left out.
\<close>

section \<open>State\<close>

record rpc_status =
  rpc_name :: string
  online :: bool
  rpc_latency_ms :: u64
  rpc_protocols :: "string list"

record stats =
  started :: nat
  st_node_id :: string
  quic_udp_port :: u16
  requests_total :: u64
  requests_proxied :: u64
  requests_relayed :: u64
  requests_rejected :: u64
  active_peers :: u64
  active_connections :: u64
  st_dht_enabled :: bool
  dht_nodes :: u64
  rpc :: "rpc_status list"

definition stats_new :: "nat \<Rightarrow> string \<Rightarrow> u16 \<Rightarrow> bool \<Rightarrow> stats" where
  "stats_new now node_id port dht =
     \<lparr>started = now, st_node_id = node_id, quic_udp_port = port, requests_total = 0,
      requests_proxied = 0, requests_relayed = 0, requests_rejected = 0, active_peers = 0,
      active_connections = 0, st_dht_enabled = dht, dht_nodes = 0, rpc = []\<rparr>"

section \<open>Operations\<close>

text \<open>Instants are nanoseconds, as in the rate limiter.\<close>

definition uptime_secs :: "nat \<Rightarrow> stats \<Rightarrow> u64" where
  "uptime_secs now s = of_nat ((now - started s) div 10 ^ 9)"

definition inc_total :: "stats \<Rightarrow> stats" where
  "inc_total s = s\<lparr>requests_total := requests_total s + 1\<rparr>"

definition inc_proxied :: "stats \<Rightarrow> stats" where
  "inc_proxied s = s\<lparr>requests_proxied := requests_proxied s + 1\<rparr>"

definition inc_relayed :: "stats \<Rightarrow> stats" where
  "inc_relayed s = s\<lparr>requests_relayed := requests_relayed s + 1\<rparr>"

definition inc_rejected :: "stats \<Rightarrow> stats" where
  "inc_rejected s = s\<lparr>requests_rejected := requests_rejected s + 1\<rparr>"

definition set_active_peers :: "u64 \<Rightarrow> stats \<Rightarrow> stats" where
  "set_active_peers n s = s\<lparr>active_peers := n\<rparr>"

definition set_dht_nodes :: "u64 \<Rightarrow> stats \<Rightarrow> stats" where
  "set_dht_nodes n s = s\<lparr>dht_nodes := n\<rparr>"

text \<open>The guard that \<open>track_connection\<close> returns is dropped once, on every way out of its scope.\<close>

definition track_connection :: "stats \<Rightarrow> stats" where
  "track_connection s = s\<lparr>active_connections := active_connections s + 1\<rparr>"

definition drop_guard :: "stats \<Rightarrow> stats" where
  "drop_guard s = s\<lparr>active_connections := active_connections s - 1\<rparr>"

definition set_rpc :: "rpc_status list \<Rightarrow> stats \<Rightarrow> stats" where
  "set_rpc xs s = s\<lparr>rpc := xs\<rparr>"

text \<open>The sum is a \<open>u64\<close>; it wraps around, as in a release build.\<close>

definition avg_latency_ms :: "stats \<Rightarrow> u64" where
  "avg_latency_ms s =
     (let xs = map rpc_latency_ms (filter online (rpc s)) in
      if xs = [] then 0 else sum_list xs div of_nat (length xs))"

record stats_snapshot =
  sn_node_id :: string
  sn_quic_udp_port :: u16
  sn_uptime_secs :: u64
  sn_requests_total :: u64
  sn_requests_proxied :: u64
  sn_requests_relayed :: u64
  sn_requests_rejected :: u64
  sn_active_peers :: u64
  sn_active_connections :: u64
  sn_dht_enabled :: bool
  sn_dht_nodes :: u64
  sn_avg_latency_ms :: u64
  sn_rpc :: "rpc_status list"

text \<open>
  \<open>snapshot\<close> loads one field after the other, and other tasks may step in between: \<open>at i\<close> is the
  state at the \<open>i\<close>-th load.
\<close>

definition snapshot :: "nat \<Rightarrow> (nat \<Rightarrow> stats) \<Rightarrow> stats_snapshot" where
  "snapshot now at =
     \<lparr>sn_node_id = st_node_id (at 0), sn_quic_udp_port = quic_udp_port (at 0),
      sn_uptime_secs = uptime_secs now (at 0), sn_requests_total = requests_total (at 0),
      sn_requests_proxied = requests_proxied (at 1), sn_requests_relayed = requests_relayed (at 2),
      sn_requests_rejected = requests_rejected (at 3), sn_active_peers = active_peers (at 4),
      sn_active_connections = active_connections (at 5), sn_dht_enabled = st_dht_enabled (at 5),
      sn_dht_nodes = dht_nodes (at 6), sn_avg_latency_ms = avg_latency_ms (at 7), sn_rpc = rpc (at 8)\<rparr>"

text \<open>The handlers of the dashboard, the address it binds and its table of routes.\<close>

datatype page = Dashboard | StatusJson | PeersJson

definition serve_addr :: "u16 \<Rightarrow> string" where
  "serve_addr port = ''0.0.0.0:'' @ show_nat (unat port)"

definition routes :: "(string \<times> page) list" where
  "routes = [(''/'', Dashboard), (''/status'', StatusJson), (''/peers'', PeersJson)]"

definition status_json :: "nat \<Rightarrow> (nat \<Rightarrow> stats) \<Rightarrow> stats_snapshot" where
  "status_json now at = snapshot now at"

definition peers_json :: "'db store_lib \<Rightarrow> 'db \<Rightarrow> manifest list" where
  "peers_json S db = peer_list S db"

section \<open>Interleavings of counter operations\<close>

datatype counter_op = IncTotal | IncProxied | IncRelayed | IncRejected | OpenConn | DropConn

fun counter_step :: "counter_op \<Rightarrow> stats \<Rightarrow> stats" where
  "counter_step IncTotal s = inc_total s"
| "counter_step IncProxied s = inc_proxied s"
| "counter_step IncRelayed s = inc_relayed s"
| "counter_step IncRejected s = inc_rejected s"
| "counter_step OpenConn s = track_connection s"
| "counter_step DropConn s = drop_guard s"

lemmas counter_defs = inc_total_def inc_proxied_def inc_relayed_def inc_rejected_def
  track_connection_def drop_guard_def

interpretation counters: commuting_ops counter_step
proof
  fix x y :: counter_op and s
  show "counter_step x (counter_step y s) = counter_step y (counter_step x s)"
    by (cases x; cases y) (simp_all add: counter_defs)
qed

abbreviation count_op :: "counter_op \<Rightarrow> counter_op list \<Rightarrow> nat" where
  "count_op x xs \<equiv> count (mset xs) x"

lemma counter_values:
  "requests_total (run_ops counter_step xs s) = requests_total s + of_nat (count_op IncTotal xs)"
  "requests_proxied (run_ops counter_step xs s) = requests_proxied s + of_nat (count_op IncProxied xs)"
  "requests_relayed (run_ops counter_step xs s) = requests_relayed s + of_nat (count_op IncRelayed xs)"
  "requests_rejected (run_ops counter_step xs s) = requests_rejected s + of_nat (count_op IncRejected xs)"
  "active_connections (run_ops counter_step xs s)
     = active_connections s + of_nat (count_op OpenConn xs) - of_nat (count_op DropConn xs)"
proof (induction xs arbitrary: s)
  case (Cons x xs)
  { case 1 show ?case using Cons(1) by (cases x) (simp_all add: counter_defs) }
  { case 2 show ?case using Cons(2) by (cases x) (simp_all add: counter_defs) }
  { case 3 show ?case using Cons(3) by (cases x) (simp_all add: counter_defs) }
  { case 4 show ?case using Cons(4) by (cases x) (simp_all add: counter_defs) }
  { case 5 show ?case using Cons(5) by (cases x) (simp_all add: counter_defs) }
qed simp_all

section \<open>The average\<close>

lemma sum_list_unat:
  "sum_list (map unat xs) < 2 ^ 64 \<Longrightarrow> unat (sum_list (xs :: u64 list)) = sum_list (map unat xs)"
proof (induction xs)
  case (Cons x xs)
  then show ?case using unat_add_lem [of x "sum_list xs"] by simp
qed simp

lemma sum_list_bounds:
  fixes xs :: "nat list"
  assumes "\<And>x. x \<in> set xs \<Longrightarrow> lo \<le> x \<and> x \<le> hi"
  shows "length xs * lo \<le> sum_list xs \<and> sum_list xs \<le> length xs * hi"
  using assms by (induction xs) (fastforce simp: add_mono)+

section \<open>Properties\<close>

text \<open>The connection gauge shows the number of guards alive: in any interleaving of a run that
  drops no more guards than it took, it is the difference, as long as fewer than \<open>2 ^ 64\<close> are alive.\<close>

theorem gauge_counts_guards:
  assumes "count_op DropConn xs \<le> count_op OpenConn xs"
    and "count_op OpenConn xs - count_op DropConn xs < 2 ^ 64"
  shows "unat (active_connections (run_ops counter_step xs (stats_new now nid port dht)))
    = count_op OpenConn xs - count_op DropConn xs"
proof -
  have "active_connections (run_ops counter_step xs (stats_new now nid port dht))
      = of_nat (count_op OpenConn xs - count_op DropConn xs)"
    using assms(1) by (simp add: counter_values stats_new_def of_nat_diff)
  then show ?thesis using assms(2) by (simp add: unat_of_nat)
qed

lemma gauge_counts_guards_witness:
  "unat (active_connections (run_ops counter_step [OpenConn, IncTotal, OpenConn, DropConn]
     (stats_new 0 ''n'' 0 True))) = 1"
  by (subst gauge_counts_guards) simp_all

text \<open>The order in which concurrent tasks update the counters does not matter.\<close>

theorem counters_any_order:
  assumes "mset xs = mset ys"
  shows "run_ops counter_step xs s = run_ops counter_step ys s"
  using assms by (rule counters.run_perm)

lemma counters_any_order_witness:
  "run_ops counter_step [IncTotal, IncProxied, IncTotal, IncRejected] (stats_new 0 ''n'' 0 True)
   = run_ops counter_step [IncTotal, IncTotal, IncRejected, IncProxied] (stats_new 0 ''n'' 0 True)"
  by (rule counters_any_order) simp

text \<open>The announced latency is the average over the RPCs that are online, 0 when there are none,
  and lies between their smallest and largest, while their sum fits into 64 bits.\<close>

theorem avg_latency_bounds:
  assumes "sum_list (map unat (map rpc_latency_ms (filter online (rpc s)))) < 2 ^ 64"
    and "\<And>r. r \<in> set (rpc s) \<Longrightarrow> online r \<Longrightarrow> lo \<le> unat (rpc_latency_ms r) \<and> unat (rpc_latency_ms r) \<le> hi"
    and "length (rpc s) < 2 ^ 64"
  shows "if filter online (rpc s) = [] then avg_latency_ms s = 0
    else lo \<le> unat (avg_latency_ms s) \<and> unat (avg_latency_ms s) \<le> hi"
proof (cases "filter online (rpc s) = []")
  case False
  define xs where "xs = map rpc_latency_ms (filter online (rpc s))"
  have len: "0 < length xs" "length xs < 2 ^ 64"
    using False le_less_trans [OF length_filter_le assms(3), of online] by (simp_all add: xs_def)
  have "length (map unat xs) * lo \<le> sum_list (map unat xs) \<and> sum_list (map unat xs) \<le> length (map unat xs) * hi"
    by (rule sum_list_bounds) (use assms(2) in \<open>auto simp: xs_def\<close>)
  moreover have "unat (avg_latency_ms s) = sum_list (map unat xs) div length xs"
    using False assms(1) len sum_list_unat [of xs]
    by (simp add: avg_latency_ms_def Let_def xs_def [symmetric] unat_div unat_of_nat)
  ultimately have "lo \<le> unat (avg_latency_ms s) \<and> unat (avg_latency_ms s) \<le> hi"
    using len div_le_mono [of "sum_list (map unat xs)" "length xs * hi" "length xs"]
    by (simp add: less_eq_div_iff_mult_less_eq mult.commute)
  with False show ?thesis by simp
qed (simp add: avg_latency_ms_def)

definition demo_rpc :: stats where
  "demo_rpc = (stats_new 0 ''n'' 0 True)\<lparr>rpc :=
      [\<lparr>rpc_name = ''x'', online = True, rpc_latency_ms = 2, rpc_protocols = []\<rparr>,
       \<lparr>rpc_name = ''y'', online = False, rpc_latency_ms = 90, rpc_protocols = []\<rparr>,
       \<lparr>rpc_name = ''z'', online = True, rpc_latency_ms = 7, rpc_protocols = []\<rparr>]\<rparr>"

lemma avg_latency_bounds_witness:
  "2 \<le> unat (avg_latency_ms demo_rpc) \<and> unat (avg_latency_ms demo_rpc) \<le> 7"
proof -
  have "sum_list (map unat (map rpc_latency_ms (filter online (rpc demo_rpc)))) < 2 ^ 64"
    by (simp add: demo_rpc_def)
  moreover have "2 \<le> unat (rpc_latency_ms r) \<and> unat (rpc_latency_ms r) \<le> 7"
    if "r \<in> set (rpc demo_rpc)" and "online r" for r
    using that by (auto simp: demo_rpc_def)
  moreover have "length (rpc demo_rpc) < 2 ^ 64" by (simp add: demo_rpc_def)
  ultimately have "if filter online (rpc demo_rpc) = [] then avg_latency_ms demo_rpc = 0
    else 2 \<le> unat (avg_latency_ms demo_rpc) \<and> unat (avg_latency_ms demo_rpc) \<le> 7"
    by (rule avg_latency_bounds)
  then show ?thesis by (simp add: demo_rpc_def)
qed

end
