(* ===== verification/Handler.thy ===== *)
theory Handler
  imports Relay Ws_Tunnel Stats
begin

text \<open>
  \<open>Handler::handle_stream\<close> of \<open>src/src/p2p_server.rs\<close>: one request per stream. The handshake is read,
  the packet parsed, counted and checked against the rate limit; then it is rejected, tunnelled,
  executed against a local service or relayed, and the answer is written back.
\<close>

section \<open>The handler and its state\<close>

definition RELAY_RATE :: u32 where
  "RELAY_RATE = 10"

text \<open>What does not change while the node runs, with the libraries; and what the tasks share.\<close>

record 'db handler =
  me :: string
  proxy :: engine
  lib_crypto :: crypto_lib
  lib_json :: json_lib
  lib_http :: http_lib
  lib_net :: net_lib
  lib_packet :: packet_codec
  lib_store :: "'db store_lib"
  http_send :: "http_request \<Rightarrow> http_outcome"

record 'db shared =
  sh_limiter :: limiter
  sh_stats :: stats
  sh_peers :: 'db

text \<open>The instants a request reads: of the monotonic clock and of the wall clock.\<close>

record clocks =
  mono_now :: nat
  wall_now :: int

datatype handler_error =
    HandshakeFailed proto_error
  | ReadToEndFailed
  | PacketParse
  | ProxyFailed proxy_error
  | RelayFailed relay_error
  | WriteFailed io_error
  | FinishFailed io_error
  | TunnelFailed ws_error

datatype action =
    Reject bytes
  | Tunnel
  | Execute "handler_error + bytes"
  | Relayed "handler_error + bytes"

section \<open>From the packet to the answer\<close>

definition rate_of :: "'db handler \<Rightarrow> mesh_packet \<Rightarrow> u32" where
  "rate_of h pkt =
     (if serves (proxy h) (target_provider pkt) then rate_for (proxy h) (target_provider pkt) else RELAY_RATE)"

definition count_stat :: "(stats \<Rightarrow> stats) \<Rightarrow> 'db shared \<Rightarrow> 'db shared" where
  "count_stat f st = st\<lparr>sh_stats := f (sh_stats st)\<rparr>"

definition handle_packet ::
  "'db handler \<Rightarrow> clocks \<Rightarrow> string \<Rightarrow> bool \<Rightarrow> mesh_packet \<Rightarrow> 'db shared \<Rightarrow> action \<times> 'db shared" where
  "handle_packet h c peer v1 pkt st =
     (let st = count_stat inc_total st in
      (case allow (sh_limiter st) (mono_now c) peer (rate_of h pkt) of
         (l, ok) \<Rightarrow>
           (let st = st\<lparr>sh_limiter := l\<rparr> in
            (if \<not> ok then
               (Reject (reject_body (proxy h) (lib_crypto h) (lib_json h) (wall_now c) pkt),
                count_stat inc_rejected st)
             else if v1 \<and> eq_ignore_ascii_case (req_method pkt) ''WS'' \<and> serves (proxy h) (target_provider pkt) then
               (Tunnel, count_stat inc_proxied st)
             else if serves (proxy h) (target_provider pkt) then
               (Execute (case execute (proxy h) (lib_crypto h) (lib_json h) (lib_http h) (http_send h)
                              (wall_now c) pkt False of
                           Inl e \<Rightarrow> Inl (ProxyFailed e) | Inr r \<Rightarrow> Inr r),
                count_stat inc_proxied st)
             else
               (Relayed (case relay (lib_crypto h) (lib_net h) (lib_packet h) (lib_store h) (sh_peers st)
                              (me h) pkt of
                           Inl e \<Rightarrow> Inl (RelayFailed e) | Inr r \<Rightarrow> Inr r),
                count_stat inc_relayed st)))))"

section \<open>The stream\<close>

text \<open>\<open>fin\<close> is \<open>SendStream::finish\<close>.\<close>

definition write_response ::
  "'w writer \<Rightarrow> ('w \<Rightarrow> (io_error + unit) \<times> 'w) \<Rightarrow> bytes \<Rightarrow> 'w \<Rightarrow> (handler_error + unit) \<times> 'w" where
  "write_response wr fin bod w =
     (case wr bod w of
        (Inl e, w') \<Rightarrow> (Inl (WriteFailed e), w')
      | (Inr _, w') \<Rightarrow>
          (case fin w' of (Inl e, w'') \<Rightarrow> (Inl (FinishFailed e), w'') | (Inr _, w'') \<Rightarrow> (Inr (), w'')))"

text \<open>\<open>to_end n\<close> is \<open>RecvStream::read_to_end\<close> with the limit \<open>n\<close>.\<close>

definition read_request ::
  "'s reader \<Rightarrow> (nat \<Rightarrow> 's \<Rightarrow> (io_error + bytes) \<times> 's) \<Rightarrow> bool \<Rightarrow> 's \<Rightarrow> (handler_error + bytes) \<times> 's" where
  "read_request rd to_end v1 s =
     (if v1 then (case read_handshake_v1 rd s of
                    (Inl e, s') \<Rightarrow> (Inl (HandshakeFailed e), s') | (Inr raw, s') \<Rightarrow> (Inr raw, s'))
      else (case to_end MAX_FRAME s of
              (Inl e, s') \<Rightarrow> (Inl ReadToEndFailed, s') | (Inr raw, s') \<Rightarrow> (Inr raw, s')))"

text \<open>
  A tunnel from its handshake to its end. \<open>es\<close> is the schedule of its two tasks, in which \<open>ClientRead\<close>
  carries what \<open>read_from\<close> returned; what the pump sends to the client are encoded frames.
\<close>

record ws_env =
  client_request :: "string \<Rightarrow> ws_request option"
  ws_connect_async :: "ws_request \<Rightarrow> ws_connect"
  schedule :: "tunnel_event list"

definition handle_ws_stream ::
  "'db handler \<Rightarrow> ws_env \<Rightarrow> 'w writer \<Rightarrow> ('w \<Rightarrow> (io_error + unit) \<times> 'w) \<Rightarrow> mesh_packet \<Rightarrow> string
     \<Rightarrow> 'w \<Rightarrow> 'db shared \<Rightarrow> (ws_error + unit) \<times> 'w \<times> 'db shared" where
  "handle_ws_stream h W wr fin pkt peer w st =
     (case ws_open (proxy h) (lib_http h) (lib_json h) (client_request W) (ws_connect_async W) wr
             (\<lambda>v. snd (fin v)) pkt w of
        (Inl e, w') \<Rightarrow> (Inl e, w', st)
      | (Inr Refused, w') \<Rightarrow> (Inr (), w', st)
      | (Inr Session, w') \<Rightarrow>
          (let t = tunnel_run (ws_peer_key peer (target_provider pkt))
                     (ws_msg_rate_for (proxy h) (target_provider pkt)) (sh_limiter st) (schedule W);
               w'' = fold (\<lambda>f v. snd (wr (encode f) v)) (sent_client t) w'
           in (Inr (), (if finished t then snd (fin w'') else w''), st\<lparr>sh_limiter := t_limiter t\<rparr>)))"

definition finish_action ::
  "'db handler \<Rightarrow> ws_env \<Rightarrow> 'w writer \<Rightarrow> ('w \<Rightarrow> (io_error + unit) \<times> 'w) \<Rightarrow> mesh_packet \<Rightarrow> string
     \<Rightarrow> action \<Rightarrow> 'w \<Rightarrow> 'db shared \<Rightarrow> (handler_error + unit) \<times> 'w \<times> 'db shared" where
  "finish_action h W wr fin pkt peer a w st =
     (let respond = (\<lambda>resp. case write_response wr fin resp w of (r, w') \<Rightarrow> (r, w', st)) in
      (case a of
         Reject resp \<Rightarrow> respond resp
       | Tunnel \<Rightarrow>
           (case handle_ws_stream h W wr fin pkt peer w st of
              (Inl e, w', st') \<Rightarrow> (Inl (TunnelFailed e), w', st')
            | (Inr _, w', st') \<Rightarrow> (Inr (), w', st'))
       | Execute r \<Rightarrow> (case r of Inl e \<Rightarrow> (Inl e, w, st) | Inr resp \<Rightarrow> respond resp)
       | Relayed r \<Rightarrow> (case r of Inl e \<Rightarrow> (Inl e, w, st) | Inr resp \<Rightarrow> respond resp)))"

definition handle_stream ::
  "'db handler \<Rightarrow> ws_env \<Rightarrow> clocks \<Rightarrow> 's reader \<Rightarrow> (nat \<Rightarrow> 's \<Rightarrow> (io_error + bytes) \<times> 's)
     \<Rightarrow> 'w writer \<Rightarrow> ('w \<Rightarrow> (io_error + unit) \<times> 'w) \<Rightarrow> string \<Rightarrow> bool \<Rightarrow> 's \<Rightarrow> 'w \<Rightarrow> 'db shared
     \<Rightarrow> (handler_error + unit) \<times> 'w \<times> 'db shared" where
  "handle_stream h W c rd to_end wr fin peer v1 s w st =
     (case fst (read_request rd to_end v1 s) of
        Inl e \<Rightarrow> (Inl e, w, st)
      | Inr raw \<Rightarrow>
          (case pkt_read (lib_packet h) raw of
             None \<Rightarrow> (Inl PacketParse, w, st)
           | Some pkt \<Rightarrow>
               (case handle_packet h c peer v1 pkt st of
                  (a, st') \<Rightarrow> finish_action h W wr fin pkt peer a w st')))"

section \<open>The accounting\<close>

fun counter_of :: "action \<Rightarrow> counter_op" where
  "counter_of (Reject r) = IncRejected"
| "counter_of Tunnel = IncProxied"
| "counter_of (Execute r) = IncProxied"
| "counter_of (Relayed r) = IncRelayed"

text \<open>What decides the branch, and what each branch yields.\<close>

lemma handle_packet_action:
  "fst (handle_packet h c peer v1 pkt st) =
    (if \<not> snd (allow (sh_limiter st) (mono_now c) peer (rate_of h pkt))
     then Reject (reject_body (proxy h) (lib_crypto h) (lib_json h) (wall_now c) pkt)
     else if serves (proxy h) (target_provider pkt)
     then (if v1 \<and> eq_ignore_ascii_case (req_method pkt) ''WS'' then Tunnel
           else Execute (case execute (proxy h) (lib_crypto h) (lib_json h) (lib_http h) (http_send h)
                              (wall_now c) pkt False of
                           Inl e \<Rightarrow> Inl (ProxyFailed e) | Inr r \<Rightarrow> Inr r))
     else Relayed (case relay (lib_crypto h) (lib_net h) (lib_packet h) (lib_store h) (sh_peers st)
                              (me h) pkt of
                           Inl e \<Rightarrow> Inl (RelayFailed e) | Inr r \<Rightarrow> Inr r))"
  by (simp add: handle_packet_def Let_def count_stat_def split: prod.split)

lemma handle_packet_state:
  "snd (handle_packet h c peer v1 pkt st) =
     st\<lparr>sh_limiter := fst (allow (sh_limiter st) (mono_now c) peer (rate_of h pkt)),
        sh_stats := run_ops counter_step [IncTotal, counter_of (fst (handle_packet h c peer v1 pkt st))] (sh_stats st)\<rparr>"
  by (simp add: handle_packet_def Let_def count_stat_def split: prod.split)

lemma execute_served:
  assumes "resolve E (target_provider pkt) = Some ep"
    and "upstream_answer J (http (build_request H ep pkt)) = (status, raw)"
  shows "execute E L J H http clock pkt rl = Inr (finalize E L J clock (ep_name ep) status raw rl)"
  using assms by (simp add: execute_def)

section \<open>A node for the witnesses\<close>

definition demo_node :: "(bytes \<times> bytes) list handler" where
  "demo_node =
     \<lparr>me = node_id_of demo_crypto (replicate 32 7),
      proxy = \<lparr>by_name = engine_names [demo_endpoint ''x'' ''http://l''], default_name = Some ''x'',
               pe_node_id = node_id_of demo_crypto (replicate 32 7), signing = signing_key (replicate 32 7)\<rparr>,
      lib_crypto = demo_crypto, lib_json = demo_json, lib_http = demo_http,
      lib_net = \<lparr>connect = (\<lambda>e. True), open_bi = (\<lambda>e. True), write_out = (\<lambda>e b. True),
                 finish_out = (\<lambda>e. True), read_reply = (\<lambda>e b n. None)\<rparr>,
      lib_packet = \<lparr>pkt_read = (\<lambda>b. if b = [1] then Some (demo_packet ''/'' [] []) else None),
                    pkt_print = (\<lambda>p. Some [1])\<rparr>,
      lib_store = demo_store, http_send = (\<lambda>r. Response 200 (Some [123, 125]))\<rparr>"

definition demo_shared :: "limiter \<Rightarrow> (bytes \<times> bytes) list shared" where
  "demo_shared l = \<lparr>sh_limiter = l, sh_stats = stats_new 0 ''n'' 0 True, sh_peers = []\<rparr>"

lemma demo_node_sel:
  "lib_crypto demo_node = demo_crypto" "lib_json demo_node = demo_json"
  "pe_node_id (proxy demo_node) = node_id_of demo_crypto (replicate 32 7)"
  "signing (proxy demo_node) = signing_key (replicate 32 7)"
  "resolve (proxy demo_node) ''x'' = Some (demo_endpoint ''x'' ''http://l'')"
  "http_send demo_node r = Response 200 (Some [123, 125])"
  by (simp_all add: demo_node_def resolve_def lookup_engine_names demo_endpoint_def)

lemma demo_rate: "target_provider pkt = ''x'' \<Longrightarrow> rate_of demo_node pkt = 5"
  by (simp add: rate_of_def serves_def rate_for_def demo_node_sel) (simp add: demo_endpoint_def)

lemma demo_root: "root_from_mnemonic demo_crypto ''demo'' = Inr (replicate 32 7)"
  by (simp add: root_from_mnemonic_def demo_crypto_def)

section \<open>Properties\<close>

text \<open>Every packet is counted once and under exactly one outcome, its rate is checked, and
  nothing else of the shared state changes.\<close>

theorem packet_counted:
  "snd (handle_packet h c peer v1 pkt st) =
     st\<lparr>sh_limiter := fst (allow (sh_limiter st) (mono_now c) peer (rate_of h pkt)),
        sh_stats := run_ops counter_step [IncTotal, counter_of (fst (handle_packet h c peer v1 pkt st))] (sh_stats st)\<rparr>"
  by (rule handle_packet_state)

text \<open>However the counter updates of concurrent requests and connections interleave, once the
  requests are through the total is the sum of the proxied, relayed and rejected ones.\<close>

theorem requests_add_up:
  assumes "mset (filter (\<lambda>x. x \<noteq> OpenConn \<and> x \<noteq> DropConn) xs)
      = mset (concat (map (\<lambda>a. [IncTotal, counter_of a]) acts))"
    and "requests_total s = requests_proxied s + requests_relayed s + requests_rejected s"
  shows "requests_total (run_ops counter_step xs s)
    = requests_proxied (run_ops counter_step xs s) + requests_relayed (run_ops counter_step xs s)
      + requests_rejected (run_ops counter_step xs s)"
proof -
  define ys where "ys = concat (map (\<lambda>a. [IncTotal, counter_of a]) acts)"
  have same: "count_op x xs = count_op x ys" if "x \<noteq> OpenConn" and "x \<noteq> DropConn" for x
  proof -
    have "count_op x (filter (\<lambda>x. x \<noteq> OpenConn \<and> x \<noteq> DropConn) xs) = count_op x xs"
      using that by (induction xs) auto
    with assms(1) show ?thesis by (simp add: ys_def)
  qed
  have "count_op IncTotal ys = count_op IncProxied ys + count_op IncRelayed ys + count_op IncRejected ys"
    unfolding ys_def
  proof (induction acts)
    case (Cons a acts)
    then show ?case by (cases a) simp_all
  qed simp
  then have "(of_nat (count_op IncTotal ys) :: u64)
      = of_nat (count_op IncProxied ys) + of_nat (count_op IncRelayed ys) + of_nat (count_op IncRejected ys)"
    by simp
  with assms(2) show ?thesis by (simp add: counter_values same)
qed

lemma requests_add_up_witness:
  "requests_total (run_ops counter_step [OpenConn, IncTotal, IncTotal, IncRejected, IncProxied] (stats_new 0 ''n'' 0 True))
    = requests_proxied (run_ops counter_step [OpenConn, IncTotal, IncTotal, IncRejected, IncProxied] (stats_new 0 ''n'' 0 True))
      + requests_relayed (run_ops counter_step [OpenConn, IncTotal, IncTotal, IncRejected, IncProxied] (stats_new 0 ''n'' 0 True))
      + requests_rejected (run_ops counter_step [OpenConn, IncTotal, IncTotal, IncRejected, IncProxied] (stats_new 0 ''n'' 0 True))"
  by (rule requests_add_up [where acts = "[Tunnel, Reject []]"]) (simp_all add: stats_new_def)

text \<open>C23: a packet over the limit gets a signed answer with status 429, and neither a local service
  nor a peer hears of it.\<close>

theorem rejected_signed:
  assumes "crypto_ok (lib_crypto h)" and "json_ok (lib_json h)"
    and "root_from_mnemonic (lib_crypto h) mnemonic = Inr rt"
    and "pe_node_id (proxy h) = node_id_of (lib_crypto h) rt" and "signing (proxy h) = signing_key rt"
    and "str_ok (target_provider pkt)"
    and "\<not> snd (allow (sh_limiter st) (mono_now c) peer (rate_of h pkt))"
  shows "\<exists>resp. fst (handle_packet h c peer v1 pkt st) = Reject resp
    \<and> client_read (lib_crypto h) (lib_json h) (node_id_of (lib_crypto h) rt) resp
      = Some (429, now_secs (wall_now c), error_body (lib_json h) ''rate_limited'' rate_limited_detail)"
  using assms client_read_finalize [OF assms(1-6)]
  by (simp add: handle_packet_action reject_body_def)

lemma rejected_signed_witness:
  "\<exists>resp. fst (handle_packet demo_node \<lparr>mono_now = 0, wall_now = 0\<rparr> ''p'' True (demo_packet ''/'' [] [])
        (demo_shared (limiter_new(''p'' \<mapsto> \<lparr>tokens = 0, last_update = 0\<rparr>)))) = Reject resp
    \<and> client_read (lib_crypto demo_node) (lib_json demo_node)
        (node_id_of (lib_crypto demo_node) (replicate 32 7)) resp
      = Some (429, now_secs (wall_now \<lparr>mono_now = 0, wall_now = 0\<rparr>),
          error_body (lib_json demo_node) ''rate_limited'' rate_limited_detail)"
proof (rule rejected_signed)
  have "\<not> snd (allow (limiter_new(''p'' \<mapsto> \<lparr>tokens = 0, last_update = 0\<rparr>)) 0 ''p'' 5)"
    by code_simp
  then show "\<not> snd (allow (sh_limiter (demo_shared (limiter_new(''p'' \<mapsto> \<lparr>tokens = 0, last_update = 0\<rparr>))))
      (mono_now \<lparr>mono_now = 0, wall_now = 0\<rparr>) ''p'' (rate_of demo_node (demo_packet ''/'' [] [])))"
    using demo_rate [of "demo_packet ''/'' [] []"] by (simp add: demo_shared_def demo_packet_def)
  show "root_from_mnemonic (lib_crypto demo_node) ''demo'' = Inr (replicate 32 7)"
    using demo_root by (simp add: demo_node_sel)
qed (simp_all add: demo_node_sel demo_laws demo_packet_def)

text \<open>A packet for a local service that is within the limit always has an answer: what the
  service said, or 502 when it did not answer, verifiable against the identifier of this node.\<close>

theorem executed_signed:
  assumes "crypto_ok (lib_crypto h)" and "json_ok (lib_json h)"
    and "root_from_mnemonic (lib_crypto h) mnemonic = Inr rt"
    and "pe_node_id (proxy h) = node_id_of (lib_crypto h) rt" and "signing (proxy h) = signing_key rt"
    and "snd (allow (sh_limiter st) (mono_now c) peer (rate_of h pkt))"
    and "resolve (proxy h) (target_provider pkt) = Some ep" and "str_ok (ep_name ep)"
    and "\<not> (v1 \<and> eq_ignore_ascii_case (req_method pkt) ''WS'')"
    and "upstream_answer (lib_json h) (http_send h (build_request (lib_http h) ep pkt)) = (status, raw)"
  shows "\<exists>resp. fst (handle_packet h c peer v1 pkt st) = Execute (Inr resp)
    \<and> client_read (lib_crypto h) (lib_json h) (node_id_of (lib_crypto h) rt) resp
      = Some (status, now_secs (wall_now c), raw)"
proof -
  have "serves (proxy h) (target_provider pkt)" using assms(7) by (simp add: serves_def)
  then have "fst (handle_packet h c peer v1 pkt st) = Execute (Inr
      (finalize (proxy h) (lib_crypto h) (lib_json h) (wall_now c) (ep_name ep) status raw False))"
    using assms(6,9) execute_served [OF assms(7), of "lib_json h" "http_send h" "lib_http h"] assms(10)
    by (simp add: handle_packet_action)
  with client_read_finalize [OF assms(1-5,8)] show ?thesis by simp
qed

lemma executed_signed_witness:
  "\<exists>resp. fst (handle_packet demo_node \<lparr>mono_now = 0, wall_now = 0\<rparr> ''p'' True (demo_packet ''/'' [] [])
        (demo_shared limiter_new)) = Execute (Inr resp)
    \<and> client_read (lib_crypto demo_node) (lib_json demo_node)
        (node_id_of (lib_crypto demo_node) (replicate 32 7)) resp
      = Some (200, now_secs (wall_now \<lparr>mono_now = 0, wall_now = 0\<rparr>), [123, 125])"
proof (rule executed_signed)
  have "snd (allow limiter_new 0 ''p'' 5)"
    by code_simp
  then show "snd (allow (sh_limiter (demo_shared limiter_new))
      (mono_now \<lparr>mono_now = 0, wall_now = 0\<rparr>) ''p'' (rate_of demo_node (demo_packet ''/'' [] [])))"
    using demo_rate [of "demo_packet ''/'' [] []"] by (simp add: demo_shared_def demo_packet_def)
  show "root_from_mnemonic (lib_crypto demo_node) ''demo'' = Inr (replicate 32 7)"
    using demo_root by (simp add: demo_node_sel)
  show "resolve (proxy demo_node) (target_provider (demo_packet ''/'' [] [])) = Some (demo_endpoint ''x'' ''http://l'')"
    by (simp add: demo_node_sel demo_packet_def)
  show "str_ok (ep_name (demo_endpoint ''x'' ''http://l''))"
    by (simp add: demo_endpoint_def)
  show "\<not> (True \<and> eq_ignore_ascii_case (req_method (demo_packet ''/'' [] [])) ''WS'')"
    by code_simp
qed (simp_all add: demo_node_sel demo_laws upstream_answer_def)

text \<open>A stream whose handshake does not parse leaves no trace: nothing is written, nothing
  counted, and no token of the peer's bucket is spent.\<close>

theorem malformed_not_counted:
  assumes "fst (read_request rd to_end v1 s) = Inr raw" and "pkt_read (lib_packet h) raw = None"
  shows "handle_stream h W c rd to_end wr fin peer v1 s w st = (Inl PacketParse, w, st)"
  using assms by (simp add: handle_stream_def)

lemma malformed_not_counted_witness:
  "handle_stream demo_node \<lparr>client_request = (\<lambda>u. None), ws_connect_async = (\<lambda>r. ConnectTimeout), schedule = []\<rparr>
      \<lparr>mono_now = 0, wall_now = 0\<rparr> slice_read (\<lambda>n s. (Inr (fst s), s)) vec_write (\<lambda>w. (Inr (), w)) ''p'' False
      ([2], Finished) [] (demo_shared limiter_new)
    = (Inl PacketParse, [], demo_shared limiter_new)"
  by (rule malformed_not_counted [where raw = "[2]"])
    (simp_all add: read_request_def demo_node_def)

end
