(* ===== verification/Mesh.thy ===== *)
theory Mesh
  imports Handler
begin

text \<open>
  Many nodes: a packet for a name that its first node does not serve travels from node to node, each
  one running \<open>handle_packet\<close>. A network is known by its history: what each node made of each packet it
  handled. A relay reads from a connection what the node at the other end wrote on it; that the
  bytes it passes on are that node's is derived from \<open>relay\<close>. Every state of the nodes, every limiter and
  every clock are allowed, and each packet may meet another network.
\<close>

section \<open>The history of a network\<close>

text \<open>What a node, at its endpoint and for a version of the protocol, made of a packet.\<close>

type_synonym handling = "bytes \<times> bool \<times> mesh_packet \<times> action"

text \<open>
  What has been written on the stream when the handling is over. After an error nothing was: the stream
  is dropped, which iroh documents to finish it, so that its reader finds it empty.
\<close>

fun on_stream :: "action \<Rightarrow> bytes" where
  "on_stream (Reject resp) = resp"
| "on_stream Tunnel = []"
| "on_stream (Execute r) = (case r of Inl e \<Rightarrow> [] | Inr resp \<Rightarrow> resp)"
| "on_stream (Relayed r) = (case r of Inl e \<Rightarrow> [] | Inr resp \<Rightarrow> resp)"

text \<open>
  \<open>N\<close> carries the history: a reply comes from the node at the endpoint, which has read the bytes as
  \<open>handle_stream\<close> does on the old protocol and either failed to, or handled the packet and wrote the reply.
\<close>

definition carries :: "(bytes \<Rightarrow> 'db handler option) \<Rightarrow> handling list \<Rightarrow> net_lib \<Rightarrow> bool" where
  "carries nodes evs N \<longleftrightarrow>
     (\<forall>e json raw. read_reply N e json MAX_FRAME = Some raw \<longrightarrow>
       (\<exists>h. nodes e = Some h \<and>
          (if MAX_FRAME < length json then raw = []
           else (case pkt_read (lib_packet h) json of
                   None \<Rightarrow> raw = []
                 | Some pkt \<Rightarrow> \<exists>a. (e, False, pkt, a) \<in> set evs \<and> raw = on_stream a))))"

inductive traffic :: "(bytes \<Rightarrow> 'db handler option) \<Rightarrow> handling list \<Rightarrow> bool" for nodes where
  quiet: "traffic nodes []"
| handled: "traffic nodes evs \<Longrightarrow> nodes e = Some h \<Longrightarrow> carries nodes evs N \<Longrightarrow>
    traffic nodes (evs @ [(e, v1, pkt, fst (handle_packet (h\<lparr>lib_net := N\<rparr>) c peer v1 pkt st))])"

text \<open>The way of a packet: the packet that the node at an endpoint reads after \<open>n\<close> hops.\<close>

inductive travels :: "(bytes \<Rightarrow> 'db handler option) \<Rightarrow> mesh_packet \<Rightarrow> nat \<Rightarrow> bytes \<Rightarrow> mesh_packet \<Rightarrow> bool"
  for nodes pkt where
  start: "travels nodes pkt 0 e pkt"
| hop: "travels nodes pkt n e p \<Longrightarrow> nodes e = Some h \<Longrightarrow>
    fst (handle_packet (h\<lparr>lib_net := N\<rparr>) c peer v1 p st) = Relayed r \<Longrightarrow>
    (e', json) \<in> set (relay_sends (lib_crypto h) N (lib_packet h) (lib_store h) (sh_peers st) (me h) p) \<Longrightarrow>
    nodes e' = Some h' \<Longrightarrow> pkt_read (lib_packet h') json = Some p' \<Longrightarrow> travels nodes pkt (Suc n) e' p'"

section \<open>One node\<close>

lemma relayed_hop:
  assumes "fst (handle_packet h c peer v1 pkt st) = Relayed (Inr resp)"
  obtains eid json where "pkt_print (lib_packet h) (next_hop pkt) = Some json"
    and "read_reply (lib_net h) eid json MAX_FRAME = Some resp"
proof -
  have "relay (lib_crypto h) (lib_net h) (lib_packet h) (lib_store h) (sh_peers st) (me h) pkt = Inr resp"
    using assms by (auto simp: handle_packet_action split: if_splits sum.splits)
  then show ?thesis using that unfolding relay_Inr forward_to_Inr by blast
qed

lemma executed_resolve:
  assumes "fst (handle_packet h c peer v1 pkt st) = Execute (Inr resp)"
  obtains ep where "resolve (proxy h) (target_provider pkt) = Some ep"
    and "execute (proxy h) (lib_crypto h) (lib_json h) (lib_http h) (http_send h) (wall_now c) pkt False = Inr resp"
proof -
  have "serves (proxy h) (target_provider pkt)"
    and e: "execute (proxy h) (lib_crypto h) (lib_json h) (lib_http h) (http_send h) (wall_now c) pkt False = Inr resp"
    using assms by (auto simp: handle_packet_action split: if_splits sum.splits)
  then show ?thesis using that by (auto simp: serves_def)
qed

section \<open>Nodes with their own keys\<close>

text \<open>A node started from a mnemonic: its engine signs with the key behind its identifier.\<close>

definition well_keyed :: "crypto_lib \<Rightarrow> json_lib \<Rightarrow> 'db handler \<Rightarrow> bool" where
  "well_keyed L J h \<longleftrightarrow>
     lib_crypto h = L \<and> lib_json h = J \<and>
     (\<exists>mnemonic rt. root_from_mnemonic L mnemonic = Inr rt \<and> pe_node_id (proxy h) = node_id_of L rt
        \<and> signing (proxy h) = signing_key rt) \<and>
     (\<forall>target ep. resolve (proxy h) target = Some ep \<longrightarrow> str_ok (ep_name ep))"

text \<open>What the node itself puts into an answer: a refusal, or what its service said.\<close>

definition own_answer :: "'db handler \<Rightarrow> mesh_packet \<Rightarrow> u16 \<Rightarrow> bytes \<Rightarrow> bool" where
  "own_answer h pkt status raw \<longleftrightarrow>
     status = 429 \<and> raw = error_body (lib_json h) ''rate_limited'' rate_limited_detail \<or>
     (case resolve (proxy h) (target_provider pkt) of
        None \<Rightarrow> False
      | Some ep \<Rightarrow>
          (status, raw) = upstream_answer (lib_json h) (http_send h (build_request (lib_http h) ep pkt)))"

lemma next_hop_sel:
  "target_provider (next_hop pkt) = target_provider pkt" "req_method (next_hop pkt) = req_method pkt"
  "req_path (next_hop pkt) = req_path pkt" "req_headers (next_hop pkt) = req_headers pkt"
  "req_body (next_hop pkt) = req_body pkt"
  by (simp_all add: next_hop_def)

lemma own_answer_next_hop: "own_answer h (next_hop pkt) status raw \<longleftrightarrow> own_answer h pkt status raw"
  by (simp only: own_answer_def build_request_def upstream_url_def next_hop_sel)

lemma own_answer_net [simp]: "own_answer (h\<lparr>lib_net := N\<rparr>) = own_answer h"
  by (simp add: fun_eq_iff own_answer_def split: option.split)

lemma own_answer_verifies:
  assumes "crypto_ok L" and "json_ok J" and "well_keyed L J h" and "str_ok (target_provider pkt)"
    and "fst (handle_packet h c peer v1 pkt st) = Reject resp \<or> fst (handle_packet h c peer v1 pkt st) = Execute (Inr resp)"
  shows "\<exists>status t raw. client_read L J (pe_node_id (proxy h)) resp = Some (status, t, raw) \<and> own_answer h pkt status raw"
proof -
  obtain mnemonic rt where k: "root_from_mnemonic L mnemonic = Inr rt"
    "pe_node_id (proxy h) = node_id_of L rt" "signing (proxy h) = signing_key rt"
    and lib: "lib_crypto h = L" "lib_json h = J"
    using assms(3) unfolding well_keyed_def by blast
  note F = client_read_finalize [OF assms(1,2) k]
  from assms(5) show ?thesis
  proof
    assume "fst (handle_packet h c peer v1 pkt st) = Reject resp"
    then have "resp = reject_body (proxy h) L J (wall_now c) pkt"
      by (auto simp: handle_packet_action lib split: if_splits)
    with F [OF assms(4)] k(2) show ?thesis by (auto simp: reject_body_def own_answer_def lib)
  next
    assume "fst (handle_packet h c peer v1 pkt st) = Execute (Inr resp)"
    then obtain ep where ep: "resolve (proxy h) (target_provider pkt) = Some ep" and
      ex: "execute (proxy h) L J (lib_http h) (http_send h) (wall_now c) pkt False = Inr resp"
      by (rule executed_resolve) (simp add: lib)
    obtain status raw where u: "upstream_answer J (http_send h (build_request (lib_http h) ep pkt)) = (status, raw)"
      by fastforce
    have "str_ok (ep_name ep)" using ep assms(3) unfolding well_keyed_def by blast
    moreover have "resp = finalize (proxy h) L J (wall_now c) (ep_name ep) status raw False"
      using ex ep u by (simp add: execute_def)
    ultimately have "client_read L J (pe_node_id (proxy h)) resp = Some (status, now_secs (wall_now c), raw)"
      using F k(2) by simp
    moreover have "own_answer h pkt status raw" using ep u by (simp add: own_answer_def lib)
    ultimately show ?thesis by blast
  qed
qed

text \<open>A handling without an answer is a relay that gave up.\<close>

lemma handling_error:
  assumes "fst (handle_packet h c peer False pkt st) = a"
  shows "(\<exists>resp. a = Reject resp \<or> a = Execute (Inr resp) \<or> a = Relayed (Inr resp)) \<or> (\<exists>e. a = Relayed (Inl e))"
proof -
  have "\<exists>resp. execute (proxy h) (lib_crypto h) (lib_json h) (lib_http h) (http_send h) (wall_now c) pkt False = Inr resp"
    if "serves (proxy h) (target_provider pkt)"
    using that by (auto simp: serves_def execute_def split: prod.split option.split)
  with assms show ?thesis by (auto simp: handle_packet_action split: if_split_asm sum.splits)
qed

section \<open>Histories\<close>

lemma traffic_handling:
  "traffic nodes evs \<Longrightarrow> (e, v1, pkt, a) \<in> set evs \<Longrightarrow>
    \<exists>h N c peer st. nodes e = Some h \<and> a = fst (handle_packet (h\<lparr>lib_net := N\<rparr>) c peer v1 pkt st)"
  by (induction rule: traffic.induct) (simp, auto, blast)

text \<open>For a request: a node on its way found no peer that replied, or the packet was too long to be read.\<close>

definition gave_up :: "packet_codec \<Rightarrow> handling list \<Rightarrow> mesh_packet \<Rightarrow> bool" where
  "gave_up P evs pkt \<longleftrightarrow> (\<exists>p. p = pkt\<lparr>ttl := ttl p\<rparr> \<and>
     ((\<exists>e v err. (e, v, p, Relayed (Inl err)) \<in> set evs) \<or> (\<exists>b. pkt_print P p = Some b \<and> MAX_FRAME < length b)))"

lemma gave_up_mono: "gave_up P evs pkt \<Longrightarrow> set evs \<subseteq> set evs' \<Longrightarrow> gave_up P evs' pkt"
  unfolding gave_up_def by blast

lemma gave_up_next_hop: "gave_up P evs (next_hop pkt) \<longleftrightarrow> gave_up P evs pkt"
  by (simp add: gave_up_def next_hop_def)

lemma gave_upI:
  "(e, v, next_hop pkt, Relayed (Inl err)) \<in> set evs \<Longrightarrow> gave_up P evs pkt"
  "pkt_print P (next_hop pkt) = Some b \<Longrightarrow> MAX_FRAME < length b \<Longrightarrow> gave_up P evs pkt"
  unfolding gave_up_def next_hop_def
  by (intro exI [of _ "pkt\<lparr>ttl := ttl pkt - 1\<rparr>"]; auto)+

text \<open>A node of the network answered the request itself.\<close>

definition answered_by_node :: "(bytes \<Rightarrow> 'db handler option) \<Rightarrow> crypto_lib \<Rightarrow> json_lib \<Rightarrow> mesh_packet \<Rightarrow> bytes \<Rightarrow> bool" where
  "answered_by_node nodes L J pkt resp \<longleftrightarrow>
     (\<exists>e h status t raw. nodes e = Some h
        \<and> client_read L J (pe_node_id (proxy h)) resp = Some (status, t, raw) \<and> own_answer h pkt status raw)"

lemma answered_by_node_next_hop: "answered_by_node nodes L J (next_hop pkt) resp \<longleftrightarrow> answered_by_node nodes L J pkt resp"
  by (simp add: answered_by_node_def own_answer_next_hop)

lemma traffic_authentic:
  assumes "traffic nodes evs" and "crypto_ok L" and "json_ok J"
    and nodes: "\<And>e h. nodes e = Some h \<Longrightarrow> well_keyed L J h \<and> lib_packet h = P"
    and codec: "\<And>p b. pkt_print P p = Some b \<Longrightarrow> pkt_read P b = Some p"
    and "(e, v1, pkt, a) \<in> set evs" and "str_ok (target_provider pkt)"
    and "a = Reject resp \<or> a = Execute (Inr resp) \<or> a = Relayed (Inr resp)"
  shows "answered_by_node nodes L J pkt resp \<or> resp = [] \<and> gave_up P evs pkt"
  using assms(1,6,7,8)
proof (induction arbitrary: e v1 pkt a resp)
  case (handled evs e0 h N v0 pkt0 c peer st)
  let ?evs = "evs @ [(e0, v0, pkt0, fst (handle_packet (h\<lparr>lib_net := N\<rparr>) c peer v0 pkt0 st))]"
  have old: "answered_by_node nodes L J pkt' resp' \<or> resp' = [] \<and> gave_up P ?evs pkt'"
    if "(e', v', pkt', a') \<in> set evs" and "str_ok (target_provider pkt')"
      and "a' = Reject resp' \<or> a' = Execute (Inr resp') \<or> a' = Relayed (Inr resp')" for e' v' pkt' a' resp'
    using handled.IH [OF that] gave_up_mono [of P evs pkt' ?evs] by auto
  show ?case
  proof (cases "(e, v1, pkt, a) \<in> set evs")
    case True
    from old [OF this handled.prems(2,3)] show ?thesis .
  next
    case False
    let ?h = "h\<lparr>lib_net := N\<rparr>"
    have new: "fst (handle_packet ?h c peer v1 pkt st) = a" using handled.prems(1) False by auto
    have wk: "well_keyed L J h" and P: "lib_packet h = P" using nodes [OF handled.hyps(2)] by simp_all
    show ?thesis
    proof (cases "a = Relayed (Inr resp)")
      case False
      have "well_keyed L J ?h" using wk by (simp add: well_keyed_def)
      from own_answer_verifies [OF assms(2,3) this handled.prems(2), of c peer v1 st resp]
      have "\<exists>status t raw. client_read L J (pe_node_id (proxy h)) resp = Some (status, t, raw) \<and> own_answer h pkt status raw"
        using new False handled.prems(3) by simp
      with handled.hyps(2) show ?thesis unfolding answered_by_node_def by blast
    next
      case True
      obtain eid json where j: "pkt_print P (next_hop pkt) = Some json"
        and reply: "read_reply N eid json MAX_FRAME = Some resp"
        by (rule relayed_hop [OF new [unfolded True]]) (use P in simp)
      obtain h' where h': "nodes eid = Some h'" and
        got: "if MAX_FRAME < length json then resp = []
           else (case pkt_read (lib_packet h') json of None \<Rightarrow> resp = []
             | Some p \<Rightarrow> \<exists>a. (eid, False, p, a) \<in> set evs \<and> resp = on_stream a)"
        using handled.hyps(3) reply unfolding carries_def by blast
      show ?thesis
      proof (cases "MAX_FRAME < length json")
        case True
        with got gave_upI(2) [OF j] show ?thesis by simp
      next
        case False
        then obtain b where b: "(eid, False, next_hop pkt, b) \<in> set evs" "resp = on_stream b"
          using got nodes [OF h'] codec [OF j] by auto
        from traffic_handling [OF handled.hyps(1) b(1)] obtain g M k q s
          where "nodes eid = Some g" and "b = fst (handle_packet (g\<lparr>lib_net := M\<rparr>) k q False (next_hop pkt) s)" by blast
        from handling_error [OF this(2) [symmetric]]
        consider (yes) r where "b = Reject r \<or> b = Execute (Inr r) \<or> b = Relayed (Inr r)" | (no) err where "b = Relayed (Inl err)"
          by blast
        then show ?thesis
        proof cases
          case yes
          with old [OF b(1) _ yes] handled.prems(2) b(2) show ?thesis
            by (auto simp: next_hop_sel answered_by_node_next_hop gave_up_next_hop)
        next
          case no
          with b gave_upI(1) [of eid False pkt err ?evs P] show ?thesis by simp
        qed
      qed
    qed
  qed
qed simp

section \<open>Networks for the witnesses\<close>

text \<open>A network of two nodes: the node in front serves nothing and knows of the other, which serves \<open>x\<close>.\<close>

definition mesh_packet_demo :: "u8 \<Rightarrow> mesh_packet" where
  "mesh_packet_demo n = (demo_packet ''/'' [] [])\<lparr>ttl := n\<rparr>"

definition mesh_codec :: packet_codec where
  "mesh_codec = \<lparr>pkt_read = (\<lambda>b. case b of [n] \<Rightarrow> Some (mesh_packet_demo n) | _ \<Rightarrow> None),
     pkt_print = (\<lambda>p. if p\<lparr>ttl := 0\<rparr> = mesh_packet_demo 0 then Some [ttl p] else None)\<rparr>"

definition back_node :: "(bytes \<times> bytes) list handler" where
  "back_node = demo_node\<lparr>me := node_id_of demo_crypto (replicate 32 9), lib_packet := mesh_codec,
     proxy := (proxy demo_node)\<lparr>pe_node_id := node_id_of demo_crypto (replicate 32 9), signing := signing_key (replicate 32 9)\<rparr>\<rparr>"

definition front_node :: "(bytes \<times> bytes) list handler" where
  "front_node = demo_node\<lparr>lib_packet := mesh_codec,
     proxy := (proxy demo_node)\<lparr>by_name := engine_names [], default_name := None\<rparr>,
     lib_store := demo_store\<lparr>from_json := (\<lambda>b. Some (demo_manifest (node_id_of demo_crypto (replicate 32 9)) [''x'']))\<rparr>\<rparr>"

definition two_nodes :: "bytes \<Rightarrow> (bytes \<times> bytes) list handler option" where
  "two_nodes e = (if e = replicate 32 7 then Some front_node else if e = replicate 32 9 then Some back_node else None)"

definition two_shared :: "(bytes \<times> bytes) list shared" where
  "two_shared = (demo_shared limiter_new)\<lparr>sh_peers := [([1], [1])]\<rparr>"

definition two_net :: "bytes \<Rightarrow> net_lib" where
  "two_net resp = \<lparr>connect = (\<lambda>e. True), open_bi = (\<lambda>e. True), write_out = (\<lambda>e b. True), finish_out = (\<lambda>e. True),
     read_reply = (\<lambda>e b n. if e = replicate 32 9 \<and> b = [4] then Some resp else None)\<rparr>"

lemma demo_node_keyed: "well_keyed demo_crypto demo_json demo_node"
proof -
  have "str_ok (ep_name ep)" if "resolve (proxy demo_node) target = Some ep" for target ep
    using that
    by (auto simp: demo_node_def resolve_def lookup_engine_names demo_endpoint_def split: if_splits)
  then show ?thesis using demo_root by (auto simp: well_keyed_def demo_node_sel)
qed

lemma two_nodes_sel:
  "lib_packet front_node = mesh_codec" "lib_packet back_node = mesh_codec"
  "lib_crypto front_node = demo_crypto" "lib_crypto back_node = demo_crypto"
  "lib_json front_node = demo_json" "lib_json back_node = demo_json"
  "lib_store (front_node\<lparr>lib_net := N\<rparr>) = lib_store front_node" "me front_node = node_id_of demo_crypto (replicate 32 7)"
  "sh_peers two_shared = [([1], [1])]" "sh_limiter two_shared = limiter_new"
  "resolve (proxy front_node) t = None" "resolve (proxy back_node) t = resolve (proxy demo_node) t"
  "pe_node_id (proxy back_node) = node_id_of demo_crypto (replicate 32 9)"
  "signing (proxy back_node) = signing_key (replicate 32 9)"
  by (simp_all add: front_node_def back_node_def two_shared_def demo_shared_def demo_node_def resolve_def
      lookup_engine_names)

lemma two_nodes_at:
  "two_nodes (replicate 32 7) = Some front_node" "two_nodes (replicate 32 9) = Some back_node"
proof -
  have "(replicate 32 9 :: bytes) \<noteq> replicate 32 7" by code_simp
  then show "two_nodes (replicate 32 7) = Some front_node" "two_nodes (replicate 32 9) = Some back_node"
    by (simp_all add: two_nodes_def)
qed

lemma two_nodes_ids: "node_id_of demo_crypto (replicate 32 9) \<noteq> node_id_of demo_crypto (replicate 32 7)"
  by code_simp

lemma two_nodes_keyed: "two_nodes e = Some h \<Longrightarrow> well_keyed demo_crypto demo_json h \<and> lib_packet h = mesh_codec"
proof -
  have "root_from_mnemonic demo_crypto ''other'' = Inr (replicate 32 9)"
    by (simp add: root_from_mnemonic_def demo_crypto_def)
  then have "well_keyed demo_crypto demo_json back_node"
    using demo_node_keyed by (auto simp: well_keyed_def two_nodes_sel)
  moreover have "well_keyed demo_crypto demo_json front_node"
    using demo_node_keyed by (simp add: well_keyed_def two_nodes_sel) (simp add: front_node_def)
  ultimately show "two_nodes e = Some h \<Longrightarrow> well_keyed demo_crypto demo_json h \<and> lib_packet h = mesh_codec"
    by (auto simp: two_nodes_def two_nodes_sel split: if_split_asm)
qed

lemma mesh_codec_roundtrip: "pkt_print mesh_codec p = Some b \<Longrightarrow> pkt_read mesh_codec b = Some p"
  by (cases p) (auto simp: mesh_codec_def mesh_packet_demo_def demo_packet_def split: if_split_asm)

lemma front_candidates:
  "candidates (lib_store front_node) [([1], [1])] ''x'' (me front_node) = [node_id_of demo_crypto (replicate 32 9)]"
  using two_nodes_ids
  by (simp add: candidates_def providers_of_def peer_list_def front_node_def demo_node_def demo_store_def
      demo_manifest_def List.map_filter_simps)

lemma front_relays:
  "fst (handle_packet (front_node\<lparr>lib_net := two_net resp\<rparr>) c p v1 (mesh_packet_demo 5) two_shared)
    = (if snd (allow limiter_new (mono_now c) p RELAY_RATE) then Relayed (Inr resp)
       else Reject (reject_body (proxy front_node) demo_crypto demo_json (wall_now c) (mesh_packet_demo 5)))"
  "relay_sends demo_crypto (two_net resp) mesh_codec (lib_store front_node) [([1], [1])] (me front_node) (mesh_packet_demo 5)
    = [(replicate 32 9, [4])]"
proof -
  have f: "forward_io demo_crypto (two_net resp) mesh_codec (node_id_of demo_crypto (replicate 32 9)) (next_hop (mesh_packet_demo 5))
    = (Inr resp, [(replicate 32 9, [4])])"
    using node_id_parse [OF demo_crypto_ok, of "replicate 32 9"]
    by (simp add: forward_io_def two_net_def mesh_codec_def next_hop_def mesh_packet_demo_def demo_crypto_def)
  have io: "relay_io demo_crypto (two_net resp) mesh_codec (lib_store front_node) [([1], [1])] (me front_node) (mesh_packet_demo 5)
    = (Inr resp, [(replicate 32 9, [4])])"
    using f front_candidates by (simp add: relay_io_def Let_def mesh_packet_demo_def demo_packet_def)
  then show "relay_sends demo_crypto (two_net resp) mesh_codec (lib_store front_node) [([1], [1])] (me front_node) (mesh_packet_demo 5)
    = [(replicate 32 9, [4])]"
    by (simp add: relay_sends_def)
  from io show "fst (handle_packet (front_node\<lparr>lib_net := two_net resp\<rparr>) c p v1 (mesh_packet_demo 5) two_shared)
    = (if snd (allow limiter_new (mono_now c) p RELAY_RATE) then Relayed (Inr resp)
       else Reject (reject_body (proxy front_node) demo_crypto demo_json (wall_now c) (mesh_packet_demo 5)))"
    by (simp add: handle_packet_action two_nodes_sel rate_of_def serves_def relay_def)
qed

definition demo_clocks :: clocks where
  "demo_clocks = \<lparr>mono_now = 0, wall_now = 0\<rparr>"

text \<open>The packet is answered by the node behind, and relayed by the one in front.\<close>

lemma back_answers:
  "\<exists>resp. fst (handle_packet (back_node\<lparr>lib_net := N\<rparr>) demo_clocks ''p'' False (mesh_packet_demo 4) two_shared) = Execute (Inr resp)"
proof -
  have "resolve (proxy back_node) (target_provider (mesh_packet_demo 4)) = Some (demo_endpoint ''x'' ''http://l'')"
    by (simp add: two_nodes_sel demo_node_sel mesh_packet_demo_def demo_packet_def)
  then show ?thesis
    by (simp add: handle_packet_action two_nodes_sel serves_def execute_def limiter_first split: prod.split)
qed

lemma two_traffic:
  "\<exists>evs resp. traffic two_nodes evs \<and> (replicate 32 7, True, mesh_packet_demo 5, Relayed (Inr resp)) \<in> set evs
    \<and> \<not> gave_up mesh_codec evs (mesh_packet_demo 5)"
proof -
  define N where "N = (two_net [])\<lparr>read_reply := (\<lambda>e b n. None)\<rparr>"
  obtain resp where r: "fst (handle_packet (back_node\<lparr>lib_net := N\<rparr>) demo_clocks ''p'' False (mesh_packet_demo 4) two_shared)
    = Execute (Inr resp)" using back_answers by blast
  have nodes: "two_nodes (replicate 32 9) = Some back_node" "two_nodes (replicate 32 7) = Some front_node"
    using two_nodes_at by simp_all
  have "carries two_nodes [] N" by (simp add: carries_def N_def)
  from traffic.handled [OF traffic.quiet nodes(1) this]
  have t: "traffic two_nodes [(replicate 32 9, False, mesh_packet_demo 4, Execute (Inr resp))]"
    using r by (metis append_Nil)
  have "carries two_nodes [(replicate 32 9, False, mesh_packet_demo 4, Execute (Inr resp))] (two_net resp)"
    by (simp add: carries_def two_net_def nodes two_nodes_sel mesh_codec_def MAX_FRAME_def)
  from traffic.handled [OF t nodes(2) this, where c = demo_clocks and peer = "''p''" and pkt = "mesh_packet_demo 5" and st = two_shared]
  have "traffic two_nodes ([(replicate 32 9, False, mesh_packet_demo 4, Execute (Inr resp))]
      @ [(replicate 32 7, True, mesh_packet_demo 5, Relayed (Inr resp))])"
    by (metis front_relays(1) limiter_first)
  then show ?thesis
    by (intro exI conjI) (auto simp: gave_up_def mesh_codec_def MAX_FRAME_def split: if_split_asm)
qed

section \<open>Properties\<close>

text \<open>C19: however a packet travels, after \<open>n\<close> hops it is the packet that was sent with its TTL less by \<open>n\<close>:
  so no packet, answered or not, makes more hops than its TTL.\<close>

theorem mesh_hop_bound:
  assumes "travels nodes pkt n e p" and "\<And>e h. nodes e = Some h \<Longrightarrow> lib_packet h = P"
    and "\<And>p b. pkt_print P p = Some b \<Longrightarrow> pkt_read P b = Some p"
  shows "p = pkt\<lparr>ttl := ttl p\<rparr> \<and> unat (ttl p) + n = unat (ttl pkt)"
  using assms(1)
proof induction
  case (hop n e p h N c peer v1 st r e' json h' p')
  note sent = relay_sends_next_hop [OF hop.hyps(4)]
  have "p' = next_hop p"
    using sent(2) hop.hyps(6) assms(2) [OF hop.hyps(2)] assms(2) [OF hop.hyps(5)] assms(3) by simp
  with hop.IH next_hop_ttl [OF sent(1)] show ?case by (cases pkt; cases p) (auto simp: next_hop_def)
qed simp

lemma mesh_hop_bound_witness:
  "\<exists>p. travels two_nodes (mesh_packet_demo 5) 1 (replicate 32 9) p
    \<and> p = (mesh_packet_demo 5)\<lparr>ttl := ttl p\<rparr> \<and> unat (ttl p) + 1 = unat (ttl (mesh_packet_demo 5))"
proof -
  have nodes: "two_nodes (replicate 32 9) = Some back_node" "two_nodes (replicate 32 7) = Some front_node"
    using two_nodes_at by simp_all
  have "fst (handle_packet (front_node\<lparr>lib_net := two_net []\<rparr>) demo_clocks ''p'' True (mesh_packet_demo 5) two_shared)
      = Relayed (Inr [])"
    by (simp add: front_relays(1) limiter_first)
  from travels.hop [OF travels.start nodes(2) this _ nodes(1), of "[4]" "mesh_packet_demo 4"]
  have t: "travels two_nodes (mesh_packet_demo 5) 1 (replicate 32 9) (mesh_packet_demo 4)"
    using front_relays(2) [of "[]"] by (simp add: two_nodes_sel) (simp add: mesh_codec_def)
  from mesh_hop_bound [OF this, of mesh_codec] two_nodes_keyed mesh_codec_roundtrip t show ?thesis by blast
qed

text \<open>C4: whatever answer a node gives, over however many relays it came, it is one that some node of the
  network made itself and signed: a client can check it against that node's identifier and recovers
  the refusal or exactly what the node's service said to the original request. The one exception is the
  empty answer, which a relay passes on for a request that a node on its way gave up.\<close>

theorem mesh_answer_authentic:
  assumes "traffic nodes evs" and "crypto_ok L" and "json_ok J"
    and "\<And>e h. nodes e = Some h \<Longrightarrow> well_keyed L J h \<and> lib_packet h = P"
    and "\<And>p b. pkt_print P p = Some b \<Longrightarrow> pkt_read P b = Some p"
    and "(e, v1, pkt, a) \<in> set evs" and "str_ok (target_provider pkt)"
    and "a = Reject resp \<or> a = Execute (Inr resp) \<or> a = Relayed (Inr resp)"
  shows "(\<exists>e h status t raw. nodes e = Some h
      \<and> client_read L J (pe_node_id (proxy h)) resp = Some (status, t, raw) \<and> own_answer h pkt status raw)
    \<or> resp = [] \<and> gave_up P evs pkt"
  using traffic_authentic [OF assms] unfolding answered_by_node_def .

lemma mesh_answer_authentic_witness:
  "\<exists>evs resp. traffic two_nodes evs \<and> (replicate 32 7, True, mesh_packet_demo 5, Relayed (Inr resp)) \<in> set evs
    \<and> (\<exists>e h status t raw. two_nodes e = Some h
          \<and> client_read demo_crypto demo_json (pe_node_id (proxy h)) resp = Some (status, t, raw)
          \<and> own_answer h (mesh_packet_demo 5) status raw)"
proof -
  obtain evs resp where t: "traffic two_nodes evs"
    and e: "(replicate 32 7, True, mesh_packet_demo 5, Relayed (Inr resp)) \<in> set evs"
    and g: "\<not> gave_up mesh_codec evs (mesh_packet_demo 5)"
    using two_traffic by blast
  have name: "str_ok (target_provider (mesh_packet_demo 5))" by (simp add: mesh_packet_demo_def demo_packet_def)
  have "(\<exists>e h status t raw. two_nodes e = Some h
        \<and> client_read demo_crypto demo_json (pe_node_id (proxy h)) resp = Some (status, t, raw)
        \<and> own_answer h (mesh_packet_demo 5) status raw)
      \<or> resp = [] \<and> gave_up mesh_codec evs (mesh_packet_demo 5)"
    by (rule mesh_answer_authentic [OF t demo_crypto_ok demo_json_ok _ _ e name])
      (simp_all add: two_nodes_keyed mesh_codec_roundtrip)
  with t e g show ?thesis by blast
qed

text \<open>A peer that gives up does not count as unavailable: its stream ends with nothing on it, and the relay
  takes this for the answer and asks no other candidate.\<close>

theorem failed_peer_answers:
  assumes "candidates S db (target_provider pkt) own = n # ns" and "ttl pkt \<noteq> 0"
    and "eid_parse L n = Some eid" and "pkt_print P (next_hop pkt) = Some json"
    and "connect N eid" and "open_bi N eid" and "write_out N eid json" and "finish_out N eid"
    and "read_reply N eid json MAX_FRAME = Some (on_stream (Relayed (Inl e)))"
  shows "relay L N P S db own pkt = Inr []"
proof -
  have "fst (forward_io L N P n (next_hop pkt)) = Inr []"
    using assms(3-9) forward_to_Inr [of L N P n "next_hop pkt" "[]"] by (simp add: forward_to_def)
  with assms(1,2) show ?thesis by (simp add: relay_cases try_candidates_Cons del: try_candidates.simps(2))
qed

end
