(* ===== verification/Connections.thy ===== *)
theory Connections
  imports Stats
begin

text \<open>
  \<open>ApiProtocol::accept\<close> of \<open>src/src/p2p_server.rs\<close>: one task per connection accepts its streams and
  starts a task for each, which waits for one of 16 permits, handles the stream and gives the permit
  back. Tokio's semaphore hands permits to the waiting tasks in their order.
\<close>

section \<open>One connection\<close>

definition MAX_CONCURRENT_STREAMS_PER_CONN :: nat where
  "MAX_CONCURRENT_STREAMS_PER_CONN = 16"

text \<open>\<open>waiting\<close> and \<open>handling\<close> are the stream tasks before and after they have their permit.\<close>

record connection =
  accepting :: bool
  permits :: nat
  waiting :: "nat list"
  handling :: "nat list"
  handled :: "nat list"

definition conn_start :: connection where
  "conn_start = \<lparr>accepting = True, permits = MAX_CONCURRENT_STREAMS_PER_CONN, waiting = [], handling = [], handled = []\<rparr>"

datatype conn_error = TimedOut | LocallyClosed | ApplicationClosed | OtherConnError

datatype conn_event =
    AcceptBi nat
  | AcceptFailed conn_error
  | Acquire
  | StreamDone nat

text \<open>The guard of the connection gauge lives as long as the accept loop.\<close>

fun conn_step :: "conn_event \<Rightarrow> connection \<times> stats \<Rightarrow> connection \<times> stats" where
  "conn_step (AcceptBi i) (c, s) = (if accepting c then (c\<lparr>waiting := waiting c @ [i]\<rparr>, s) else (c, s))"
| "conn_step (AcceptFailed e) (c, s) =
     (if accepting c then (c\<lparr>accepting := False\<rparr>, drop_guard s) else (c, s))"
| "conn_step Acquire (c, s) =
     (case waiting c of
        [] \<Rightarrow> (c, s)
      | i # ws \<Rightarrow>
          (if permits c = 0 then (c, s)
           else (c\<lparr>permits := permits c - 1, waiting := ws, handling := i # handling c\<rparr>, s)))"
| "conn_step (StreamDone i) (c, s) =
     (if i \<in> set (handling c)
      then (c\<lparr>permits := permits c + 1, handling := remove1 i (handling c), handled := handled c @ [i]\<rparr>, s)
      else (c, s))"

definition conn_run :: "conn_event list \<Rightarrow> stats \<Rightarrow> connection \<times> stats" where
  "conn_run es s = run_ops conn_step es (conn_start, track_connection s)"

section \<open>Invariant\<close>

text \<open>The streams accepted: those before the loop ends.\<close>

fun accepted_streams :: "conn_event list \<Rightarrow> nat list" where
  "accepted_streams [] = []"
| "accepted_streams (AcceptBi i # es) = i # accepted_streams es"
| "accepted_streams (AcceptFailed e # es) = []"
| "accepted_streams (Acquire # es) = accepted_streams es"
| "accepted_streams (StreamDone i # es) = accepted_streams es"

definition stream_tasks :: "connection \<Rightarrow> nat multiset" where
  "stream_tasks c = mset (waiting c) + mset (handling c) + mset (handled c)"

text \<open>Permits are neither lost nor made, and the gauge has counted the connection while its loop
  runs.\<close>

definition conn_ok :: "u64 \<Rightarrow> connection \<times> stats \<Rightarrow> bool" where
  "conn_ok n cs \<longleftrightarrow>
     permits (fst cs) + length (handling (fst cs)) = MAX_CONCURRENT_STREAMS_PER_CONN \<and>
     active_connections (snd cs) = n + (if accepting (fst cs) then 1 else 0)"

lemma conn_step_ok: "conn_ok n cs \<Longrightarrow> conn_ok n (conn_step e cs)"
proof (cases cs)
  case (Pair c s)
  have rest: "i \<in> set (handling c) \<Longrightarrow> length (handling c) = Suc (length (remove1 i (handling c)))" for i
    using length_remove1 [of i "handling c"] by (cases "length (handling c)") simp_all
  assume "conn_ok n cs"
  with Pair rest show ?thesis
    by (cases e) (auto simp: conn_ok_def drop_guard_def split: list.split)
qed

interpretation connection: invariant_ops conn_step "\<lambda>_ _. True" "conn_ok n" for n
  by unfold_locales (rule conn_step_ok)

lemma legal_always: "legal stp (\<lambda>_ _. True) xs s"
  by (induction xs arbitrary: s) simp_all

lemma conn_run_ok: "conn_ok (active_connections s) (conn_run es s)"
  unfolding conn_run_def
  by (rule connection.run_inv [OF _ legal_always]) (simp add: conn_ok_def conn_start_def track_connection_def)

lemma conn_step_streams:
  "stream_tasks (fst (conn_step e cs)) = stream_tasks (fst cs)
     + (case e of AcceptBi i \<Rightarrow> if accepting (fst cs) then {#i#} else {#} | _ \<Rightarrow> {#})"
  by (cases cs; cases e) (auto simp: stream_tasks_def split: list.split)

lemma conn_run_closed:
  "\<not> accepting (fst cs) \<Longrightarrow> stream_tasks (fst (run_ops conn_step es cs)) = stream_tasks (fst cs)"
proof (induction es arbitrary: cs)
  case (Cons e es)
  have "\<not> accepting (fst (conn_step e cs))"
    using Cons.prems by (cases cs; cases e) (auto split: list.split)
  with Cons show ?case by (simp add: conn_step_streams split: conn_event.split)
qed simp

lemma conn_run_streams:
  "accepting (fst cs) \<Longrightarrow>
     stream_tasks (fst (run_ops conn_step es cs)) = stream_tasks (fst cs) + mset (accepted_streams es)"
proof (induction es arbitrary: cs)
  case (Cons e es)
  show ?case
  proof (cases "\<exists>x. e = AcceptFailed x")
    case True
    then have "\<not> accepting (fst (conn_step e cs))" using Cons.prems by (cases cs) auto
    with True show ?thesis using conn_run_closed conn_step_streams [of e cs] by auto
  next
    case False
    then have "accepting (fst (conn_step e cs))"
      using Cons.prems by (cases cs; cases e) (auto split: list.split)
    with Cons.IH [OF this] Cons.prems False show ?thesis by (cases e) (simp_all add: conn_step_streams)
  qed
qed simp

section \<open>Properties\<close>

text \<open>At most 16 streams of a connection are handled at once, every permit comes back, and the
  gauge counts the connection exactly while its accept loop runs.\<close>

theorem streams_bounded:
  "length (handling (fst (conn_run es s))) \<le> 16
    \<and> permits (fst (conn_run es s)) = 16 - length (handling (fst (conn_run es s)))
    \<and> active_connections (snd (conn_run es s))
      = active_connections s + (if accepting (fst (conn_run es s)) then 1 else 0)"
  using conn_run_ok [of s es] by (auto simp: conn_ok_def MAX_CONCURRENT_STREAMS_PER_CONN_def)

text \<open>No accepted stream is lost or handled twice: at any time each one waits, is handled or has
  been handled.\<close>

theorem streams_conserved:
  "mset (waiting (fst (conn_run es s))) + mset (handling (fst (conn_run es s))) + mset (handled (fst (conn_run es s)))
    = mset (accepted_streams es)"
  using conn_run_streams [of "(conn_start, track_connection s)" es]
  by (simp add: conn_run_def conn_start_def stream_tasks_def)

text \<open>Nothing limits the streams that wait: each accepted one has its task at once, whatever the
  number of permits.\<close>

theorem waiting_unbounded:
  "length (waiting (fst (conn_run (map AcceptBi is) s))) = length is"
proof -
  have "length (waiting (fst (run_ops conn_step (map AcceptBi is) (c, t)))) = length (waiting c) + length is"
    if "accepting c" for c t
    using that by (induction "is" arbitrary: c) simp_all
  then show ?thesis by (simp add: conn_run_def conn_start_def)
qed

end
