(* ===== verification/Discovery.thy ===== *)
theory Discovery
  imports Proxy_Engine Stats
begin

text \<open>
  The background tasks of \<open>src/src/p2p_server.rs\<close>: the announcement of the node's own manifest, the
  listener that checks and stores those of other nodes (\<open>spawn_discovery\<close>, \<open>listen_announces\<close>,
  \<open>verify_manifest\<close>) and the health check (\<open>spawn_health\<close>). Gossip and SHA-256 are parameters.
\<close>

section \<open>Announcing\<close>

definition announce_topic :: "(bytes \<Rightarrow> bytes) \<Rightarrow> bytes" where
  "announce_topic sha256 = take 32 (sha256 (as_bytes ''netfory:announce:v0''))"

definition bootstrap_peers :: "crypto_lib \<Rightarrow> 'db store_lib \<Rightarrow> 'db \<Rightarrow> bytes list" where
  "bootstrap_peers L S db = List.map_filter (eid_parse L) (others S db [])"

definition announce_interval :: "config \<Rightarrow> u64" where
  "announce_interval cfg = max (announce_interval_secs (gossip cfg)) 15"

definition CARGO_PKG_VERSION :: string where
  "CARGO_PKG_VERSION = ''0.6.2''"

text \<open>\<open>eps\<close> are the endpoints in the iteration order of the configuration's map.\<close>

definition own_manifest ::
  "crypto_lib \<Rightarrow> root \<Rightarrow> endpoint_cfg list \<Rightarrow> stats \<Rightarrow> nat \<Rightarrow> int \<Rightarrow> manifest" where
  "own_manifest L rt eps st now clock =
     (let m = \<lparr>mf_node_id = st_node_id st, mf_endpoints = map ep_name eps,
               mf_uptime_secs = uptime_secs now st, mf_latency_ms = avg_latency_ms st,
               mf_requests_total = requests_total st, mf_signed_at = now_secs clock,
               mf_version = CARGO_PKG_VERSION, mf_signature = [], mf_seen_at = 0\<rparr>
      in m\<lparr>mf_signature := sign_hex L (signing_key rt) (canonical_bytes m)\<rparr>)"

definition announcement ::
  "crypto_lib \<Rightarrow> 'db store_lib \<Rightarrow> root \<Rightarrow> endpoint_cfg list \<Rightarrow> stats \<Rightarrow> nat \<Rightarrow> int \<Rightarrow> bytes option" where
  "announcement L S rt eps st now clock = to_json S (own_manifest L rt eps st now clock)"

section \<open>Listening\<close>

definition verify_manifest :: "crypto_lib \<Rightarrow> manifest \<Rightarrow> bool" where
  "verify_manifest L m =
     (case eid_parse L (mf_node_id m) of
        None \<Rightarrow> False
      | Some pk \<Rightarrow>
          if \<not> ed_key_ok L pk then False
          else (case hex_decode L (mf_signature m) of
                  None \<Rightarrow> False
                | Some sb \<Rightarrow> if length sb \<noteq> 64 then False else ed_verify L pk (canonical_bytes m) sb))"

text \<open>A received message comes with the wall clock of its processing.\<close>

datatype gossip_event = Received bytes int | OtherEvent | StreamError

definition on_announce ::
  "crypto_lib \<Rightarrow> 'db store_lib \<Rightarrow> bytes \<Rightarrow> int \<Rightarrow> 'db \<times> stats \<Rightarrow> 'db \<times> stats" where
  "on_announce L S content clock ds =
     (case from_json S content of
        None \<Rightarrow> ds
      | Some m \<Rightarrow>
          if verify_manifest L m then
            let m = m\<lparr>mf_seen_at := now_secs clock\<rparr>;
                db = snd (upsert S m (fst ds))
            in (db, set_active_peers (of_nat (length (peer_list S db))) (snd ds))
          else ds)"

fun listen_announces ::
  "crypto_lib \<Rightarrow> 'db store_lib \<Rightarrow> gossip_event list \<Rightarrow> 'db \<times> stats \<Rightarrow> 'db \<times> stats" where
  "listen_announces L S [] ds = ds"
| "listen_announces L S (Received content clock # es) ds =
     listen_announces L S es (on_announce L S content clock ds)"
| "listen_announces L S (OtherEvent # es) ds = listen_announces L S es ds"
| "listen_announces L S (StreamError # es) ds = ds"

text \<open>The whole task: what it broadcasts in the rounds of its loop, each with the statistics and clocks of
  its time, and what its listener leaves. Without a subscription there is neither, for good; a broadcast
  that fails is ignored.\<close>

definition spawn_discovery ::
  "crypto_lib \<Rightarrow> (bytes \<Rightarrow> bytes) \<Rightarrow> 'db store_lib \<Rightarrow> (bytes \<Rightarrow> bytes list \<Rightarrow> bool) \<Rightarrow> root \<Rightarrow> endpoint_cfg list
     \<Rightarrow> (stats \<times> nat \<times> int) list \<Rightarrow> gossip_event list \<Rightarrow> 'db \<times> stats \<Rightarrow> bytes list \<times> 'db \<times> stats" where
  "spawn_discovery L sha256 S subscribe rt eps rounds es ds =
     (if \<not> subscribe (announce_topic sha256) (bootstrap_peers L S (fst ds)) then ([], ds)
      else (List.map_filter (\<lambda>(st, now, clock). announcement L S rt eps st now clock) rounds,
            listen_announces L S es ds))"

section \<open>Health\<close>

definition health_status :: "engine \<Rightarrow> (string \<Rightarrow> bool \<times> nat) \<Rightarrow> string \<Rightarrow> rpc_status" where
  "health_status E get name =
     (case health E get name of
        (onl, lat) \<Rightarrow> \<lparr>rpc_name = name, online = onl, rpc_latency_ms = lat, rpc_protocols = protocols_for E name\<rparr>)"

text \<open>One round; \<open>ns\<close> is what \<open>names\<close> returned.\<close>

definition health_round ::
  "engine \<Rightarrow> (string \<Rightarrow> bool \<times> nat) \<Rightarrow> string list \<Rightarrow> 'db store_lib \<Rightarrow> 'db \<Rightarrow> stats \<Rightarrow> stats" where
  "health_round E get ns S db st =
     set_active_peers (of_nat (length (peer_list S db))) (set_rpc (map (health_status E get) ns) st)"

section \<open>The accepted manifests\<close>

lemma verify_seen_at: "verify_manifest L (m\<lparr>mf_seen_at := t\<rparr>) = verify_manifest L m"
proof -
  have "canonical_bytes (m\<lparr>mf_seen_at := t\<rparr>) = canonical_bytes m"
    and "mf_node_id (m\<lparr>mf_seen_at := t\<rparr>) = mf_node_id m"
    and "mf_signature (m\<lparr>mf_seen_at := t\<rparr>) = mf_signature m"
    by (simp_all add: canonical_bytes_def)
  then show ?thesis unfolding verify_manifest_def by (simp only:)
qed

text \<open>Listening is inserting verified manifests, one after the other.\<close>

lemma listen_inserts:
  "\<exists>ms. list_all (verify_manifest L) ms
     \<and> fst (listen_announces L S es ds) = fold (\<lambda>m d. snd (upsert S m d)) ms (fst ds)"
proof (induction L S es ds rule: listen_announces.induct)
  case (2 L S content clock es ds)
  then obtain ms where ms: "list_all (verify_manifest L) ms"
    "fst (listen_announces L S es (on_announce L S content clock ds))
       = fold (\<lambda>m d. snd (upsert S m d)) ms (fst (on_announce L S content clock ds))" by blast
  show ?case
  proof (cases "from_json S content")
    case None
    with ms show ?thesis by (auto simp: on_announce_def)
  next
    case (Some m)
    show ?thesis
    proof (cases "verify_manifest L m")
      case True
      with ms Some verify_seen_at show ?thesis
        by (intro exI [of _ "m\<lparr>mf_seen_at := now_secs clock\<rparr> # ms"]) (simp add: on_announce_def Let_def)
    next
      case False
      with ms Some show ?thesis by (auto simp: on_announce_def)
    qed
  qed
qed (force intro: exI [of _ "[]"])+

lemma listen_put_all:
  obtains ms where "list_all (verify_manifest L) ms"
    and "fst (listen_announces L S es ds) = peers.put_all (S, view) ms (fst ds)"
  using listen_inserts [of L S es ds] by (auto simp: peers.put_all_def)

lemma own_manifest_ok:
  assumes "crypto_ok L" and "root_from_mnemonic L mnemonic = Inr rt" and "st_node_id st = node_id_of L rt"
  shows "verify_manifest L (own_manifest L rt eps st now clock)"
proof -
  have len: "length rt = 32" by (rule root_length [OF assms(1,2)])
  define m where "m = \<lparr>mf_node_id = st_node_id st, mf_endpoints = map ep_name eps,
    mf_uptime_secs = uptime_secs now st, mf_latency_ms = avg_latency_ms st,
    mf_requests_total = requests_total st, mf_signed_at = now_secs clock,
    mf_version = CARGO_PKG_VERSION, mf_signature = [], mf_seen_at = 0\<rparr>"
  define om where "om = own_manifest L rt eps st now clock"
  have om: "om = m\<lparr>mf_signature := sign_hex L (signing_key rt) (canonical_bytes m)\<rparr>"
    by (simp add: om_def own_manifest_def Let_def m_def)
  then have "canonical_bytes om = canonical_bytes m" by (simp add: canonical_bytes_def)
  moreover have "mf_signature om = hex_encode L (ed_sign L rt (canonical_bytes m))"
    by (simp add: om sign_hex_def signing_key_def)
  moreover have "mf_node_id om = node_id_of L rt" by (simp add: om) (simp add: m_def assms(3))
  ultimately have "verify_manifest L om"
    using node_id_parse [OF assms(1) len] public_ok [OF assms(1) len] hex_decode_encode [OF assms(1)]
      length_sign [OF assms(1) len] verify_sign [OF assms(1) len]
    by (simp add: verify_manifest_def)
  then show ?thesis by (simp add: om_def)
qed

lemma own_manifest_sel:
  "mf_node_id (own_manifest L rt eps st now clock) = st_node_id st"
  "mf_endpoints (own_manifest L rt eps st now clock) = map ep_name eps"
  by (simp_all add: own_manifest_def Let_def)

lemma broadcast_manifest:
  assumes "content \<in> set (fst (spawn_discovery L sha256 S subscribe rt eps rounds es ds))"
  obtains st now clock where "(st, now, clock) \<in> set rounds"
    and "to_json S (own_manifest L rt eps st now clock) = Some content"
  using assms by (auto simp: spawn_discovery_def announcement_def set_map_filter split: if_splits)

lemma put_all_verified:
  assumes "store_ok S view" and "store_inv S view db"
    and "\<And>n m. abs_store S view db n = Some m \<Longrightarrow> verify_manifest L m" and "list_all (verify_manifest L) ms"
  shows "list_all (verify_manifest L) (peer_list S (peers.put_all (S, view) ms db))
    \<and> distinct (map mf_node_id (peer_list S (peers.put_all (S, view) ms db)))"
proof -
  have good: "good_store (S, view) db" using assms(1,2) by (simp add: good_store_def)
  have "verify_manifest L m" if "m \<in> set (peer_list S (peers.put_all (S, view) ms db))" for m
    using peers.listed_source [OF good, of m ms] that assms(3,4) by (auto simp: list_all_iff)
  moreover have "distinct (map mf_node_id (peer_list S (peers.put_all (S, view) ms db)))"
    using peers.keys_distinct [OF peers.put_all_inv [OF good]] by simp
  ultimately show ?thesis unfolding list_all_iff by blast
qed

section \<open>Properties\<close>

text \<open>The peer table never holds a forged entry: after any sequence of gossip messages, valid,
  forged or broken, and whatever inserts fail, every listed manifest carries a signature of the node
  it names, if the entries there at the start do, and each node is listed once.\<close>

theorem peer_table_verified:
  assumes "store_ok S view" and "store_inv S view db"
    and "\<And>n m. abs_store S view db n = Some m \<Longrightarrow> verify_manifest L m"
  shows "list_all (verify_manifest L) (peer_list S (fst (listen_announces L S es (db, st))))
    \<and> distinct (map mf_node_id (peer_list S (fst (listen_announces L S es (db, st)))))"
proof -
  obtain ms where ms: "list_all (verify_manifest L) ms"
    "fst (listen_announces L S es (db, st)) = peers.put_all (S, view) ms db"
    using listen_put_all [of L S es "(db, st)" view] by auto
  show ?thesis unfolding ms(2) using assms ms(1) by (rule put_all_verified)
qed

lemma peer_table_verified_witness:
  "list_all (verify_manifest demo_crypto) (peer_list demo_store
     (fst (listen_announces demo_crypto demo_store [OtherEvent, Received [1] 5] ([], stats_new 0 ''n'' 0 True))))"
  by (rule peer_table_verified [OF demo_store_ok, THEN conjunct1])
    (simp_all add: store_inv_def abs_store_def)

text \<open>A node's own announcement passes the check that every listener makes.\<close>

theorem own_manifest_verifies:
  assumes "crypto_ok L" and "root_from_mnemonic L mnemonic = Inr rt" and "st_node_id st = node_id_of L rt"
  shows "verify_manifest L (own_manifest L rt eps st now clock)"
  using assms by (rule own_manifest_ok)

lemma own_manifest_verifies_witness:
  "verify_manifest demo_crypto (own_manifest demo_crypto (replicate 32 7) []
     (stats_new 0 (node_id_of demo_crypto (replicate 32 7)) 0 True) 1 5)"
  by (rule own_manifest_verifies [OF demo_crypto_ok, of "''demo''"])
    (simp_all add: root_from_mnemonic_def demo_crypto_def stats_new_def)

text \<open>A genuine but older announcement that is sent again replaces a newer one: the time of
  signing is not compared.\<close>

theorem replay_replaces:
  assumes "store_ok S view" and "from_json S content = Some old" and "verify_manifest L old"
    and "fst (upsert S (old\<lparr>mf_seen_at := now_secs clock\<rparr>) db) = Inr ()"
  shows "abs_store S view (fst (listen_announces L S [Received content clock] (db, st))) (mf_node_id old)
    = Some (old\<lparr>mf_seen_at := now_secs clock\<rparr>)"
proof -
  obtain r db' where u: "upsert S (old\<lparr>mf_seen_at := now_secs clock\<rparr>) db = (r, db')" by fastforce
  with upsert_abs [OF assms(1) u] assms show ?thesis by (simp add: on_announce_def Let_def)
qed

text \<open>A store whose codec knows one signed manifest.\<close>

definition old_manifest :: "int \<Rightarrow> manifest" where
  "old_manifest t = (own_manifest demo_crypto (replicate 32 7) [demo_endpoint ''x'' ''http://l'']
     (stats_new 0 (node_id_of demo_crypto (replicate 32 7)) 0 True) 0 0)\<lparr>mf_seen_at := now_secs t\<rparr>"

definition replay_store :: "(bytes \<times> bytes) list store_lib" where
  "replay_store = demo_store\<lparr>
     to_json := (\<lambda>m. if m = old_manifest 0 then Some [1] else if m = old_manifest (9 * 10 ^ 9) then Some [2] else None),
     from_json := (\<lambda>b. if b = [1] then Some (old_manifest 0) else if b = [2] then Some (old_manifest (9 * 10 ^ 9)) else None)\<rparr>"

lemma replay_store_ok: "store_ok replay_store map_of"
  unfolding replay_store_def
  by (rule store_ok_codec [OF demo_store_ok]) (auto split: if_split_asm)

lemma old_manifest_seen: "(old_manifest s)\<lparr>mf_seen_at := now_secs t\<rparr> = old_manifest t"
  by (simp add: old_manifest_def)

lemma old_manifest_verifies: "verify_manifest demo_crypto (old_manifest t)"
  using own_manifest_ok [OF demo_crypto_ok, of "''demo''" "replicate 32 7"
      "stats_new 0 (node_id_of demo_crypto (replicate 32 7)) 0 True"]
  by (simp add: old_manifest_def verify_seen_at root_from_mnemonic_def demo_crypto_def stats_new_def)

lemma replay_replaces_witness:
  "abs_store replay_store map_of (fst (listen_announces demo_crypto replay_store [Received [1] (9 * 10 ^ 9)]
      ([], stats_new 0 ''n'' 0 True))) (mf_node_id (old_manifest 0))
    = Some ((old_manifest 0)\<lparr>mf_seen_at := now_secs (9 * 10 ^ 9)\<rparr>)"
proof (rule replay_replaces [OF replay_store_ok])
  show "from_json replay_store [1] = Some (old_manifest 0)" by (simp add: replay_store_def)
  show "verify_manifest demo_crypto (old_manifest 0)" by (rule old_manifest_verifies)
  show "fst (upsert replay_store ((old_manifest 0)\<lparr>mf_seen_at := now_secs (9 * 10 ^ 9)\<rparr>) []) = Inr ()"
    unfolding old_manifest_seen by (simp add: upsert_def replay_store_def demo_store_def split: prod.split)
qed

text \<open>The signature of a manifest does not tell a name with a comma from two names, nor no name from an
  empty one: whoever passes an announcement on can exchange them.\<close>

theorem names_not_signed_apart:
  "verify_manifest L (m\<lparr>mf_endpoints := as @ [a @ '','' @ b] @ bs\<rparr>) = verify_manifest L (m\<lparr>mf_endpoints := as @ [a, b] @ bs\<rparr>)
    \<and> verify_manifest L (m\<lparr>mf_endpoints := [[]]\<rparr>) = verify_manifest L (m\<lparr>mf_endpoints := []\<rparr>)"
  by (simp add: verify_manifest_def canonical_bytes_names del: append.simps split: option.split)

text \<open>A health round leaves one entry per endpoint, with \<open>rpc\<close> and, exactly where a WebSocket URL
  is configured, \<open>ws\<close>, and online exactly where the service answered.\<close>

theorem health_round_entries:
  assumes "is_names E ns"
  shows "map rpc_name (rpc (health_round E get ns S db st)) = ns
    \<and> list_all (\<lambda>r. case Mapping.lookup (by_name E) (rpc_name r) of
          None \<Rightarrow> False
        | Some ep \<Rightarrow> online r = fst (get (local_url ep))
            \<and> (rpc_name r \<noteq> [] \<longrightarrow> rpc_protocols r = (if local_ws_url ep = None then [''rpc''] else [''rpc'', ''ws''])))
        (rpc (health_round E get ns S db st))"
proof
  have sel: "rpc (health_round E get ns S db st) = map (health_status E get) ns"
    by (simp add: health_round_def set_active_peers_def set_rpc_def)
  show "map rpc_name (rpc (health_round E get ns S db st)) = ns"
    unfolding sel by (induction ns) (simp_all add: health_status_def split: prod.split)
  have "case Mapping.lookup (by_name E) (rpc_name (health_status E get n)) of
          None \<Rightarrow> False
        | Some ep \<Rightarrow> online (health_status E get n) = fst (get (local_url ep))
            \<and> (rpc_name (health_status E get n) \<noteq> [] \<longrightarrow> rpc_protocols (health_status E get n)
                = (if local_ws_url ep = None then [''rpc''] else [''rpc'', ''ws'']))" if "n \<in> set ns" for n
  proof -
    have "n \<in> dom (Mapping.lookup (by_name E))" using assms that by (simp add: is_names_def keys_dom_lookup)
    then obtain ep where ep: "Mapping.lookup (by_name E) n = Some ep" by blast
    obtain ok t where g: "get (local_url ep) = (ok, t)" by fastforce
    have "rpc_name (health_status E get n) = n" and "online (health_status E get n) = ok"
      and "rpc_protocols (health_status E get n) = protocols_for E n"
      by (simp_all add: health_status_def health_def ep g)
    with ep g show ?thesis by (simp add: protocols_for_def resolve_def)
  qed
  then show "list_all (\<lambda>r. case Mapping.lookup (by_name E) (rpc_name r) of
          None \<Rightarrow> False
        | Some ep \<Rightarrow> online r = fst (get (local_url ep))
            \<and> (rpc_name r \<noteq> [] \<longrightarrow> rpc_protocols r = (if local_ws_url ep = None then [''rpc''] else [''rpc'', ''ws''])))
        (rpc (health_round E get ns S db st))"
    unfolding sel list_all_iff set_map by blast
qed

lemma health_round_entries_witness:
  "map rpc_name (rpc (health_round \<lparr>by_name = Mapping.empty, default_name = None, pe_node_id = [], signing = []\<rparr>
     (\<lambda>u. (True, 0)) [] demo_store [] (stats_new 0 ''n'' 0 True))) = []"
  by (rule health_round_entries [THEN conjunct1]) (simp add: is_names_def)

end
