(* ===== verification/Server.thy ===== *)
theory Server
  imports Mesh Connections Discovery
begin

text \<open>
  The node as a whole: any number of connections, each with its accept loop and its stream tasks, and
  the background tasks, over one shared state. A step of the system is a step of one task; between two
  of them any other task may run. Steps carry labels: what an
  observer of the counters, the limiter, the network, the streams and the health check sees.
\<close>

section \<open>Requests in sequence\<close>

text \<open>A request as it enters \<open>handle_packet\<close>: its clocks, the peer, the protocol version, the packet.
  The requests are in the order in which they take the limiter's lock.\<close>

type_synonym request = "clocks \<times> string \<times> bool \<times> mesh_packet"

primrec run_packets :: "'db handler \<Rightarrow> request list \<Rightarrow> 'db shared \<Rightarrow> action list" where
  "run_packets h [] st = []"
| "run_packets h (r # rs) st =
     (case r of (c, peer, v1, pkt) \<Rightarrow>
        (case handle_packet h c peer v1 pkt st of (a, st') \<Rightarrow> a # run_packets h rs st'))"

fun admitted :: "action \<Rightarrow> bool" where
  "admitted (Reject r) = False"
| "admitted _ = True"

definition limiter_call :: "'db handler \<Rightarrow> request \<Rightarrow> call" where
  "limiter_call h r = (case r of (c, peer, v1, pkt) \<Rightarrow> (mono_now c, peer, rate_of h pkt))"

lemma admitted_iff:
  "admitted (fst (handle_packet h c peer v1 pkt st))
    \<longleftrightarrow> snd (allow (sh_limiter st) (mono_now c) peer (rate_of h pkt))"
  by (simp add: handle_packet_action)

lemma run_packets_limiter:
  "map admitted (run_packets h rs st) = run_calls allow (sh_limiter st) (map (limiter_call h) rs)"
proof (induction rs arbitrary: st)
  case (Cons r rs)
  obtain c peer v1 pkt where r: "r = (c, peer, v1, pkt)" by (cases r) auto
  obtain a st' where p: "handle_packet h c peer v1 pkt st = (a, st')" by fastforce
  have "admitted a = snd (allow (sh_limiter st) (mono_now c) peer (rate_of h pkt))"
    and "sh_limiter st' = fst (allow (sh_limiter st) (mono_now c) peer (rate_of h pkt))"
    using admitted_iff [of h c peer v1 pkt st] handle_packet_state [of h c peer v1 pkt st] p by simp_all
  with Cons.IH [of st'] r p show ?case by (simp add: limiter_call_def Let_def)
qed simp

section \<open>Work in sequence\<close>

text \<open>What takes the lock of the limiter: a request, or a message of a tunnel (the peer, the target,
  the instant).\<close>

datatype work = Request request | Message string string nat

definition do_work :: "'db handler \<Rightarrow> work \<Rightarrow> 'db shared \<Rightarrow> bool \<times> 'db shared" where
  "do_work h w st =
     (case w of
        Request r \<Rightarrow>
          (case r of (c, peer, v1, pkt) \<Rightarrow>
             (case handle_packet h c peer v1 pkt st of (a, st') \<Rightarrow> (admitted a, st')))
      | Message peer target now \<Rightarrow>
          (case allow (sh_limiter st) now (ws_peer_key peer target) (ws_msg_rate_for (proxy h) target) of
             (l, ok) \<Rightarrow> (ok, st\<lparr>sh_limiter := l\<rparr>)))"

primrec run_work :: "'db handler \<Rightarrow> work list \<Rightarrow> 'db shared \<Rightarrow> bool list \<times> 'db shared" where
  "run_work h [] st = ([], st)"
| "run_work h (w # ws) st =
     (case do_work h w st of (ok, st') \<Rightarrow> (case run_work h ws st' of (oks, st'') \<Rightarrow> (ok # oks, st'')))"

section \<open>The state of the system\<close>

text \<open>The branch of \<open>handle_stream\<close> that a packet takes, what it counts and what it answers.\<close>

datatype route = ToReject | ToTunnel | ToExecute | ToRelay

definition route_of :: "'db handler \<Rightarrow> bool \<Rightarrow> mesh_packet \<Rightarrow> bool \<Rightarrow> route" where
  "route_of h v1 pkt ok =
     (if \<not> ok then ToReject
      else if v1 \<and> eq_ignore_ascii_case (req_method pkt) ''WS'' \<and> serves (proxy h) (target_provider pkt) then ToTunnel
      else if serves (proxy h) (target_provider pkt) then ToExecute
      else ToRelay)"

fun route_counter :: "route \<Rightarrow> counter_op" where
  "route_counter ToReject = IncRejected"
| "route_counter ToTunnel = IncProxied"
| "route_counter ToExecute = IncProxied"
| "route_counter ToRelay = IncRelayed"

fun answer_of :: "'db handler \<Rightarrow> route \<Rightarrow> int \<Rightarrow> mesh_packet \<Rightarrow> 'db \<Rightarrow> action" where
  "answer_of h ToReject clock pkt db = Reject (reject_body (proxy h) (lib_crypto h) (lib_json h) clock pkt)"
| "answer_of h ToTunnel clock pkt db = Tunnel"
| "answer_of h ToExecute clock pkt db =
     Execute (case execute (proxy h) (lib_crypto h) (lib_json h) (lib_http h) (http_send h) clock pkt False of
                Inl e \<Rightarrow> Inl (ProxyFailed e) | Inr r \<Rightarrow> Inr r)"
| "answer_of h ToRelay clock pkt db =
     Relayed (case relay (lib_crypto h) (lib_net h) (lib_packet h) (lib_store h) db (me h) pkt of
                Inl e \<Rightarrow> Inl (RelayFailed e) | Inr r \<Rightarrow> Inr r)"

text \<open>The points of a stream's task between which other tasks may run. \<open>Waiting\<close> has no permit yet;
  \<open>Started\<close> is at the start of \<open>handle_stream\<close>; \<open>Fallback\<close> found no peer that
  announces the name; \<open>Trying\<close> has these candidates left; \<open>Answering\<close> has its response and writes it.\<close>

datatype phase =
    Waiting
  | Started
  | Parsed mesh_packet
  | Counted mesh_packet
  | Clocked mesh_packet nat
  | Decided mesh_packet route
  | Working mesh_packet route
  | Fallback mesh_packet
  | Trying mesh_packet "string list"
  | Answering mesh_packet action
  | Tunnelling mesh_packet tunnel
  | Ended

fun phase_done :: "phase \<Rightarrow> bool" where
  "phase_done Ended = True"
| "phase_done (Tunnelling pkt t) = returned t"
| "phase_done _ = False"

record accept_loop =
  al_peer :: string
  al_v1 :: bool
  al_conn :: connection

text \<open>The listener of announcements and the health check: in a round, with the entries so far and the
  names to come; before they count the peers, and before they show the number.\<close>

datatype background = Listener | Checker

datatype stage = Resting | Probing "rpc_status list" "string list" | Counting | Showing nat

record 'db server =
  sv :: "'db shared"
  conns :: "nat \<Rightarrow> accept_loop option"
  tasks :: "nat \<times> nat \<Rightarrow> phase option"
  stages :: "background \<Rightarrow> stage"

definition server_start :: "'db shared \<Rightarrow> 'db server" where
  "server_start st = \<lparr>sv = st, conns = Map.empty, tasks = Map.empty, stages = (\<lambda>b. Resting)\<rparr>"

section \<open>The steps\<close>

text \<open>What can be seen of a step: what was counted; what the limiter decided; which reply the network gave to
  which bytes written to which endpoint; which answer, or error, a task ended with for its packet; that a
  health round began with these names, what the service of a name gave when its URL was asked, and
  that the round was shown.\<close>

datatype label =
    Silent
  | Count counter_op
  | Decision work bool
  | Replied "nat \<times> nat" bytes bytes bytes
  | Handled "nat \<times> nat" mesh_packet action
  | Round "string list"
  | Probed string "(string \<times> bool \<times> nat) option"
  | Published

text \<open>What the network gave to what a task wrote, whatever the task makes of it.\<close>

definition net_label :: "net_lib \<Rightarrow> nat \<times> nat \<Rightarrow> (bytes \<times> bytes) list \<Rightarrow> label" where
  "net_label N k out =
     (case out of
        [] \<Rightarrow> Silent
      | (eid, json) # out' \<Rightarrow>
          (if write_out N eid json \<and> finish_out N eid
           then (case read_reply N eid json MAX_FRAME of None \<Rightarrow> Silent | Some raw \<Rightarrow> Replied k eid json raw)
           else Silent))"

definition probe_label :: "engine \<Rightarrow> (string \<Rightarrow> bool \<times> nat) \<Rightarrow> string \<Rightarrow> label" where
  "probe_label E get n = Probed n (map_option (\<lambda>ep. (local_url ep, get (local_url ep))) (Mapping.lookup (by_name E) n))"

definition with_stats :: "(stats \<Rightarrow> stats) \<Rightarrow> 'db server \<Rightarrow> 'db server" where
  "with_stats f s = s\<lparr>sv := (sv s)\<lparr>sh_stats := f (sh_stats (sv s))\<rparr>\<rparr>"

definition with_limiter :: "limiter \<Rightarrow> 'db server \<Rightarrow> 'db server" where
  "with_limiter l s = s\<lparr>sv := (sv s)\<lparr>sh_limiter := l\<rparr>\<rparr>"

definition set_task :: "nat \<times> nat \<Rightarrow> phase \<Rightarrow> 'db server \<Rightarrow> 'db server" where
  "set_task k p s = s\<lparr>tasks := (tasks s)(k \<mapsto> p)\<rparr>"

definition with_peers :: "('db \<Rightarrow> 'db) \<Rightarrow> 'db server \<Rightarrow> 'db server" where
  "with_peers f s = s\<lparr>sv := (sv s)\<lparr>sh_peers := f (sh_peers (sv s))\<rparr>\<rparr>"

definition set_stage :: "background \<Rightarrow> stage \<Rightarrow> 'db server \<Rightarrow> 'db server" where
  "set_stage b p s = s\<lparr>stages := (stages s)(b := p)\<rparr>"

text \<open>An event of the accept loop of connection \<open>i\<close>.\<close>

definition on_conn :: "nat \<Rightarrow> conn_event \<Rightarrow> accept_loop \<Rightarrow> 'db server \<Rightarrow> 'db server" where
  "on_conn i e c s =
     (case conn_step e (al_conn c, sh_stats (sv s)) of
        (k, st) \<Rightarrow> with_stats (\<lambda>_. st) (s\<lparr>conns := (conns s)(i \<mapsto> c\<lparr>al_conn := k\<rparr>)\<rparr>))"

text \<open>Whether an event of a tunnel asks the limiter: a message from the client that is not control.\<close>

fun message_work :: "string \<Rightarrow> mesh_packet \<Rightarrow> tunnel_event \<Rightarrow> tunnel \<Rightarrow> work option" where
  "message_work peer pkt (ClientRead (Inr (Some f)) now) t =
     (if client_to_up t = Reading \<and> snd (client_msg f) = Timed
      then Some (Message peer (target_provider pkt) now) else None)"
| "message_work peer pkt _ t = None"

text \<open>A step of a tunnel on the limiter that all tasks share.\<close>

definition tunnel_move :: "'db handler \<Rightarrow> string \<Rightarrow> mesh_packet \<Rightarrow> tunnel_event \<Rightarrow> limiter \<Rightarrow> tunnel \<Rightarrow> tunnel" where
  "tunnel_move h peer pkt e l t =
     tunnel_step (ws_peer_key peer (target_provider pkt)) (ws_msg_rate_for (proxy h) (target_provider pkt)) e
       (t\<lparr>t_limiter := l\<rparr>)"

definition all_streams :: "connection \<Rightarrow> nat list" where
  "all_streams c = waiting c @ handling c @ handled c"

text \<open>
  The accept loops, which start a task for each stream at once, and the permits; then \<open>handle_stream\<close>, where a read or a parse may fail, and a task
  may be in a write or a request to a service for as long as these take; a relay reads the table of
  peers once or twice and then asks one candidate after the other, over the network \<open>N\<close> of that moment;
  then the listener of announcements, the health check and the DHT monitor.
\<close>

inductive server_step :: "'db handler \<Rightarrow> 'db server \<Rightarrow> label \<Rightarrow> 'db server \<Rightarrow> bool" for h where
  connect: "conns s i = None \<Longrightarrow>
    server_step h s (Count OpenConn)
      (with_stats track_connection
        (s\<lparr>conns := (conns s)(i \<mapsto> \<lparr>al_peer = peer, al_v1 = v1, al_conn = conn_start\<rparr>)\<rparr>))"
| accept: "conns s i = Some c \<Longrightarrow> accepting (al_conn c) \<Longrightarrow> j \<notin> set (all_streams (al_conn c)) \<Longrightarrow>
    server_step h s Silent (set_task (i, j) Waiting (on_conn i (AcceptBi j) c s))"
| close: "conns s i = Some c \<Longrightarrow> accepting (al_conn c) \<Longrightarrow>
    server_step h s (Count DropConn) (on_conn i (AcceptFailed e) c s)"
| acquire: "conns s i = Some c \<Longrightarrow> waiting (al_conn c) = j # ws \<Longrightarrow> permits (al_conn c) \<noteq> 0 \<Longrightarrow>
    server_step h s Silent (set_task (i, j) Started (on_conn i Acquire c s))"
| release: "conns s i = Some c \<Longrightarrow> j \<in> set (handling (al_conn c)) \<Longrightarrow> tasks s (i, j) = Some p \<Longrightarrow> phase_done p \<Longrightarrow>
    server_step h s Silent (on_conn i (StreamDone j) c s)"
| unread: "tasks s k = Some Started \<Longrightarrow> server_step h s Silent (set_task k Ended s)"
| parse: "tasks s k = Some Started \<Longrightarrow> pkt_read (lib_packet h) raw = Some pkt \<Longrightarrow>
    server_step h s Silent (set_task k (Parsed pkt) s)"
| total: "tasks s k = Some (Parsed pkt) \<Longrightarrow>
    server_step h s (Count IncTotal) (set_task k (Counted pkt) (with_stats inc_total s))"
| clock: "tasks s k = Some (Counted pkt) \<Longrightarrow> server_step h s Silent (set_task k (Clocked pkt now) s)"
| check: "tasks s (i, j) = Some (Clocked pkt now) \<Longrightarrow> conns s i = Some c \<Longrightarrow>
    allow (sh_limiter (sv s)) now (al_peer c) (rate_of h pkt) = (l, ok) \<Longrightarrow>
    server_step h s (Decision (Request (\<lparr>mono_now = now, wall_now = 0\<rparr>, al_peer c, al_v1 c, pkt)) ok)
      (set_task (i, j) (Decided pkt (route_of h (al_v1 c) pkt ok)) (with_limiter l s))"
| outcome: "tasks s k = Some (Decided pkt r) \<Longrightarrow>
    server_step h s (Count (route_counter r))
      (set_task k (Working pkt r) (with_stats (counter_step (route_counter r)) s))"
| answer: "tasks s k = Some (Working pkt r) \<Longrightarrow> r \<noteq> ToTunnel \<Longrightarrow> r \<noteq> ToRelay \<Longrightarrow>
    server_step h s Silent (set_task k (Answering pkt (answer_of h r wall pkt (sh_peers (sv s)))) s)"
| expired: "tasks s k = Some (Working pkt ToRelay) \<Longrightarrow> ttl pkt = 0 \<Longrightarrow>
    server_step h s Silent (set_task k (Answering pkt (Relayed (Inl (RelayFailed TtlExpired)))) s)"
| named: "tasks s k = Some (Working pkt ToRelay) \<Longrightarrow> ttl pkt \<noteq> 0 \<Longrightarrow>
    cs = providers_of (lib_store h) (sh_peers (sv s)) (target_provider pkt) (me h) \<Longrightarrow>
    server_step h s Silent (set_task k (if cs = [] then Fallback pkt else Trying pkt cs) s)"
| fallback: "tasks s k = Some (Fallback pkt) \<Longrightarrow> cs = others (lib_store h) (sh_peers (sv s)) (me h) \<Longrightarrow>
    server_step h s Silent
      (set_task k (if cs = [] then Answering pkt (Relayed (Inl (RelayFailed NoPeers))) else Trying pkt cs) s)"
| attempt: "tasks s k = Some (Trying pkt (cand # cs)) \<Longrightarrow>
    forward_io (lib_crypto h) N (lib_packet h) cand (next_hop pkt) = (r, out) \<Longrightarrow>
    server_step h s (net_label N k out)
      (set_task k (case r of Inr resp \<Rightarrow> Answering pkt (Relayed (Inr resp)) | Inl e \<Rightarrow> Trying pkt cs) s)"
| exhausted: "tasks s k = Some (Trying pkt []) \<Longrightarrow>
    server_step h s Silent (set_task k (Answering pkt (Relayed (Inl (RelayFailed AllFailed)))) s)"
| written: "tasks s k = Some (Answering pkt a) \<Longrightarrow> server_step h s (Handled k pkt a) (set_task k Ended s)"
| refused: "tasks s k = Some (Working pkt ToTunnel) \<Longrightarrow> server_step h s Silent (set_task k Ended s)"
| opened: "tasks s k = Some (Working pkt ToTunnel) \<Longrightarrow>
    server_step h s Silent (set_task k (Tunnelling pkt (tunnel_start (sh_limiter (sv s)))) s)"
| tunnel: "tasks s (i, j) = Some (Tunnelling pkt t) \<Longrightarrow> conns s i = Some c \<Longrightarrow>
    t' = tunnel_move h (al_peer c) pkt e (sh_limiter (sv s)) t \<Longrightarrow>
    server_step h s
      (case message_work (al_peer c) pkt e t of None \<Rightarrow> Silent | Some w \<Rightarrow> Decision w (fst (do_work h w (sv s))))
      (set_task (i, j) (Tunnelling pkt t') (with_limiter (t_limiter t') s))"
| announced: "stages s Listener = Resting \<Longrightarrow> from_json (lib_store h) content = Some m \<Longrightarrow>
    verify_manifest (lib_crypto h) m \<Longrightarrow>
    server_step h s Silent (set_stage Listener Counting
      (with_peers (\<lambda>db. snd (upsert (lib_store h) (m\<lparr>mf_seen_at := now_secs wall\<rparr>) db)) s))"
| round: "stages s Checker = Resting \<Longrightarrow> is_names (proxy h) ns \<Longrightarrow>
    server_step h s (Round ns) (set_stage Checker (Probing [] ns) s)"
| probe: "stages s Checker = Probing rs (n # ns) \<Longrightarrow>
    server_step h s (probe_label (proxy h) get n)
      (set_stage Checker (Probing (rs @ [health_status (proxy h) get n]) ns) s)"
| publish: "stages s Checker = Probing rs [] \<Longrightarrow>
    server_step h s Published (set_stage Checker Counting (with_stats (set_rpc rs) s))"
| count: "stages s b = Counting \<Longrightarrow>
    server_step h s Silent (set_stage b (Showing (length (peer_list (lib_store h) (sh_peers (sv s))))) s)"
| display: "stages s b = Showing n \<Longrightarrow>
    server_step h s Silent (set_stage b Resting (with_stats (set_active_peers (of_nat n)) s))"
| monitor: "server_step h s Silent (with_stats (set_dht_nodes n) s)"

text \<open>Runs, with their labels in order.\<close>

inductive runs :: "'db handler \<Rightarrow> 'db server \<Rightarrow> label list \<Rightarrow> 'db server \<Rightarrow> bool" for h s where
  none: "runs h s [] s"
| more: "runs h s ls t \<Longrightarrow> server_step h t l u \<Longrightarrow> runs h s (ls @ [l]) u"

definition decisions :: "label list \<Rightarrow> (work \<times> bool) list" where
  "decisions ls = List.map_filter (\<lambda>l. case l of Decision w ok \<Rightarrow> Some (w, ok) | _ \<Rightarrow> None) ls"

definition counted :: "label list \<Rightarrow> counter_op list" where
  "counted ls = List.map_filter (\<lambda>l. case l of Count x \<Rightarrow> Some x | _ \<Rightarrow> None) ls"

lemma labels_simps [simp]:
  "decisions [] = []" "counted [] = []"
  "decisions (ls @ [Silent]) = decisions ls" "counted (ls @ [Silent]) = counted ls"
  "decisions (ls @ [Count x]) = decisions ls" "counted (ls @ [Count x]) = counted ls @ [x]"
  "decisions (ls @ [Decision w ok]) = decisions ls @ [(w, ok)]" "counted (ls @ [Decision w ok]) = counted ls"
  "decisions (ls @ [net_label N k out]) = decisions ls" "counted (ls @ [net_label N k out]) = counted ls"
  "decisions (ls @ [Handled k pkt a]) = decisions ls" "counted (ls @ [Handled k pkt a]) = counted ls"
  "decisions (ls @ [Round ns]) = decisions ls" "counted (ls @ [Round ns]) = counted ls"
  "decisions (ls @ [probe_label E get n]) = decisions ls" "counted (ls @ [probe_label E get n]) = counted ls"
  "decisions (ls @ [Published]) = decisions ls" "counted (ls @ [Published]) = counted ls"
  by (simp_all add: decisions_def counted_def net_label_def probe_label_def map_filter_append List.map_filter_simps
      split: list.split option.split)

section \<open>Selectors\<close>

lemma server_sel [simp]:
  "conns (with_stats f s) = conns s" "tasks (with_stats f s) = tasks s"
  "sh_limiter (sv (with_stats f s)) = sh_limiter (sv s)" "sh_peers (sv (with_stats f s)) = sh_peers (sv s)"
  "sh_stats (sv (with_stats f s)) = f (sh_stats (sv s))"
  "conns (with_limiter l s) = conns s" "tasks (with_limiter l s) = tasks s"
  "sh_limiter (sv (with_limiter l s)) = l" "sh_peers (sv (with_limiter l s)) = sh_peers (sv s)"
  "sh_stats (sv (with_limiter l s)) = sh_stats (sv s)"
  "conns (set_task k p s) = conns s" "tasks (set_task k p s) = (tasks s)(k \<mapsto> p)" "sv (set_task k p s) = sv s"
  "conns (with_peers g s) = conns s" "tasks (with_peers g s) = tasks s"
  "sh_limiter (sv (with_peers g s)) = sh_limiter (sv s)" "sh_stats (sv (with_peers g s)) = sh_stats (sv s)"
  "sh_peers (sv (with_peers g s)) = g (sh_peers (sv s))"
  "conns (set_stage b q s) = conns s" "tasks (set_stage b q s) = tasks s" "sv (set_stage b q s) = sv s"
  "stages (with_stats f s) = stages s" "stages (with_limiter l s) = stages s" "stages (set_task k p s) = stages s"
  "stages (with_peers g s) = stages s" "stages (set_stage b q s) = (stages s)(b := q)"
  by (simp_all add: with_stats_def with_limiter_def set_task_def with_peers_def set_stage_def)

lemma on_conn_sel [simp]:
  "conns (on_conn i e c s) = (conns s)(i \<mapsto> c\<lparr>al_conn := fst (conn_step e (al_conn c, sh_stats (sv s)))\<rparr>)"
  "tasks (on_conn i e c s) = tasks s"
  "sh_limiter (sv (on_conn i e c s)) = sh_limiter (sv s)" "sh_peers (sv (on_conn i e c s)) = sh_peers (sv s)"
  "sh_stats (sv (on_conn i e c s)) = snd (conn_step e (al_conn c, sh_stats (sv s)))"
  "stages (on_conn i e c s) = stages s"
  by (simp_all add: on_conn_def split: prod.split)

lemma server_start_sel [simp]:
  "sv (server_start st) = st" "conns (server_start st) = Map.empty" "tasks (server_start st) = Map.empty"
  "stages (server_start st) = (\<lambda>b. Resting)"
  by (simp_all add: server_start_def)

interpretation node: labelled_runs "server_step h" "runs h" for h
proof
  show "I ls t" if "runs h s ls t" and "I [] s"
    and "\<And>ls t l u. runs h s ls t \<Longrightarrow> I ls t \<Longrightarrow> server_step h t l u \<Longrightarrow> I (ls @ [l]) u" for s ls t I
    using that by (induction rule: runs.induct) blast+
qed (fact runs.none runs.more)+

section \<open>The order of the limiter's lock\<close>

definition work_call :: "'db handler \<Rightarrow> work \<Rightarrow> call" where
  "work_call h w =
     (case w of
        Request r \<Rightarrow> limiter_call h r
      | Message peer target now \<Rightarrow> (now, ws_peer_key peer target, ws_msg_rate_for (proxy h) target))"

definition allow_call :: "limiter \<Rightarrow> call \<Rightarrow> limiter \<times> bool" where
  "allow_call l c = allow l (fst c) (fst (snd c)) (snd (snd c))"

lemma do_work_limiter:
  "fst (do_work h w st) = snd (allow_call (sh_limiter st) (work_call h w))"
  "sh_limiter (snd (do_work h w st)) = fst (allow_call (sh_limiter st) (work_call h w))"
proof -
  have "fst (do_work h w st) = snd (allow_call (sh_limiter st) (work_call h w))
    \<and> sh_limiter (snd (do_work h w st)) = fst (allow_call (sh_limiter st) (work_call h w))"
  proof (cases w)
    case (Request r)
    obtain c peer v1 pkt where r: "r = (c, peer, v1, pkt)" by (cases r) auto
    then show ?thesis
      using admitted_iff [of h c peer v1 pkt st] handle_packet_state [of h c peer v1 pkt st]
      by (simp add: do_work_def work_call_def allow_call_def limiter_call_def Request case_prod_beta)
  next
    case (Message peer target now)
    then show ?thesis by (simp add: do_work_def work_call_def allow_call_def split: prod.split)
  qed
  then show "fst (do_work h w st) = snd (allow_call (sh_limiter st) (work_call h w))"
    and "sh_limiter (snd (do_work h w st)) = fst (allow_call (sh_limiter st) (work_call h w))" by simp_all
qed

lemma run_work_snoc:
  "run_work h (ws @ [w]) st =
     (case run_work h ws st of (oks, st') \<Rightarrow> (case do_work h w st' of (ok, st'') \<Rightarrow> (oks @ [ok], st'')))"
  by (induction ws arbitrary: st) (simp_all split: prod.split)

lemma run_work_calls: "fst (run_work h ws st) = run_calls allow (sh_limiter st) (map (work_call h) ws)"
  by (induction ws arbitrary: st)
    (simp_all add: do_work_limiter allow_call_def Let_def split: prod.split, metis do_work_limiter allow_call_def fst_conv snd_conv)

lemma tunnel_move_limiter:
  "t_limiter (tunnel_move h peer pkt e l t) =
     (case message_work peer pkt e t of None \<Rightarrow> l | Some w \<Rightarrow> fst (allow_call l (work_call h w)))"
proof (cases e)
  case (ClientRead r now)
  then show ?thesis
    by (cases r)
      (auto simp: tunnel_move_def take_frame_def work_call_def allow_call_def
        split: option.split prod.split)
next
  case (UpstreamMsg m ok)
  then show ?thesis
    by (simp add: tunnel_move_def Let_def stop_pump_def split: option.split prod.split)
qed (simp_all add: tunnel_move_def stop_pump_def split: client_task.split send_mode.split list.split)

text \<open>What a run has done to the limiter is what the sequential node does with the same work.\<close>

definition in_order :: "'db handler \<Rightarrow> 'db shared \<Rightarrow> label list \<Rightarrow> 'db server \<Rightarrow> bool" where
  "in_order h st ls s \<longleftrightarrow>
     map snd (decisions ls) = fst (run_work h (map fst (decisions ls)) st) \<and>
     sh_limiter (sv s) = sh_limiter (snd (run_work h (map fst (decisions ls)) st))"

lemma in_order_quiet:
  "in_order h st ls s \<Longrightarrow> decisions ls' = decisions ls \<Longrightarrow> sh_limiter (sv t) = sh_limiter (sv s) \<Longrightarrow> in_order h st ls' t"
  by (simp add: in_order_def)

lemma in_order_decision:
  assumes "in_order h st ls s" and "ok = snd (allow_call (sh_limiter (sv s)) (work_call h w))"
    and "sh_limiter (sv t) = fst (allow_call (sh_limiter (sv s)) (work_call h w))"
  shows "in_order h st (ls @ [Decision w ok]) t"
  using assms do_work_limiter [of h w "snd (run_work h (map fst (decisions ls)) st)"]
  by (simp add: in_order_def run_work_snoc case_prod_beta)

lemma in_order_step:
  assumes "server_step h s l t" and "in_order h st ls s"
  shows "in_order h st (ls @ [l]) t"
  using assms
proof cases
  case (check i j pkt now c l' ok)
  then show ?thesis
    using assms(2) by (auto intro!: in_order_decision simp: work_call_def limiter_call_def allow_call_def)
next
  case (tunnel i j pkt t0 c t' e)
  show ?thesis
  proof (cases "message_work (al_peer c) pkt e t0")
    case None
    with tunnel assms(2) show ?thesis by (auto intro: in_order_quiet simp: tunnel_move_limiter)
  next
    case (Some w)
    with tunnel assms(2) show ?thesis
      by (auto intro!: in_order_decision simp: tunnel_move_limiter do_work_limiter)
  qed
qed (use assms(2) in \<open>auto intro: in_order_quiet\<close>)

lemma in_order_runs: "runs h (server_start st) ls s \<Longrightarrow> in_order h st ls s"
  by (induction rule: runs.induct) (simp add: in_order_def, blast intro: in_order_step)

end
