(* ===== verification/Server_Inv.thy ===== *)
theory Server_Inv
  imports Server
begin

text \<open>
  What holds in every state that a running node reaches: of its connections and their tasks, its
  counters, what each task holds, and its table of peers; and that every task can be brought to its end.
\<close>

section \<open>Connections and their tasks\<close>

text \<open>\<open>ts\<close> are the tasks of a connection's streams: there is one for each stream, it waits until it has its
  permit, and those that gave it back are done.\<close>

definition loop_ok :: "(nat \<Rightarrow> phase option) \<Rightarrow> connection \<Rightarrow> bool" where
  "loop_ok ts c \<longleftrightarrow>
     permits c + length (handling c) = MAX_CONCURRENT_STREAMS_PER_CONN \<and> distinct (all_streams c) \<and>
     (\<forall>j. ts j \<noteq> None \<longleftrightarrow> j \<in> set (all_streams c)) \<and>
     (\<forall>j. ts j = Some Waiting \<longleftrightarrow> j \<in> set (waiting c)) \<and>
     (\<forall>j p. j \<in> set (handled c) \<longrightarrow> ts j = Some p \<longrightarrow> phase_done p)"

definition tasks_ok :: "(nat \<Rightarrow> phase option) \<Rightarrow> accept_loop option \<Rightarrow> bool" where
  "tasks_ok ts co \<longleftrightarrow> (case co of None \<Rightarrow> \<forall>j. ts j = None | Some c \<Rightarrow> loop_ok ts (al_conn c))"

definition conns_ok :: "'db server \<Rightarrow> bool" where
  "conns_ok s \<longleftrightarrow>
     finite (dom (conns s)) \<and> finite (dom (tasks s)) \<and> (\<forall>i. tasks_ok (\<lambda>j. tasks s (i, j)) (conns s i))"

lemma tasks_ok_simps [simp]:
  "tasks_ok ts None \<longleftrightarrow> (\<forall>j. ts j = None)" "tasks_ok ts (Some c) \<longleftrightarrow> loop_ok ts (al_conn c)"
  by (simp_all add: tasks_ok_def)

lemma conns_okD:
  assumes "conns_ok s"
  shows "finite (dom (conns s))" and "finite (dom (tasks s))"
    and "tasks_ok (\<lambda>j. tasks s (i, j)) (conns s i)"
    and "conns s i = Some c \<Longrightarrow> loop_ok (\<lambda>j. tasks s (i, j)) (al_conn c)"
    and "conns s i = None \<Longrightarrow> tasks s (i, j) = None"
proof -
  show "finite (dom (conns s))" "finite (dom (tasks s))" and t: "tasks_ok (\<lambda>j. tasks s (i, j)) (conns s i)"
    using assms by (simp_all add: conns_ok_def)
  show "conns s i = Some c \<Longrightarrow> loop_ok (\<lambda>j. tasks s (i, j)) (al_conn c)"
    and "conns s i = None \<Longrightarrow> tasks s (i, j) = None" using t by simp_all
qed

lemma task_conn:
  assumes "conns_ok s" and "tasks s (i, j) = Some p"
  obtains c where "conns s i = Some c"
  using conns_okD(5) [OF assms(1), of i j] assms(2) by fastforce

text \<open>A task moves on; an accept loop moves on, perhaps with a task.\<close>

lemma loop_ok_move:
  assumes "loop_ok ts c" and "ts j = Some p" and "p \<noteq> Waiting" and "q \<noteq> Waiting" and "phase_done p \<Longrightarrow> phase_done q"
  shows "loop_ok (ts(j \<mapsto> q)) c"
proof -
  have "j \<notin> set (waiting c)" and "j \<in> set (all_streams c)"
    using assms(1-3) unfolding loop_ok_def by (metis option.inject, metis option.distinct(1))
  with assms show ?thesis unfolding loop_ok_def by (auto simp: all_streams_def)
qed

lemma conns_ok_move:
  assumes "conns_ok s" and "tasks s (i, j) = Some p" and "p \<noteq> Waiting" and "q \<noteq> Waiting"
    and "phase_done p \<Longrightarrow> phase_done q" and "conns t = conns s" and "tasks t = (tasks s)((i, j) \<mapsto> q)"
  shows "conns_ok t"
proof -
  obtain c where c: "conns s i = Some c"
    using conns_okD(5) [OF assms(1), of i j] assms(2) by fastforce
  have "tasks_ok (\<lambda>j'. tasks t (i', j')) (conns s i')" for i'
  proof (cases "i' = i")
    case True
    have "(\<lambda>j'. tasks t (i, j')) = (\<lambda>j'. tasks s (i, j'))(j \<mapsto> q)" by (auto simp: assms(7))
    with loop_ok_move [OF conns_okD(4) [OF assms(1) c], of j p q] assms(2-5) c True show ?thesis by simp
  next
    case False
    then have "(\<lambda>j'. tasks t (i', j')) = (\<lambda>j'. tasks s (i', j'))" by (auto simp: assms(7))
    with conns_okD(3) [OF assms(1), of i'] show ?thesis by simp
  qed
  with conns_okD(1,2) [OF assms(1)] assms(6,7) show ?thesis by (simp add: conns_ok_def)
qed

lemma conns_ok_set:
  assumes "conns_ok s" and "tasks s k = Some p" and "p \<noteq> Waiting" and "q \<noteq> Waiting"
    and "phase_done p \<Longrightarrow> phase_done q" and "conns s' = conns s" and "tasks s' = tasks s"
  shows "conns_ok (set_task k q s')"
  using assms by (cases k) (auto intro: conns_ok_move [OF assms(1)])

lemma conns_ok_same: "conns_ok s \<Longrightarrow> conns t = conns s \<Longrightarrow> tasks t = tasks s \<Longrightarrow> conns_ok t"
  by (simp add: conns_ok_def)

lemma conns_ok_loop:
  assumes "conns_ok s" and "conns t = (conns s)(i \<mapsto> c)" and "finite (dom (tasks t))"
    and "\<And>i' j. i' \<noteq> i \<Longrightarrow> tasks t (i', j) = tasks s (i', j)" and "loop_ok (\<lambda>j. tasks t (i, j)) (al_conn c)"
  shows "conns_ok t"
proof -
  have "tasks_ok (\<lambda>j. tasks t (i', j)) (conns t i')" for i'
    using conns_okD(3) [OF assms(1), of i'] assms(2,4,5) by (cases "i' = i") simp_all
  with conns_okD(1) [OF assms(1)] assms(2,3) show ?thesis by (simp add: conns_ok_def)
qed

lemma loop_ok_start: "\<forall>j. ts j = None \<Longrightarrow> loop_ok ts conn_start"
  by (simp add: loop_ok_def conn_start_def all_streams_def)

lemma loop_ok_accept:
  "loop_ok ts c \<Longrightarrow> j \<notin> set (all_streams c) \<Longrightarrow> loop_ok (ts(j \<mapsto> Waiting)) (c\<lparr>waiting := waiting c @ [j]\<rparr>)"
  by (auto simp: loop_ok_def all_streams_def)

lemma loop_ok_close: "loop_ok ts c \<Longrightarrow> loop_ok ts (c\<lparr>accepting := False\<rparr>)"
  by (simp add: loop_ok_def all_streams_def)

lemma loop_ok_acquire:
  assumes "loop_ok ts c" and "waiting c = j # ws" and "permits c \<noteq> 0"
  shows "loop_ok (ts(j \<mapsto> Started)) (c\<lparr>permits := permits c - 1, waiting := ws, handling := j # handling c\<rparr>)"
  using assms by (auto simp: loop_ok_def all_streams_def)

lemma loop_ok_release:
  assumes "loop_ok ts c" and "j \<in> set (handling c)" and "ts j = Some p" and "phase_done p"
  shows "loop_ok ts (c\<lparr>permits := permits c + 1, handling := remove1 j (handling c), handled := handled c @ [j]\<rparr>)"
proof -
  have d: "distinct (all_streams c)" and n: "permits c + length (handling c) = MAX_CONCURRENT_STREAMS_PER_CONN"
    using assms(1) by (simp_all add: loop_ok_def)
  have s: "set (remove1 j (handling c)) = set (handling c) - {j}"
    using d by (simp add: all_streams_def set_remove1_eq)
  have "Suc (length (remove1 j (handling c))) = length (handling c)"
    using assms(2) length_pos_if_in_set [OF assms(2)] by (simp add: length_remove1)
  moreover have "distinct (waiting c @ remove1 j (handling c) @ handled c @ [j])"
    using d assms(2) by (auto simp: all_streams_def s)
  ultimately show ?thesis
    using assms n s by (auto simp: loop_ok_def all_streams_def)
qed

lemma returned_stays: "returned t \<Longrightarrow> returned (tunnel_move h peer pkt e l t)"
  unfolding tunnel_move_def
  by (cases e) (auto simp: take_frame_def stop_pump_def Let_def
      split: sum.split option.split list.split client_task.split send_mode.split prod.split)

lemma conns_ok_step:
  assumes "server_step h s l t" and "conns_ok s"
  shows "conns_ok t"
  using assms(1)
proof cases
  case (connect i peer v1)
  with conns_okD(2) [OF assms(2)] conns_okD(5) [OF assms(2)] show ?thesis
    by (intro conns_ok_loop [OF assms(2), of t i]) (auto intro: loop_ok_start)
next
  case (accept i c j)
  have "(\<lambda>j'. tasks t (i, j')) = (\<lambda>j'. tasks s (i, j'))(j \<mapsto> Waiting)" by (auto simp: accept)
  with loop_ok_accept [OF conns_okD(4) [OF assms(2), of i c], of j] accept conns_okD(2) [OF assms(2)] show ?thesis
    by (intro conns_ok_loop [OF assms(2), of t i "c\<lparr>al_conn := al_conn c\<lparr>waiting := waiting (al_conn c) @ [j]\<rparr>\<rparr>"])
      simp_all
next
  case (close i c e)
  with conns_okD(2) [OF assms(2)] conns_okD(4) [OF assms(2), of i c] show ?thesis
    by (intro conns_ok_loop [OF assms(2), of t i "c\<lparr>al_conn := al_conn c\<lparr>accepting := False\<rparr>\<rparr>"])
      (simp_all add: loop_ok_close)
next
  case (acquire i c j ws)
  have "(\<lambda>j'. tasks t (i, j')) = (\<lambda>j'. tasks s (i, j'))(j \<mapsto> Started)" by (auto simp: acquire)
  with loop_ok_acquire [OF conns_okD(4) [OF assms(2), of i c]] acquire conns_okD(2) [OF assms(2)] show ?thesis
    by (intro conns_ok_loop [OF assms(2), of t i "c\<lparr>al_conn := al_conn c\<lparr>permits := permits (al_conn c) - 1,
        waiting := ws, handling := j # handling (al_conn c)\<rparr>\<rparr>"]) simp_all
next
  case (release i c j p)
  with conns_okD(2) [OF assms(2)] loop_ok_release [OF conns_okD(4) [OF assms(2), of i c], of j p] show ?thesis
    by (intro conns_ok_loop [OF assms(2), of t i "c\<lparr>al_conn := al_conn c\<lparr>permits := permits (al_conn c) + 1,
        handling := remove1 j (handling (al_conn c)), handled := handled (al_conn c) @ [j]\<rparr>\<rparr>"]) simp_all
next
  case (tunnel i j pkt t0 c t' e)
  then show ?thesis
    by (intro conns_ok_move [OF assms(2), of i j "Tunnelling pkt t0" "Tunnelling pkt t'"]) (auto simp: returned_stays)
next
  case (attempt k pkt cand cs N r out)
  obtain i j where "k = (i, j)" by fastforce
  with attempt show ?thesis
    by (intro conns_ok_move [OF assms(2), of i j "Trying pkt (cand # cs)"]) (auto split: sum.split)
next
  case (check i j pkt now c l ok)
  then show ?thesis by (intro conns_ok_move [OF assms(2), of i j "Clocked pkt now"]) simp_all
next
  case (announced content m wall)
  then show ?thesis by (intro conns_ok_same [OF assms(2)]) simp_all
next
  case (round ns)
  then show ?thesis by (intro conns_ok_same [OF assms(2)]) simp_all
next
  case (probe rs n ns get)
  then show ?thesis by (intro conns_ok_same [OF assms(2)]) simp_all
next
  case (publish rs)
  then show ?thesis by (intro conns_ok_same [OF assms(2)]) simp_all
next
  case (count b)
  then show ?thesis by (intro conns_ok_same [OF assms(2)]) simp_all
next
  case (display b n)
  then show ?thesis by (intro conns_ok_same [OF assms(2)]) simp_all
next
  case (monitor n)
  then show ?thesis by (intro conns_ok_same [OF assms(2)]) simp_all
qed (auto intro!: conns_ok_set [OF assms(2)])

lemma conns_ok_runs: "runs h (server_start st) ls s \<Longrightarrow> conns_ok s"
  by (induction rule: runs.induct) (simp add: conns_ok_def, blast intro: conns_ok_step)

section \<open>The counters\<close>

text \<open>What the tasks have counted is what the counters show: the other tasks only set the gauges.\<close>

definition counters_of :: "stats \<Rightarrow> u64 \<times> u64 \<times> u64 \<times> u64 \<times> u64" where
  "counters_of st =
     (requests_total st, requests_proxied st, requests_relayed st, requests_rejected st, active_connections st)"

lemma counter_step_cong: "counters_of s = counters_of t \<Longrightarrow> counters_of (counter_step x s) = counters_of (counter_step x t)"
  by (cases x) (simp_all add: counters_of_def counter_defs)

lemma background_counters:
  "counters_of (snd (on_announce L S content wall ds)) = counters_of (snd ds)"
  "counters_of (health_round E get ns S db st) = counters_of st"
  "counters_of (set_dht_nodes n st) = counters_of st"
  "counters_of (set_rpc rs st) = counters_of st"
  "counters_of (set_active_peers m st) = counters_of st"
  by (simp_all add: on_announce_def health_round_def set_active_peers_def set_rpc_def set_dht_nodes_def
      counters_of_def Let_def split: option.split)

definition shows_counted :: "'db shared \<Rightarrow> label list \<Rightarrow> 'db server \<Rightarrow> bool" where
  "shows_counted st ls s \<longleftrightarrow>
     counters_of (sh_stats (sv s)) = counters_of (run_ops counter_step (counted ls) (sh_stats st))"

lemma shows_counted_op:
  assumes "shows_counted st ls s" and "sh_stats (sv t) = counter_step x (sh_stats (sv s))"
  shows "shows_counted st (ls @ [Count x]) t"
  using counter_step_cong [OF assms(1) [unfolded shows_counted_def], of x]
  by (simp only: shows_counted_def labels_simps run_ops_simps assms(2))

lemma shows_counted_step:
  assumes "server_step h s l t" and "shows_counted st ls s"
  shows "shows_counted st (ls @ [l]) t"
  using assms(1)
proof cases
  case (tunnel i j pkt t0 c t' e)
  with assms(2) show ?thesis by (simp add: shows_counted_def split: option.split)
next
  case (connect i peer v1)
  show ?thesis unfolding connect(1) by (rule shows_counted_op [OF assms(2)]) (simp add: connect)
next
  case (close i c e)
  show ?thesis unfolding close(1) by (rule shows_counted_op [OF assms(2)]) (simp add: close)
next
  case (total k pkt)
  show ?thesis unfolding total(1) by (rule shows_counted_op [OF assms(2)]) (simp add: total)
next
  case (outcome k pkt r)
  show ?thesis unfolding outcome(1) by (rule shows_counted_op [OF assms(2)]) (simp add: outcome)
qed (use assms(2) in \<open>simp_all add: shows_counted_def background_counters\<close>)

lemma shows_counted_runs: "runs h (server_start st) ls s \<Longrightarrow> shows_counted st ls s"
  by (induction rule: runs.induct) (simp add: shows_counted_def, blast intro: shows_counted_step)

text \<open>What the sequential node counts for the same work.\<close>

fun work_ops :: "'db handler \<Rightarrow> work \<times> bool \<Rightarrow> counter_op list" where
  "work_ops h (Request (c, peer, v1, pkt), ok) = [IncTotal, route_counter (route_of h v1 pkt ok)]"
| "work_ops h (Message peer target now, ok) = []"

lemma handle_packet_route:
  "fst (handle_packet h c peer v1 pkt st) =
     answer_of h (route_of h v1 pkt (admitted (fst (handle_packet h c peer v1 pkt st)))) (wall_now c) pkt (sh_peers st)"
  by (simp add: handle_packet_action route_of_def)

lemma answer_counter: "counter_of (answer_of h r wall pkt db) = route_counter r"
  by (cases r) simp_all

lemma handle_packet_counter:
  "counter_of (fst (handle_packet h c peer v1 pkt st)) =
     route_counter (route_of h v1 pkt (admitted (fst (handle_packet h c peer v1 pkt st))))"
  by (subst handle_packet_route) (rule answer_counter)

lemma do_work_stats:
  "sh_stats (snd (do_work h w st)) = run_ops counter_step (work_ops h (w, fst (do_work h w st))) (sh_stats st)"
proof (cases w)
  case (Request r)
  obtain c peer v1 pkt where r: "r = (c, peer, v1, pkt)" by (cases r) auto
  have "sh_stats (snd (handle_packet h c peer v1 pkt st)) = run_ops counter_step
      [IncTotal, counter_of (fst (handle_packet h c peer v1 pkt st))] (sh_stats st)"
    by (subst handle_packet_state) simp
  then show ?thesis by (simp add: do_work_def Request r case_prod_beta handle_packet_counter)
qed (simp add: do_work_def case_prod_beta)

definition sequential_ops :: "'db handler \<Rightarrow> (work \<times> bool) list \<Rightarrow> counter_op list" where
  "sequential_ops h ds = concat (map (work_ops h) ds)"

lemma sequential_ops_simps [simp]:
  "sequential_ops h [] = []" "sequential_ops h (ds @ [d]) = sequential_ops h ds @ work_ops h d"
  by (simp_all add: sequential_ops_def)

lemma run_work_stats:
  "sh_stats (snd (run_work h ws st)) =
     run_ops counter_step (sequential_ops h (zip ws (fst (run_work h ws st)))) (sh_stats st)"
  by (induction ws arbitrary: st)
    (simp_all add: sequential_ops_def case_prod_beta do_work_stats)

text \<open>The tasks in between: counted and not yet checked, checked and not yet counted as \<open>x\<close>.\<close>

fun before_check :: "phase \<Rightarrow> bool" where
  "before_check (Counted pkt) = True"
| "before_check (Clocked pkt now) = True"
| "before_check _ = False"

fun decided_as :: "counter_op \<Rightarrow> phase \<Rightarrow> bool" where
  "decided_as x (Decided pkt r) = (route_counter r = x)"
| "decided_as x _ = False"

definition outcome_op :: "counter_op \<Rightarrow> bool" where
  "outcome_op x \<longleftrightarrow> x = IncProxied \<or> x = IncRelayed \<or> x = IncRejected"

lemma outcome_op_simps [simp]:
  "outcome_op (route_counter r)" "\<not> outcome_op IncTotal" "\<not> outcome_op OpenConn" "\<not> outcome_op DropConn"
  "route_counter r \<noteq> IncTotal" "route_counter r \<noteq> OpenConn" "route_counter r \<noteq> DropConn"
  by (cases r; simp add: outcome_op_def)+

definition accounted :: "'db handler \<Rightarrow> label list \<Rightarrow> 'db server \<Rightarrow> bool" where
  "accounted h ls s \<longleftrightarrow>
     count_op IncTotal (counted ls) = count_op IncTotal (sequential_ops h (decisions ls)) + tally before_check (tasks s) \<and>
     (\<forall>x. outcome_op x \<longrightarrow>
        count_op x (counted ls) + tally (decided_as x) (tasks s) = count_op x (sequential_ops h (decisions ls))) \<and>
     count_op OpenConn (counted ls) = count_op DropConn (counted ls) + tally (\<lambda>c. accepting (al_conn c)) (conns s)"

lemma accountedD:
  assumes "accounted h ls s"
  shows "count_op IncTotal (counted ls) = count_op IncTotal (sequential_ops h (decisions ls)) + tally before_check (tasks s)"
    and "outcome_op x \<Longrightarrow>
      count_op x (counted ls) + tally (decided_as x) (tasks s) = count_op x (sequential_ops h (decisions ls))"
    and "count_op OpenConn (counted ls) = count_op DropConn (counted ls) + tally (\<lambda>c. accepting (al_conn c)) (conns s)"
  using assms by (simp_all add: accounted_def)

lemma accounted_same:
  assumes "accounted h ls s" and "counted ls' = counted ls"
    and "sequential_ops h (decisions ls') = sequential_ops h (decisions ls)"
    and "tally before_check (tasks t) = tally before_check (tasks s)"
    and "\<And>x. tally (decided_as x) (tasks t) = tally (decided_as x) (tasks s)"
    and "tally (\<lambda>c. accepting (al_conn c)) (conns t) = tally (\<lambda>c. accepting (al_conn c)) (conns s)"
  shows "accounted h ls' t"
  using assms(1) by (simp add: accounted_def assms(2-6))

lemma tally_move:
  assumes "conns_ok s" and "tasks s k = Some p" and "tasks t = (tasks s)(k \<mapsto> q)"
  shows "tally P (tasks t) + of_bool (P p) = tally P (tasks s) + of_bool (P q)"
  using tally_update [OF conns_okD(2) [OF assms(1)], of P k q] assms(2,3) by simp

lemma tally_loop:
  assumes "conns_ok s" and "conns s i = Some c"
  shows "tally P ((conns s)(i \<mapsto> c')) + of_bool (P c) = tally P (conns s) + of_bool (P c')"
  using tally_update [OF conns_okD(1) [OF assms(1)], of P i c'] assms(2) by simp

lemma tally_loop_same:
  assumes "conns_ok s" and "conns s i = Some c" and "P c' = P c"
  shows "tally P ((conns s)(i \<mapsto> c')) = tally P (conns s)"
  using tally_loop [OF assms(1,2), of P c'] assms(3) by simp

text \<open>A task that goes on without counting or deciding.\<close>

lemma accounted_quiet:
  assumes "accounted h ls s" and "conns_ok s" and "tasks s k = Some p"
    and "conns t = conns s" and "tasks t = (tasks s)(k \<mapsto> q)"
    and "before_check p = before_check q" and "\<And>x. decided_as x p = decided_as x q"
    and "counted ls' = counted ls" and "sequential_ops h (decisions ls') = sequential_ops h (decisions ls)"
  shows "accounted h ls' t"
proof (rule accounted_same [OF assms(1,8,9)])
  show "tally before_check (tasks t) = tally before_check (tasks s)"
    using tally_move [OF assms(2,3,5), of before_check] assms(6) by simp
  show "tally (decided_as x) (tasks t) = tally (decided_as x) (tasks s)" for x
    using tally_move [OF assms(2,3,5), of "decided_as x"] assms(7) [of x] by simp
qed (simp add: assms(4))

lemma accounted_silent:
  assumes "accounted h ls s" and "conns_ok s" and "tasks s k = Some p"
    and "before_check p = before_check q" and "\<And>x. decided_as x p = decided_as x q"
    and "counted (ls @ [l]) = counted ls" and "decisions (ls @ [l]) = decisions ls"
  shows "accounted h (ls @ [l]) (set_task k q s)"
  by (rule accounted_quiet [OF assms(1-3) _ _ assms(4,5)]) (simp_all add: assms(6,7))

lemma accounted_idle:
  "accounted h ls s \<Longrightarrow> conns t = conns s \<Longrightarrow> tasks t = tasks s \<Longrightarrow> counted (ls @ [l]) = counted ls \<Longrightarrow>
    decisions (ls @ [l]) = decisions ls \<Longrightarrow> accounted h (ls @ [l]) t"
  by (rule accounted_same) simp_all

lemma accounted_step:
  assumes "server_step h s l t" and "conns_ok s" and "accounted h ls s"
  shows "accounted h (ls @ [l]) t"
  using assms(1)
proof cases
  case (connect i peer v1)
  with tally_update [OF conns_okD(1) [OF assms(2)], of "\<lambda>c. accepting (al_conn c)" i] assms(3) show ?thesis
    by (simp add: accounted_def conn_start_def)
next
  case (accept i c j)
  then have "tasks s (i, j) = None"
    using conns_okD(4) [OF assms(2) accept(3)] unfolding loop_ok_def by blast
  then have "tally P (tasks t) = tally P (tasks s) + of_bool (P Waiting)" for P
    using tally_update [OF conns_okD(2) [OF assms(2)], of P "(i, j)" Waiting] accept by simp
  with accept show ?thesis
    by (intro accounted_same [OF assms(3)]) (simp_all add: tally_loop_same [OF assms(2)])
next
  case (close i c e)
  with tally_loop [OF assms(2), of i c "\<lambda>c. accepting (al_conn c)"] assms(3) show ?thesis
    by (simp add: accounted_def)
next
  case (acquire i c j ws)
  have "tasks s (i, j) = Some Waiting"
    using conns_okD(4) [OF assms(2) acquire(3)] acquire(4) by (simp add: loop_ok_def)
  then have "tally P (tasks t) + of_bool (P Waiting) = tally P (tasks s) + of_bool (P Started)" for P
    using tally_move [OF assms(2), of "(i, j)" Waiting t Started P] acquire by simp
  from this [of before_check] this [of "decided_as x" for x] acquire show ?thesis
    by (intro accounted_same [OF assms(3)]) (simp_all add: tally_loop_same [OF assms(2)])
next
  case (release i c j p)
  then show ?thesis
    by (intro accounted_same [OF assms(3)]) (simp_all add: tally_loop_same [OF assms(2)])
next
  case (total k pkt)
  have move: "tally P (tasks t) + of_bool (P (Parsed pkt)) = tally P (tasks s) + of_bool (P (Counted pkt))" for P
    using total by (intro tally_move [OF assms(2)]) simp_all
  have "tally before_check (tasks t) = Suc (tally before_check (tasks s))" using move [of before_check] by simp
  moreover have "tally (decided_as x) (tasks t) = tally (decided_as x) (tasks s)" for x
    using move [of "decided_as x"] by simp
  moreover have "conns t = conns s" by (simp add: total)
  ultimately show ?thesis using assms(3) by (auto simp: accounted_def total(1))
next
  case (check i j pkt now c l' ok)
  define r where "r = route_of h (al_v1 c) pkt ok"
  have move: "tally P (tasks t) + of_bool (P (Clocked pkt now)) = tally P (tasks s) + of_bool (P (Decided pkt r))" for P
    using check by (intro tally_move [OF assms(2)]) (simp_all add: r_def)
  have "count_op x (counted ls) + tally (decided_as x) (tasks t)
      = count_op x (sequential_ops h (decisions ls) @ [IncTotal, route_counter r])" if "outcome_op x" for x
    using move [of "decided_as x"] accountedD(2) [OF assms(3) that] that by auto
  moreover have "count_op IncTotal (counted ls)
      = count_op IncTotal (sequential_ops h (decisions ls) @ [IncTotal, route_counter r]) + tally before_check (tasks t)"
    using move [of before_check] accountedD(1) [OF assms(3)] by simp
  moreover have "conns t = conns s" by (simp add: check)
  ultimately show ?thesis
    using accountedD(3) [OF assms(3)] by (simp add: accounted_def check(1) r_def)
next
  case (outcome k pkt r)
  have move: "tally P (tasks t) + of_bool (P (Decided pkt r)) = tally P (tasks s) + of_bool (P (Working pkt r))" for P
    using outcome by (intro tally_move [OF assms(2)]) simp_all
  have "count_op x (counted ls @ [route_counter r]) + tally (decided_as x) (tasks t)
      = count_op x (sequential_ops h (decisions ls))" if "outcome_op x" for x
    using move [of "decided_as x"] accountedD(2) [OF assms(3) that] by auto
  moreover have "tally before_check (tasks t) = tally before_check (tasks s)" using move [of before_check] by simp
  moreover have "conns t = conns s" by (simp add: outcome)
  ultimately show ?thesis
    using accountedD(1,3) [OF assms(3)] by (simp add: accounted_def outcome(1))
next
  case (tunnel i j pkt t0 c t' e)
  show ?thesis
  proof (cases "message_work (al_peer c) pkt e t0")
    case None
    with tunnel show ?thesis
      by (intro accounted_quiet [OF assms(3,2), of "(i, j)" "Tunnelling pkt t0" t "Tunnelling pkt t'"]) simp_all
  next
    case (Some w)
    then obtain peer target now where "w = Message peer target now"
      by (cases "(al_peer c, pkt, e, t0)" rule: message_work.cases) (auto split: if_splits)
    with tunnel Some show ?thesis
      by (intro accounted_quiet [OF assms(3,2), of "(i, j)" "Tunnelling pkt t0" t "Tunnelling pkt t'"]) simp_all
  qed
next
  case (attempt k pkt cand cs N r out)
  show ?thesis
    unfolding attempt(1,2)
    by (cases r) (auto intro: accounted_quiet [OF assms(3,2) attempt(3)])
qed (auto intro: accounted_silent [OF assms(3,2)] accounted_idle [OF assms(3)])

lemma accounted_runs: "runs h (server_start st) ls s \<Longrightarrow> accounted h ls s"
  by (induction rule: runs.induct) (simp add: accounted_def, blast intro: accounted_step conns_ok_runs)

section \<open>What a task holds\<close>

definition readable :: "'db handler \<Rightarrow> mesh_packet \<Rightarrow> bool" where
  "readable h pkt \<longleftrightarrow> (\<exists>raw. pkt_read (lib_packet h) raw = Some pkt)"

fun is_relayed :: "action \<Rightarrow> bool" where
  "is_relayed (Relayed x) = True"
| "is_relayed _ = False"

text \<open>A decision is one of the limiter, in some state and at some instant; an answer is one that the
  sequential handler gives to the packet, or a relayed one, if this node does not serve the name.\<close>

fun phase_ok :: "'db handler \<Rightarrow> string \<Rightarrow> bool \<Rightarrow> phase \<Rightarrow> bool" where
  "phase_ok h peer v1 (Parsed pkt) = readable h pkt"
| "phase_ok h peer v1 (Counted pkt) = readable h pkt"
| "phase_ok h peer v1 (Clocked pkt now) = readable h pkt"
| "phase_ok h peer v1 (Decided pkt r) =
     (readable h pkt \<and> (\<exists>l now. r = route_of h v1 pkt (snd (allow l now peer (rate_of h pkt)))))"
| "phase_ok h peer v1 (Working pkt r) =
     (readable h pkt \<and> (\<exists>l now. r = route_of h v1 pkt (snd (allow l now peer (rate_of h pkt)))))"
| "phase_ok h peer v1 (Fallback pkt) = (readable h pkt \<and> \<not> serves (proxy h) (target_provider pkt))"
| "phase_ok h peer v1 (Trying pkt cs) = (readable h pkt \<and> \<not> serves (proxy h) (target_provider pkt))"
| "phase_ok h peer v1 (Answering pkt a) =
     (readable h pkt \<and> (if is_relayed a then \<not> serves (proxy h) (target_provider pkt)
        else (\<exists>c st. a = fst (handle_packet h c peer v1 pkt st))))"
| "phase_ok h peer v1 (Tunnelling pkt t) =
     (readable h pkt \<and> tunnel_ok t \<and> v1 \<and> eq_ignore_ascii_case (req_method pkt) ''WS'' \<and> serves (proxy h) (target_provider pkt))"
| "phase_ok h peer v1 _ = True"

definition phases_ok :: "'db handler \<Rightarrow> 'db server \<Rightarrow> bool" where
  "phases_ok h s \<longleftrightarrow>
     (\<forall>i j p c. tasks s (i, j) = Some p \<longrightarrow> conns s i = Some c \<longrightarrow> phase_ok h (al_peer c) (al_v1 c) p)"

lemma phases_okD:
  "phases_ok h s \<Longrightarrow> tasks s (i, j) = Some p \<Longrightarrow> conns s i = Some c \<Longrightarrow> phase_ok h (al_peer c) (al_v1 c) p"
  by (simp add: phases_ok_def)

lemma phases_ok_move:
  assumes "phases_ok h s" and "\<And>c. conns s i = Some c \<Longrightarrow> phase_ok h (al_peer c) (al_v1 c) q"
    and "conns t = conns s" and "tasks t = (tasks s)((i, j) \<mapsto> q)"
  shows "phases_ok h t"
  using assms by (auto simp: phases_ok_def)

lemma phases_ok_loop:
  assumes "phases_ok h s" and "conns s i = Some c" and "al_peer c' = al_peer c" and "al_v1 c' = al_v1 c"
    and "conns t = (conns s)(i \<mapsto> c')" and "tasks t = tasks s \<or> tasks t = (tasks s)((i, j) \<mapsto> Started) \<or> tasks t = (tasks s)((i, j) \<mapsto> Waiting)"
  shows "phases_ok h t"
  unfolding phases_ok_def
proof (intro allI impI)
  fix i' j' p d assume a: "tasks t (i', j') = Some p" and b: "conns t i' = Some d"
  obtain d' where d': "conns s i' = Some d'" "al_peer d = al_peer d'" "al_v1 d = al_v1 d'"
    using b assms(2-5) by (cases "i' = i") auto
  show "phase_ok h (al_peer d) (al_v1 d) p"
  proof (cases "p = Started \<or> p = Waiting")
    case False
    then have "tasks s (i', j') = Some p" using a assms(6) by (auto split: if_splits)
    with phases_okD [OF assms(1) _ d'(1)] d'(2,3) show ?thesis by simp
  qed auto
qed

lemma answer_of_handle_packet:
  assumes "r = route_of h v1 pkt (snd (allow l now peer (rate_of h pkt)))"
  shows "\<exists>c st. answer_of h r wall pkt db = fst (handle_packet h c peer v1 pkt st)"
proof (intro exI)
  show "answer_of h r wall pkt db
      = fst (handle_packet h \<lparr>mono_now = now, wall_now = wall\<rparr> peer v1 pkt \<lparr>sh_limiter = l, sh_stats = st, sh_peers = db\<rparr>)" for st
    using handle_packet_route [of h "\<lparr>mono_now = now, wall_now = wall\<rparr>" peer v1 pkt "\<lparr>sh_limiter = l, sh_stats = st, sh_peers = db\<rparr>"]
      admitted_iff [of h "\<lparr>mono_now = now, wall_now = wall\<rparr>" peer v1 pkt "\<lparr>sh_limiter = l, sh_stats = st, sh_peers = db\<rparr>"]
    by (simp add: assms)
qed

lemma route_of_tunnel:
  "ToTunnel = route_of h v1 pkt ok \<longleftrightarrow>
     ok \<and> v1 \<and> eq_ignore_ascii_case (req_method pkt) ''WS'' \<and> serves (proxy h) (target_provider pkt)"
  by (auto simp: route_of_def)

lemma route_of_relay: "ToRelay = route_of h v1 pkt ok \<longleftrightarrow> ok \<and> \<not> serves (proxy h) (target_provider pkt)"
  by (auto simp: route_of_def)

lemma answer_not_relayed: "r \<noteq> ToRelay \<Longrightarrow> \<not> is_relayed (answer_of h r wall pkt db)"
  by (cases r) simp_all

lemma tunnel_ok_limiter: "tunnel_ok (t\<lparr>t_limiter := l\<rparr>) \<longleftrightarrow> tunnel_ok t"
  by (simp add: tunnel_ok_defs)

lemma tunnel_move_ok: "tunnel_ok t \<Longrightarrow> tunnel_ok (tunnel_move h peer pkt e l t)"
  unfolding tunnel_move_def by (rule tunnel_step_ok) (simp add: tunnel_ok_limiter)

lemma tunnel_start_ok: "tunnel_ok (tunnel_start l)"
  using tunnel_run_ok [of _ _ l "[]"] by (simp add: tunnel_run_def)

lemma phases_ok_step:
  assumes "server_step h s l t" and "conns_ok s" and "phases_ok h s"
  shows "phases_ok h t"
  using assms(1)
proof cases
  case (connect i peer v1)
  with assms(3) conns_okD(5) [OF assms(2), of i] show ?thesis by (auto simp: phases_ok_def)
next
  case (accept i c j)
  then show ?thesis by (intro phases_ok_loop [OF assms(3), of i c _ _ j]) simp_all
next
  case (close i c e)
  then show ?thesis by (intro phases_ok_loop [OF assms(3), of i c]) simp_all
next
  case (acquire i c j ws)
  then show ?thesis by (intro phases_ok_loop [OF assms(3), of i c _ _ j]) simp_all
next
  case (release i c j p)
  then show ?thesis by (intro phases_ok_loop [OF assms(3), of i c]) simp_all
next
  case (check i j pkt now c l' ok)
  have "snd (allow (sh_limiter (sv s)) now (al_peer c) (rate_of h pkt)) = ok" by (simp only: check(5) snd_conv)
  moreover have "readable h pkt" using phases_okD [OF assms(3) check(3,4)] by simp
  ultimately have q: "phase_ok h (al_peer c) (al_v1 c) (Decided pkt (route_of h (al_v1 c) pkt ok))"
    unfolding phase_ok.simps by blast
  show ?thesis
    by (rule phases_ok_move [OF assms(3), of i "Decided pkt (route_of h (al_v1 c) pkt ok)" t j])
      (use q check(2,4) in simp_all)
next
  case (tunnel i j pkt t0 c t' e)
  with phases_okD [OF assms(3), of i j _ c] show ?thesis
    by (intro phases_ok_move [OF assms(3), of i]) (auto simp: tunnel_move_ok)
next
  case (answer k pkt r wall)
  obtain i j where "k = (i, j)" by fastforce
  have "phase_ok h (al_peer c) (al_v1 c) (Answering pkt (answer_of h r wall pkt (sh_peers (sv s))))"
    if "conns s i = Some c" for c
  proof -
    have "phase_ok h (al_peer c) (al_v1 c) (Working pkt r)"
      using phases_okD [OF assms(3) _ that, of j] answer(3) \<open>k = (i, j)\<close> by simp
    then obtain l now where r: "r = route_of h (al_v1 c) pkt (snd (allow l now (al_peer c) (rate_of h pkt)))"
      and "readable h pkt" by auto
    moreover obtain k st where "answer_of h r wall pkt (sh_peers (sv s)) = fst (handle_packet h k (al_peer c) (al_v1 c) pkt st)"
      using answer_of_handle_packet [OF r] by blast
    ultimately show ?thesis
      using answer_not_relayed [OF answer(5), of h wall pkt "sh_peers (sv s)"]
      by (simp only: phase_ok.simps if_False) blast
  qed
  with answer \<open>k = (i, j)\<close> show ?thesis
    by (intro phases_ok_move [OF assms(3), of i _ t j]) simp_all
next
  case (expired k pkt)
  obtain i j where "k = (i, j)" by fastforce
  with expired phases_okD [OF assms(3), of i j "Working pkt ToRelay"] show ?thesis
    by (intro phases_ok_move [OF assms(3), of i]) (auto simp: route_of_relay)
next
  case (named k pkt cs)
  obtain i j where "k = (i, j)" by fastforce
  with named phases_okD [OF assms(3), of i j "Working pkt ToRelay"] show ?thesis
    by (intro phases_ok_move [OF assms(3), of i]) (auto simp: route_of_relay)
next
  case (fallback k pkt cs)
  obtain i j where "k = (i, j)" by fastforce
  with fallback phases_okD [OF assms(3), of i j "Fallback pkt"] show ?thesis
    by (intro phases_ok_move [OF assms(3), of i]) auto
next
  case (attempt k pkt cand cs N r out)
  obtain i j where "k = (i, j)" by fastforce
  with attempt phases_okD [OF assms(3), of i j "Trying pkt (cand # cs)"] show ?thesis
    by (intro phases_ok_move [OF assms(3), of i]) (auto split: sum.split)
next
  case (exhausted k pkt)
  obtain i j where "k = (i, j)" by fastforce
  with exhausted phases_okD [OF assms(3), of i j "Trying pkt []"] show ?thesis
    by (intro phases_ok_move [OF assms(3), of i]) auto
next
  case (parse k raw pkt)
  obtain i j where "k = (i, j)" by fastforce
  with parse show ?thesis by (intro phases_ok_move [OF assms(3), of i]) (auto simp: readable_def)
next
  case (total k pkt)
  obtain i j where "k = (i, j)" by fastforce
  with total phases_okD [OF assms(3), of i j "Parsed pkt"] show ?thesis
    by (intro phases_ok_move [OF assms(3), of i]) auto
next
  case (clock k pkt now)
  obtain i j where "k = (i, j)" by fastforce
  with clock phases_okD [OF assms(3), of i j "Counted pkt"] show ?thesis
    by (intro phases_ok_move [OF assms(3), of i]) auto
next
  case (outcome k pkt r)
  obtain i j where "k = (i, j)" by fastforce
  with outcome phases_okD [OF assms(3), of i j "Decided pkt r"] show ?thesis
    by (intro phases_ok_move [OF assms(3), of i]) auto
next
  case (opened k pkt)
  obtain i j where "k = (i, j)" by fastforce
  with opened phases_okD [OF assms(3), of i j "Working pkt ToTunnel"] show ?thesis
    by (intro phases_ok_move [OF assms(3), of i]) (auto simp: tunnel_start_ok route_of_tunnel)
qed (use assms(3) in \<open>auto simp: phases_ok_def\<close>)

lemma phases_ok_runs: "runs h (server_start st) ls s \<Longrightarrow> phases_ok h s"
  by (induction rule: runs.induct) (simp add: phases_ok_def, blast intro: phases_ok_step conns_ok_runs)

section \<open>The table of peers\<close>

text \<open>It is what it was at the start, with verified manifests put into it.\<close>

lemma peers_put_all:
  assumes "runs h (server_start st) ls s"
  shows "\<exists>ms. list_all (verify_manifest (lib_crypto h)) ms
    \<and> sh_peers (sv s) = peers.put_all (lib_store h, view) ms (sh_peers st)"
  using assms
proof induction
  case none
  show ?case by (intro exI [of _ "[]"]) (simp add: peers.put_all_def)
next
  case (more ls t l u)
  then obtain ms where ms: "list_all (verify_manifest (lib_crypto h)) ms"
    "sh_peers (sv t) = peers.put_all (lib_store h, view) ms (sh_peers st)" by blast
  from more.hyps(2) show ?case
  proof cases
    case (announced content m wall)
    let ?m = "m\<lparr>mf_seen_at := now_secs wall\<rparr>"
    have "sh_peers (sv u) = peers.put_all (lib_store h, view) (ms @ [?m]) (sh_peers st)"
      by (simp add: announced(2) ms(2) peers.put_all_def)
    moreover have "list_all (verify_manifest (lib_crypto h)) (ms @ [?m])"
      using ms(1) announced(5) by (simp add: verify_seen_at)
    ultimately show ?thesis by blast
  qed (use ms in \<open>auto\<close>)
qed

section \<open>Progress\<close>

lemma runs_one: "server_step h s l t \<Longrightarrow> runs h s [l] t"
  by (rule node.run_one)

lemma runs_trans: "runs h t ls' u \<Longrightarrow> runs h s ls t \<Longrightarrow> runs h s (ls @ ls') u"
  by (rule node.run_trans)

lemma conns_ok_run: "runs h s ls t \<Longrightarrow> conns_ok s \<Longrightarrow> conns_ok t"
  by (induction rule: runs.induct) (auto intro: conns_ok_step)

text \<open>A connection that goes on alone: no other connection or task moves, and no background task.\<close>

definition background_of :: "'db server \<Rightarrow> (background \<Rightarrow> stage) \<times> 'db \<times> rpc_status list \<times> u64 \<times> u64" where
  "background_of s = (stages s, sh_peers (sv s), rpc (sh_stats (sv s)), active_peers (sh_stats (sv s)), dht_nodes (sh_stats (sv s)))"

definition others_kept :: "nat \<Rightarrow> 'db server \<Rightarrow> 'db server \<Rightarrow> bool" where
  "others_kept i s t \<longleftrightarrow> background_of t = background_of s \<and>
     (\<forall>i'. i' \<noteq> i \<longrightarrow> conns t i' = conns s i' \<and> (\<forall>j. tasks t (i', j) = tasks s (i', j)))"

definition solo_step :: "'db handler \<Rightarrow> nat \<Rightarrow> 'db server \<Rightarrow> label \<Rightarrow> 'db server \<Rightarrow> bool" where
  "solo_step h i s l t \<longleftrightarrow> server_step h s l t \<and> others_kept i s t"

inductive solo_runs :: "'db handler \<Rightarrow> nat \<Rightarrow> 'db server \<Rightarrow> label list \<Rightarrow> 'db server \<Rightarrow> bool" for h i s where
  none: "solo_runs h i s [] s"
| more: "solo_runs h i s ls t \<Longrightarrow> solo_step h i t l u \<Longrightarrow> solo_runs h i s (ls @ [l]) u"

interpretation solo: labelled_runs "solo_step h i" "solo_runs h i" for h i
proof
  show "I ls t" if "solo_runs h i s ls t" and "I [] s"
    and "\<And>ls t l u. solo_runs h i s ls t \<Longrightarrow> I ls t \<Longrightarrow> solo_step h i t l u \<Longrightarrow> I (ls @ [l]) u" for s ls t I
    using that by (induction rule: solo_runs.induct) blast+
qed (fact solo_runs.none solo_runs.more)+

lemma solo_runs_runs: "solo_runs h i s ls t \<Longrightarrow> runs h s ls t"
  by (induction rule: solo_runs.induct) (auto intro: runs.intros simp: solo_step_def)

text \<open>What a task owes its client when \<open>pkt\<close> is what it reads: an end with an answer or an error for its
  packet. Of a tunnel it is not known.\<close>

definition wants_tunnel :: "'db handler \<Rightarrow> mesh_packet \<Rightarrow> bool" where
  "wants_tunnel h pkt \<longleftrightarrow> eq_ignore_ascii_case (req_method pkt) ''WS'' \<and> serves (proxy h) (target_provider pkt)"

fun owed :: "'db handler \<Rightarrow> mesh_packet \<Rightarrow> phase \<Rightarrow> mesh_packet option" where
  "owed h pkt Waiting = Some pkt"
| "owed h pkt Started = Some pkt"
| "owed h pkt (Parsed p) = (if wants_tunnel h p then None else Some p)"
| "owed h pkt (Counted p) = (if wants_tunnel h p then None else Some p)"
| "owed h pkt (Clocked p now) = (if wants_tunnel h p then None else Some p)"
| "owed h pkt (Decided p r) = (if r = ToTunnel then None else Some p)"
| "owed h pkt (Working p r) = (if r = ToTunnel then None else Some p)"
| "owed h pkt (Fallback p) = Some p"
| "owed h pkt (Trying p cs) = Some p"
| "owed h pkt (Answering p a) = Some p"
| "owed h pkt _ = None"

text \<open>A task can be brought to its end by its own steps, and pay.\<close>

definition can_finish :: "'db handler \<Rightarrow> nat \<Rightarrow> nat \<Rightarrow> mesh_packet option \<Rightarrow> 'db server \<Rightarrow> bool" where
  "can_finish h i j Q s \<longleftrightarrow>
     (\<exists>ls t p. solo_runs h i s ls t \<and> conns t = conns s \<and> (\<forall>j'. j' \<noteq> j \<longrightarrow> tasks t (i, j') = tasks s (i, j'))
        \<and> tasks t (i, j) = Some p \<and> phase_done p \<and> (\<forall>q. Q = Some q \<longrightarrow> (\<exists>a. Handled (i, j) q a \<in> set ls)))"

definition task_moves :: "nat \<times> nat \<Rightarrow> 'db server \<Rightarrow> 'db server \<Rightarrow> bool" where
  "task_moves k s t \<longleftrightarrow> conns t = conns s \<and> background_of t = background_of s \<and> (\<forall>k'. k' \<noteq> k \<longrightarrow> tasks t k' = tasks s k')"

lemma task_moves_set [simp]:
  "task_moves k s (set_task k q s)" "task_moves k s (set_task k q (with_limiter l s))"
  "task_moves k s (set_task k q (with_stats (counter_step x) s))" "task_moves k s (set_task k q (with_stats inc_total s))"
proof -
  show "task_moves k s (set_task k q (with_stats (counter_step x) s))" for x
    by (cases x) (simp_all add: task_moves_def background_of_def counter_defs)
qed (simp_all add: task_moves_def background_of_def inc_total_def)

lemma can_finish_pay:
  assumes "server_step h s l t" and "task_moves (i, j) s t" and "can_finish h i j Q t"
    and "\<And>q. Q' = Some q \<Longrightarrow> Q = Some q \<or> (\<exists>a. l = Handled (i, j) q a)"
  shows "can_finish h i j Q' s"
proof -
  obtain ls u p where u: "solo_runs h i t ls u" "conns u = conns t" "\<forall>j'. j' \<noteq> j \<longrightarrow> tasks u (i, j') = tasks t (i, j')"
    "tasks u (i, j) = Some p" "phase_done p" "\<forall>q. Q = Some q \<longrightarrow> (\<exists>a. Handled (i, j) q a \<in> set ls)"
    using assms(3) unfolding can_finish_def by blast
  have "solo_step h i s l t"
    using assms(1,2) by (auto simp: solo_step_def others_kept_def task_moves_def)
  from solo.run_trans [OF u(1) solo.run_one [OF this]] have "solo_runs h i s ([l] @ ls) u" .
  moreover have "\<exists>a. Handled (i, j) q a \<in> set ([l] @ ls)" if "Q' = Some q" for q
    using assms(4) [OF that] u(6) by auto
  ultimately show ?thesis
    using u(2-5) assms(2) unfolding can_finish_def task_moves_def
    by (intro exI [of _ "[l] @ ls"] exI [of _ u] exI [of _ p]) simp
qed

lemma can_finish_step:
  "server_step h s l t \<Longrightarrow> task_moves (i, j) s t \<Longrightarrow> can_finish h i j Q t \<Longrightarrow> can_finish h i j Q s"
  by (rule can_finish_pay) blast+

lemma can_finish_none: "can_finish h i j Q s \<Longrightarrow> can_finish h i j None s"
  unfolding can_finish_def by blast

lemma can_finish_now: "tasks s (i, j) = Some p \<Longrightarrow> phase_done p \<Longrightarrow> can_finish h i j None s"
  unfolding can_finish_def by (intro exI [of _ "[]"] exI [of _ s] exI [of _ p]) (simp add: solo_runs.none)

lemma can_finish_answering: "tasks s (i, j) = Some (Answering pkt a) \<Longrightarrow> can_finish h i j (Some pkt) s"
  by (rule can_finish_pay [where Q = None, OF server_step.written]) (auto intro: can_finish_now)

lemma can_finish_trying: "tasks s (i, j) = Some (Trying pkt cs) \<Longrightarrow> can_finish h i j (Some pkt) s"
proof (induction cs arbitrary: s)
  case Nil
  then show ?case by (rule can_finish_step [OF server_step.exhausted]) (auto intro: can_finish_answering)
next
  case (Cons c cs)
  obtain r out where "forward_io (lib_crypto h) (lib_net h) (lib_packet h) c (next_hop pkt) = (r, out)" by fastforce
  from server_step.attempt [OF Cons.prems this] show ?case
    by (rule can_finish_step) (auto intro: can_finish_answering Cons.IH split: sum.split)
qed

lemma can_finish_fallback: "tasks s (i, j) = Some (Fallback pkt) \<Longrightarrow> can_finish h i j (Some pkt) s"
  by (rule can_finish_step [OF server_step.fallback [OF _ refl]]) (auto intro: can_finish_answering can_finish_trying)

lemma can_finish_working:
  assumes w: "tasks s (i, j) = Some (Working pkt r)"
  shows "can_finish h i j (if r = ToTunnel then None else Some pkt) s"
proof -
  consider (tunnel) "r = ToTunnel" | (expired) "r = ToRelay" "ttl pkt = 0" | (relay) "r = ToRelay" "ttl pkt \<noteq> 0"
    | (own) "r \<noteq> ToTunnel" "r \<noteq> ToRelay" by blast
  then show ?thesis
  proof cases
    case tunnel
    with w have "server_step h s Silent (set_task (i, j) Ended s)" by (simp add: server_step.refused)
    then show ?thesis by (rule can_finish_step) (use tunnel in \<open>simp_all add: can_finish_now\<close>)
  next
    case expired
    show ?thesis
      by (rule can_finish_step [OF server_step.expired [OF w [unfolded expired(1)] expired(2)]])
        (use expired in \<open>auto intro: can_finish_answering\<close>)
  next
    case relay
    show ?thesis
      by (rule can_finish_step [OF server_step.named [OF w [unfolded relay(1)] relay(2) refl]])
        (use relay in \<open>auto intro: can_finish_fallback can_finish_trying\<close>)
  next
    case own
    show ?thesis
      by (rule can_finish_step [OF server_step.answer [OF w own]]) (use own in \<open>auto intro: can_finish_answering\<close>)
  qed
qed

lemma can_finish_decided:
  "tasks s (i, j) = Some (Decided pkt r) \<Longrightarrow> can_finish h i j (if r = ToTunnel then None else Some pkt) s"
  by (rule can_finish_step [OF server_step.outcome], assumption, simp, rule can_finish_working) simp

lemma can_finish_clocked:
  assumes "tasks s (i, j) = Some (Clocked pkt now)" and "conns s i = Some c"
  shows "can_finish h i j (if wants_tunnel h pkt then None else Some pkt) s"
proof -
  obtain l ok where "allow (sh_limiter (sv s)) now (al_peer c) (rate_of h pkt) = (l, ok)" by fastforce
  note step = server_step.check [OF assms this]
  define r where "r = route_of h (al_v1 c) pkt ok"
  have "can_finish h i j (if r = ToTunnel then None else Some pkt) s"
    by (rule can_finish_step [OF step]) (simp_all add: can_finish_decided r_def)
  moreover have "r = ToTunnel \<Longrightarrow> wants_tunnel h pkt" by (simp add: r_def route_of_def wants_tunnel_def split: if_split_asm)
  ultimately show ?thesis using can_finish_none by (cases "wants_tunnel h pkt") (auto split: if_split_asm)
qed

lemma can_finish_counted:
  assumes "tasks s (i, j) = Some (Counted pkt)" and "conns s i = Some c"
  shows "can_finish h i j (if wants_tunnel h pkt then None else Some pkt) s"
  by (rule can_finish_step [OF server_step.clock [OF assms(1), of h 0]], simp, rule can_finish_clocked) (simp_all add: assms(2))

lemma can_finish_parsed:
  assumes "tasks s (i, j) = Some (Parsed pkt)" and "conns s i = Some c"
  shows "can_finish h i j (if wants_tunnel h pkt then None else Some pkt) s"
  by (rule can_finish_step [OF server_step.total [OF assms(1)]], simp, rule can_finish_counted) (simp_all add: assms(2))

lemma can_finish_started:
  assumes "tasks s (i, j) = Some Started" and "conns s i = Some c"
    and "pkt_read (lib_packet h) raw = Some pkt" and "\<not> wants_tunnel h pkt"
  shows "can_finish h i j (Some pkt) s"
proof (rule can_finish_step [OF server_step.parse [OF assms(1,3)]])
  show "can_finish h i j (Some pkt) (set_task (i, j) (Parsed pkt) s)"
    using can_finish_parsed [of "set_task (i, j) (Parsed pkt) s" i j pkt c h] assms(2,4) by simp
qed simp

lemma can_finish_task:
  assumes "tasks s (i, j) = Some p" and "conns s i = Some c" and "p \<noteq> Waiting"
    and "pkt_read (lib_packet h) raw = Some pkt" and "\<not> wants_tunnel h pkt"
  shows "can_finish h i j (owed h pkt p) s"
proof (cases p)
  case (Tunnelling pkt t)
  have "returned (tunnel_move h (al_peer c) pkt Expire (sh_limiter (sv s)) t)" by (simp add: tunnel_move_def)
  with server_step.tunnel [OF _ assms(2) refl, of j pkt t h Expire] assms(1) Tunnelling show ?thesis
    by (simp, intro can_finish_step [OF server_step.tunnel [OF _ assms(2) refl, of j pkt t h Expire]])
      (auto intro: can_finish_now)
next
  case Ended
  with assms(1) show ?thesis by (simp add: can_finish_now)
qed (use assms in \<open>simp_all add: can_finish_started can_finish_answering can_finish_trying can_finish_fallback
  can_finish_working can_finish_decided can_finish_clocked can_finish_counted can_finish_parsed del: if_split\<close>)

text \<open>The streams of a connection, with all of them handled and nothing left owed.\<close>

definition can_drain :: "'db handler \<Rightarrow> nat \<Rightarrow> mesh_packet \<Rightarrow> nat multiset \<Rightarrow> 'db server \<Rightarrow> bool" where
  "can_drain h i pkt m s \<longleftrightarrow>
     (\<exists>ls t c. solo_runs h i s ls t \<and> conns t i = Some c \<and> waiting (al_conn c) = [] \<and> handling (al_conn c) = []
        \<and> mset (handled (al_conn c)) = m
        \<and> (\<forall>j p q. tasks s (i, j) = Some p \<longrightarrow> owed h pkt p = Some q \<longrightarrow> (\<exists>a. Handled (i, j) q a \<in> set ls)))"

lemma can_drain_run:
  assumes "solo_runs h i s ls t" and "can_drain h i pkt m t"
    and "\<And>j p q. tasks s (i, j) = Some p \<Longrightarrow> owed h pkt p = Some q \<Longrightarrow>
      (\<exists>p'. tasks t (i, j) = Some p' \<and> owed h pkt p' = Some q) \<or> (\<exists>a. Handled (i, j) q a \<in> set ls)"
  shows "can_drain h i pkt m s"
proof -
  obtain ls' u c where u: "solo_runs h i t ls' u" "conns u i = Some c" "waiting (al_conn c) = []" "handling (al_conn c) = []"
    "mset (handled (al_conn c)) = m"
    "\<forall>j p q. tasks t (i, j) = Some p \<longrightarrow> owed h pkt p = Some q \<longrightarrow> (\<exists>a. Handled (i, j) q a \<in> set ls')"
    using assms(2) unfolding can_drain_def by blast
  have "\<exists>a. Handled (i, j) q a \<in> set (ls @ ls')" if "tasks s (i, j) = Some p" and "owed h pkt p = Some q" for j p q
    using assms(3) [OF that] u(6) by (metis UnI1 UnI2 set_append)
  with solo.run_trans [OF u(1) assms(1)] u(2-5) show ?thesis unfolding can_drain_def by blast
qed

lemma task_solo: "server_step h s l t \<Longrightarrow> others_kept i s t \<Longrightarrow> solo_runs h i s [l] t"
  by (rule solo.run_one) (simp add: solo_step_def)

text \<open>A stream's task ends and gives its permit back; a waiting one gets its permit.\<close>

lemma drain_handling:
  assumes "conns_ok s" and "conns s i = Some c" and "handling (al_conn c) = j # js"
    and "pkt_read (lib_packet h) raw = Some pkt" and "\<not> wants_tunnel h pkt"
    and "\<And>t. conns_ok t \<Longrightarrow> conns t i = Some (c\<lparr>al_conn := al_conn c\<lparr>permits := permits (al_conn c) + 1, handling := js,
      handled := handled (al_conn c) @ [j]\<rparr>\<rparr>) \<Longrightarrow> can_drain h i pkt m t"
  shows "can_drain h i pkt m s"
proof -
  note ok = conns_okD(4) [OF assms(1,2)]
  obtain p where p: "tasks s (i, j) = Some p" using ok assms(3) by (force simp: loop_ok_def all_streams_def)
  moreover have "p \<noteq> Waiting" using ok assms(3) p by (auto simp: loop_ok_def all_streams_def)
  ultimately have "can_finish h i j (owed h pkt p) s" by (rule can_finish_task [OF _ assms(2) _ assms(4,5)])
  then obtain ls t q where t: "solo_runs h i s ls t" "conns t = conns s" "\<forall>j'. j' \<noteq> j \<longrightarrow> tasks t (i, j') = tasks s (i, j')"
    "tasks t (i, j) = Some q" "phase_done q" "\<forall>q. owed h pkt p = Some q \<longrightarrow> (\<exists>a. Handled (i, j) q a \<in> set ls)"
    unfolding can_finish_def by blast
  let ?u = "on_conn i (StreamDone j) c t"
  have ct: "conns t i = Some c" using t(2) assms(2) by simp
  have step: "server_step h t Silent ?u"
    by (rule server_step.release [OF ct _ t(4,5)]) (simp add: assms(3))
  have "others_kept i t ?u"
    by (simp add: others_kept_def background_of_def on_conn_def assms(3))
  from solo.run_trans [OF task_solo [OF step this] t(1)] have run: "solo_runs h i s (ls @ [Silent]) ?u" .
  have "conns_ok ?u"
    using conns_ok_step [OF step] conns_ok_run [OF solo_runs_runs [OF t(1)] assms(1)] by blast
  then have "can_drain h i pkt m ?u" by (rule assms(6)) (simp add: assms(3))
  then show ?thesis
  proof (rule can_drain_run [OF run])
    fix j' p' q' assume a: "tasks s (i, j') = Some p'" "owed h pkt p' = Some q'"
    show "(\<exists>p. tasks ?u (i, j') = Some p \<and> owed h pkt p = Some q') \<or> (\<exists>a. Handled (i, j') q' a \<in> set (ls @ [Silent]))"
      using a t(3,6) p by (cases "j' = j") auto
  qed
qed

lemma drain_waiting:
  assumes "conns_ok s" and "conns s i = Some c" and "handling (al_conn c) = []" and "waiting (al_conn c) = j # ws"
    and "\<And>t. conns_ok t \<Longrightarrow> conns t i = Some (c\<lparr>al_conn := al_conn c\<lparr>permits := permits (al_conn c) - 1, waiting := ws,
      handling := [j]\<rparr>\<rparr>) \<Longrightarrow> can_drain h i pkt m t"
  shows "can_drain h i pkt m s"
proof -
  note ok = conns_okD(4) [OF assms(1,2)]
  have w: "tasks s (i, j) = Some Waiting" using ok assms(4) by (simp add: loop_ok_def)
  have pm: "permits (al_conn c) \<noteq> 0" using ok assms(3) by (simp add: loop_ok_def MAX_CONCURRENT_STREAMS_PER_CONN_def)
  let ?u = "set_task (i, j) Started (on_conn i Acquire c s)"
  have step: "server_step h s Silent ?u" by (rule server_step.acquire [OF assms(2,4) pm])
  have "others_kept i s ?u"
    using pm by (simp add: others_kept_def background_of_def on_conn_def assms(4))
  from task_solo [OF step this] have run: "solo_runs h i s [Silent] ?u" .
  have "can_drain h i pkt m ?u"
    using pm by (intro assms(5) conns_ok_step [OF step assms(1)]) (simp add: assms(3,4))
  then show ?thesis
  proof (rule can_drain_run [OF run])
    fix j' p' q' assume a: "tasks s (i, j') = Some p'" "owed h pkt p' = Some q'"
    then show "(\<exists>p. tasks ?u (i, j') = Some p \<and> owed h pkt p = Some q') \<or> (\<exists>a. Handled (i, j') q' a \<in> set [Silent])"
      using w by (cases "j' = j") auto
  qed
qed

lemma drain:
  fixes s :: "'db server"
  assumes "conns_ok s" and "conns s i = Some c"
    and "pkt_read (lib_packet h) raw = Some pkt" and "\<not> wants_tunnel h pkt"
  shows "can_drain h i pkt (mset (all_streams (al_conn c))) s"
  using assms(1,2)
proof (induction "2 * length (waiting (al_conn c)) + length (handling (al_conn c))" arbitrary: s c rule: less_induct)
  case less
  show ?case
  proof (cases "handling (al_conn c)")
    case (Cons j js)
    show ?thesis
    proof (rule drain_handling [OF less.prems Cons assms(3,4)])
      fix t :: "'db server" assume t: "conns_ok t" "conns t i = Some (c\<lparr>al_conn := al_conn c\<lparr>permits := permits (al_conn c) + 1,
        handling := js, handled := handled (al_conn c) @ [j]\<rparr>\<rparr>)"
      show "can_drain h i pkt (mset (all_streams (al_conn c))) t"
        using less.hyps [OF _ t] Cons by (simp add: all_streams_def)
    qed
  next
    case Nil
    show ?thesis
    proof (cases "waiting (al_conn c)")
      case Nil': Nil
      have "\<nexists>q. owed h pkt p = Some q" if "tasks s (i, j) = Some p" for j p
      proof -
        have "phase_done p"
          using conns_okD(4) [OF less.prems] that Nil Nil' unfolding loop_ok_def all_streams_def by fastforce
        then show ?thesis by (cases p) simp_all
      qed
      with Nil Nil' less.prems(2) show ?thesis
        unfolding can_drain_def
        by (intro exI [of _ "[]"] exI [of _ s] exI [of _ c]) (auto simp: solo_runs.none all_streams_def)
    next
      case (Cons j ws)
      show ?thesis
      proof (rule drain_waiting [OF less.prems Nil Cons])
        fix t :: "'db server" assume t: "conns_ok t" "conns t i = Some (c\<lparr>al_conn := al_conn c\<lparr>permits := permits (al_conn c) - 1,
          waiting := ws, handling := [j]\<rparr>\<rparr>)"
        show "can_drain h i pkt (mset (all_streams (al_conn c))) t"
          using less.hyps [OF _ t] Cons Nil by (simp add: all_streams_def)
      qed
    qed
  qed
qed

end
