(* ===== verification/Server_Trace.thy ===== *)
theory Server_Trace
  imports Server_Inv
begin

text \<open>
  Where what a running node holds comes from: the peers that a relay asks, the services and the number of
  peers that the dashboard shows. Then the other direction: what the sequential functions do in one step
  (\<open>handle_packet\<close>, \<open>on_announce\<close>, \<open>health_round\<close>) the running node can do in a row of steps.
\<close>

section \<open>The peers that are asked\<close>

definition listed :: "'db handler \<Rightarrow> string \<Rightarrow> 'db server \<Rightarrow> bool" where
  "listed h n s \<longleftrightarrow> n \<noteq> me h \<and> n \<in> mf_node_id ` set (peer_list (lib_store h) (sh_peers (sv s)))"

lemma providers_listed:
  "n \<in> set (providers_of (lib_store h) (sh_peers (sv s)) target (me h)) \<Longrightarrow> listed h n s"
  "n \<in> set (others (lib_store h) (sh_peers (sv s)) (me h)) \<Longrightarrow> listed h n s"
  by (auto simp: listed_def providers_of_def others_def)

text \<open>\<open>A\<close> are the nodes that may be asked, and \<open>B\<close> tells the replies that may be passed on.\<close>

fun relay_phase :: "(string \<Rightarrow> bool) \<Rightarrow> (mesh_packet \<Rightarrow> bytes \<Rightarrow> bool) \<Rightarrow> phase \<Rightarrow> bool" where
  "relay_phase A B (Fallback pkt) \<longleftrightarrow> ttl pkt \<noteq> 0"
| "relay_phase A B (Trying pkt cs) \<longleftrightarrow> ttl pkt \<noteq> 0 \<and> (\<forall>n \<in> set cs. A n)"
| "relay_phase A B (Answering pkt (Relayed (Inr resp))) \<longleftrightarrow> ttl pkt \<noteq> 0 \<and> B pkt resp"
| "relay_phase A B _ \<longleftrightarrow> True"

lemma relay_phase_mono:
  "relay_phase A B p \<Longrightarrow> (\<And>n. A n \<Longrightarrow> A' n) \<Longrightarrow> (\<And>pkt r. B pkt r \<Longrightarrow> B' pkt r) \<Longrightarrow> relay_phase A' B' p"
  by (cases "(A, B, p)" rule: relay_phase.cases) auto

lemma relay_phase_own: "r \<noteq> ToRelay \<Longrightarrow> relay_phase A B (Answering pkt (answer_of h r wall pkt' db))"
  by (cases r) simp_all

text \<open>The node was listed at an earlier moment of the run; and after such a moment the network gave this
  reply to the packet with one hop less, printed and written to that node for this task.\<close>

definition was_listed :: "'db handler \<Rightarrow> 'db server \<Rightarrow> label list \<Rightarrow> 'db server \<Rightarrow> string \<Rightarrow> bool" where
  "was_listed h s0 ls s n \<longleftrightarrow> node.once h s0 (\<lambda>ls'. listed h n) ls s"

definition was_replied ::
  "'db handler \<Rightarrow> 'db server \<Rightarrow> label list \<Rightarrow> 'db server \<Rightarrow> nat \<times> nat \<Rightarrow> mesh_packet \<Rightarrow> bytes \<Rightarrow> bool" where
  "was_replied h s0 ls s k pkt resp \<longleftrightarrow>
     (\<exists>n eid json. eid_parse (lib_crypto h) n = Some eid \<and> pkt_print (lib_packet h) (next_hop pkt) = Some json
        \<and> node.once h s0 (\<lambda>ls' u. listed h n u \<and> Replied k eid json resp \<in> set ls') ls s)"

lemma was_listed_now: "runs h s0 ls s \<Longrightarrow> listed h n s \<Longrightarrow> was_listed h s0 ls s n"
  unfolding was_listed_def by (rule node.once_now)

lemma was_listed_step: "was_listed h s0 ls s n \<Longrightarrow> server_step h s l t \<Longrightarrow> was_listed h s0 (ls @ [l]) t n"
  unfolding was_listed_def by (rule node.once_step)

lemma was_replied_step:
  assumes "was_replied h s0 ls s k pkt r" and "server_step h s l t"
  shows "was_replied h s0 (ls @ [l]) t k pkt r"
proof -
  obtain n eid json where e: "eid_parse (lib_crypto h) n = Some eid" "pkt_print (lib_packet h) (next_hop pkt) = Some json"
    and o: "node.once h s0 (\<lambda>ls' u. listed h n u \<and> Replied k eid json r \<in> set ls') ls s"
    using assms(1) unfolding was_replied_def by blast
  have "node.once h s0 (\<lambda>ls' u. listed h n u \<and> Replied k eid json r \<in> set ls') (ls @ [l]) t"
    by (rule node.once_step [OF o assms(2)]) simp
  with e show ?thesis unfolding was_replied_def by blast
qed

text \<open>A successful attempt is a reply of the network.\<close>

lemma forward_io_Inr_label:
  assumes "forward_io L N P n pkt = (Inr resp, out)"
  obtains eid json where "eid_parse L n = Some eid" and "pkt_print P pkt = Some json"
    and "net_label N k out = Replied k eid json resp"
  using assms that
  by (auto simp: forward_io_def net_label_def split: option.splits if_split_asm)

lemma was_replied_now:
  assumes "forward_io (lib_crypto h) N (lib_packet h) n (next_hop pkt) = (Inr resp, out)"
    and "was_listed h s0 ls s n" and "server_step h s (net_label N k out) t"
  shows "was_replied h s0 (ls @ [net_label N k out]) t k pkt resp"
proof -
  obtain eid json where e: "eid_parse (lib_crypto h) n = Some eid" "pkt_print (lib_packet h) (next_hop pkt) = Some json"
    "net_label N k out = Replied k eid json resp"
    using forward_io_Inr_label [OF assms(1)] .
  from node.once_step [OF assms(2) [unfolded was_listed_def] assms(3),
      where Q = "\<lambda>ls' u. listed h n u \<and> Replied k eid json resp \<in> set ls'"] e
  show ?thesis unfolding was_replied_def by auto
qed

definition relays_ok :: "'db handler \<Rightarrow> 'db server \<Rightarrow> label list \<Rightarrow> 'db server \<Rightarrow> bool" where
  "relays_ok h s0 ls s \<longleftrightarrow>
     (\<forall>k p. tasks s k = Some p \<longrightarrow> relay_phase (was_listed h s0 ls s) (was_replied h s0 ls s k) p)"

lemma relays_okD:
  "relays_ok h s0 ls s \<Longrightarrow> tasks s k = Some p \<Longrightarrow> relay_phase (was_listed h s0 ls s) (was_replied h s0 ls s k) p"
  unfolding relays_ok_def by blast

lemma relays_ok_keep:
  assumes "relays_ok h s0 ls s" and "server_step h s l t"
    and "\<And>k p. tasks t k = Some p \<Longrightarrow>
      tasks s k = Some p \<or> relay_phase (was_listed h s0 (ls @ [l]) t) (was_replied h s0 (ls @ [l]) t k) p"
  shows "relays_ok h s0 (ls @ [l]) t"
  unfolding relays_ok_def
proof (intro allI impI)
  fix k p assume "tasks t k = Some p"
  with assms(3) consider "tasks s k = Some p"
    | "relay_phase (was_listed h s0 (ls @ [l]) t) (was_replied h s0 (ls @ [l]) t k) p" by blast
  then show "relay_phase (was_listed h s0 (ls @ [l]) t) (was_replied h s0 (ls @ [l]) t k) p"
  proof cases
    case 1
    from relays_okD [OF assms(1) this] show ?thesis
      by (rule relay_phase_mono) (rule was_listed_step [OF _ assms(2)], assumption, rule was_replied_step [OF _ assms(2)])
  qed
qed

lemma relays_ok_step:
  assumes step: "server_step h s l t" and "runs h s0 ls s" and ok: "relays_ok h s0 ls s"
  shows "relays_ok h s0 (ls @ [l]) t"
  using step
proof cases
  case (named k pkt cs)
  have "was_listed h s0 (ls @ [l]) t n" if "n \<in> set cs" for n
    using was_listed_step [OF was_listed_now [OF assms(2)] step] providers_listed(1) that named(5) by blast
  with named show ?thesis by (intro relays_ok_keep [OF ok step]) (auto split: if_splits)
next
  case (fallback k pkt cs)
  have "was_listed h s0 (ls @ [l]) t n" if "n \<in> set cs" for n
    using was_listed_step [OF was_listed_now [OF assms(2)] step] providers_listed(2) that fallback(4) by blast
  with fallback relays_okD [OF ok fallback(3)] show ?thesis
    by (intro relays_ok_keep [OF ok step]) (auto split: if_splits)
next
  case (attempt k pkt cand cs N r out)
  note before = relays_okD [OF ok attempt(3)]
  have later: "was_listed h s0 (ls @ [l]) t n" if "n \<in> set cs" for n
    using before was_listed_step [OF _ step] that by simp
  have "was_replied h s0 (ls @ [l]) t k pkt resp" if "r = Inr resp" for resp
    using was_replied_now [of h N cand pkt resp out s0 ls s k t] attempt(1,4) before step that by simp
  with attempt before later show ?thesis
    by (intro relays_ok_keep [OF ok step]) (auto split: if_splits sum.splits)
next
  case (answer k pkt r wall)
  then show ?thesis
    by (intro relays_ok_keep [OF ok step]) (auto simp: relay_phase_own split: if_splits)
qed (rule relays_ok_keep [OF ok step], force split: if_split_asm)+

lemma relays_ok_runs: "runs h (server_start st) ls s \<Longrightarrow> relays_ok h (server_start st) ls s"
  by (induction rule: runs.induct) (simp add: relays_ok_def, blast intro: relays_ok_step)

section \<open>What the dashboard shows\<close>

text \<open>What was seen of the services, and the entry that shows it.\<close>

definition probes :: "label list \<Rightarrow> (string \<times> (string \<times> bool \<times> nat) option) list" where
  "probes ls = List.map_filter (\<lambda>l. case l of Probed n r \<Rightarrow> Some (n, r) | _ \<Rightarrow> None) ls"

definition entry_of :: "engine \<Rightarrow> string \<times> (string \<times> bool \<times> nat) option \<Rightarrow> rpc_status" where
  "entry_of E p =
     \<lparr>rpc_name = fst p,
      online = (case snd p of None \<Rightarrow> False | Some (url, ok, ns) \<Rightarrow> ok),
      rpc_latency_ms = (case snd p of None \<Rightarrow> 0 | Some (url, ok, ns) \<Rightarrow> of_nat (ns div 10 ^ 6)),
      rpc_protocols = protocols_for E (fst p)\<rparr>"

lemma entry_of_status:
  "health_status E get n = entry_of E (n, map_option (\<lambda>ep. (local_url ep, get (local_url ep))) (Mapping.lookup (by_name E) n))"
  by (simp add: health_status_def health_def entry_of_def split: option.split prod.split)

fun is_round :: "label \<Rightarrow> bool" where
  "is_round (Round ns) = True"
| "is_round _ = False"

text \<open>The labels since a round with the names \<open>ns\<close> began, of which \<open>rest\<close> are still to be asked.\<close>

definition in_round :: "engine \<Rightarrow> label list \<Rightarrow> string list \<Rightarrow> string list \<Rightarrow> bool" where
  "in_round E ys ns rest \<longleftrightarrow>
     is_names E ns \<and> list_all (\<lambda>l. \<not> is_round l \<and> l \<noteq> Published) ys \<and> ns = map fst (probes ys) @ rest"

definition whole_round :: "engine \<Rightarrow> label list \<Rightarrow> rpc_status list \<Rightarrow> bool" where
  "whole_round E ls rs \<longleftrightarrow>
     (\<exists>xs ns ys zs. ls = xs @ Round ns # ys @ Published # zs \<and> Published \<notin> set zs
        \<and> in_round E ys ns [] \<and> rs = map (entry_of E) (probes ys))"

definition had_peers :: "'db handler \<Rightarrow> nat \<Rightarrow> 'db server \<Rightarrow> bool" where
  "had_peers h n s \<longleftrightarrow> n = length (peer_list (lib_store h) (sh_peers (sv s)))"

definition had_once :: "'db handler \<Rightarrow> 'db server \<Rightarrow> label list \<Rightarrow> 'db server \<Rightarrow> nat \<Rightarrow> bool" where
  "had_once h s0 ls s n \<longleftrightarrow> node.once h s0 (\<lambda>ls'. had_peers h n) ls s"

lemma had_once_now: "runs h s0 ls s \<Longrightarrow> had_peers h n s \<Longrightarrow> had_once h s0 ls s n"
  unfolding had_once_def by (rule node.once_now)

lemma had_once_step: "had_once h s0 ls s n \<Longrightarrow> server_step h s l t \<Longrightarrow> had_once h s0 (ls @ [l]) t n"
  unfolding had_once_def by (rule node.once_step)

fun stage_ok :: "engine \<Rightarrow> (nat \<Rightarrow> bool) \<Rightarrow> label list \<Rightarrow> stage \<Rightarrow> bool" where
  "stage_ok E A ls (Probing rs rest) \<longleftrightarrow>
     (\<exists>xs ns ys. ls = xs @ Round ns # ys \<and> in_round E ys ns rest \<and> rs = map (entry_of E) (probes ys))"
| "stage_ok E A ls (Showing n) \<longleftrightarrow> A n"
| "stage_ok E A ls _ \<longleftrightarrow> True"

definition board_ok :: "'db handler \<Rightarrow> 'db server \<Rightarrow> label list \<Rightarrow> 'db server \<Rightarrow> bool" where
  "board_ok h s0 ls s \<longleftrightarrow>
     (Published \<notin> set ls \<and> rpc (sh_stats (sv s)) = rpc (sh_stats (sv s0)) \<or>
      whole_round (proxy h) ls (rpc (sh_stats (sv s)))) \<and>
     (active_peers (sh_stats (sv s)) = active_peers (sh_stats (sv s0)) \<or>
        (\<exists>n. had_once h s0 ls s n \<and> active_peers (sh_stats (sv s)) = of_nat n)) \<and>
     (\<forall>b. stage_ok (proxy h) (had_once h s0 ls s) ls (stages s b)) \<and> (\<forall>rs ns. stages s Listener \<noteq> Probing rs ns)"

lemma probes_simps [simp]:
  "probes [] = []" "probes (ls @ [Probed n r]) = probes ls @ [(n, r)]"
  "probes (ls @ [probe_label E get n]) =
     probes ls @ [(n, map_option (\<lambda>ep. (local_url ep, get (local_url ep))) (Mapping.lookup (by_name E) n))]"
  by (simp_all add: probes_def probe_label_def map_filter_append List.map_filter_simps)

text \<open>Labels that are no part of a health round.\<close>

fun off_round :: "label \<Rightarrow> bool" where
  "off_round (Round ns) = False"
| "off_round (Probed n r) = False"
| "off_round Published = False"
| "off_round _ = True"

lemma off_roundD: "off_round l \<Longrightarrow> \<not> is_round l \<and> l \<noteq> Published \<and> probes (ls @ [l]) = probes ls"
  by (cases l) (simp_all add: probes_def map_filter_append List.map_filter_simps)

lemma off_round_labels [simp]: "off_round (net_label N k out)"
  by (simp add: net_label_def split: list.split option.split)

lemma whole_round_more: "whole_round E ls rs \<Longrightarrow> l \<noteq> Published \<Longrightarrow> whole_round E (ls @ [l]) rs"
proof -
  assume l: "l \<noteq> Published" and "whole_round E ls rs"
  then obtain xs ns ys zs where "ls = xs @ Round ns # ys @ Published # zs" "Published \<notin> set zs"
    "in_round E ys ns []" "rs = map (entry_of E) (probes ys)" unfolding whole_round_def by blast
  with l show "whole_round E (ls @ [l]) rs"
    unfolding whole_round_def by (intro exI [of _ xs] exI [of _ ns] exI [of _ ys] exI [of _ "zs @ [l]"]) auto
qed

lemma stage_ok_mono:
  assumes "stage_ok E A ls p" and "\<And>n. A n \<Longrightarrow> B n" and "off_round l"
  shows "stage_ok E B (ls @ [l]) p"
proof (cases p)
  case (Probing rs rest)
  then obtain xs ns ys where r: "ls = xs @ Round ns # ys" "in_round E ys ns rest" "rs = map (entry_of E) (probes ys)"
    using assms(1) by auto
  with off_roundD [OF assms(3), of ys] have "in_round E (ys @ [l]) ns rest" and "rs = map (entry_of E) (probes (ys @ [l]))"
    by (auto simp: in_round_def)
  with Probing r(1) show ?thesis
    unfolding Probing stage_ok.simps by (intro exI [of _ xs] exI [of _ ns] exI [of _ "ys @ [l]"]) simp
qed (use assms in auto)

lemma counter_step_board: "rpc (counter_step x st) = rpc st" "active_peers (counter_step x st) = active_peers st"
  by (cases x; simp add: counter_defs)+

lemma conn_step_board:
  "rpc (snd (conn_step e cs)) = rpc (snd cs)" "active_peers (snd (conn_step e cs)) = active_peers (snd cs)"
  by (cases "(e, cs)" rule: conn_step.cases; simp add: counter_defs split: list.split)+

lemma set_board:
  "rpc (set_dht_nodes n st) = rpc st" "active_peers (set_dht_nodes n st) = active_peers st"
  "rpc (set_rpc rs st) = rs" "active_peers (set_rpc rs st) = active_peers st"
  "rpc (set_active_peers m st) = rpc st" "active_peers (set_active_peers m st) = m"
  by (simp_all add: set_dht_nodes_def set_rpc_def set_active_peers_def)

lemmas board_simps = counter_step_board counter_step_board [of OpenConn, simplified]
  counter_step_board [of DropConn, simplified] counter_step_board [of IncTotal, simplified]
  conn_step_board set_board

lemma board_okD:
  assumes "board_ok h s0 ls s"
  shows "stage_ok (proxy h) (had_once h s0 ls s) ls (stages s b)" and "stages s Listener \<noteq> Probing rs ns"
  using assms unfolding board_ok_def by blast+

text \<open>A step that is no part of a round, and a step of the round itself.\<close>

lemma board_ok_keep:
  assumes ok: "board_ok h s0 ls s" and step: "server_step h s l t" and "off_round l"
    and "rpc (sh_stats (sv t)) = rpc (sh_stats (sv s))"
    and "active_peers (sh_stats (sv t)) = active_peers (sh_stats (sv s))
      \<or> (\<exists>n. had_once h s0 (ls @ [l]) t n \<and> active_peers (sh_stats (sv t)) = of_nat n)"
    and "\<And>b. stages t b = stages s b
      \<or> (\<forall>rs ns. stages t b \<noteq> Probing rs ns) \<and> stage_ok (proxy h) (had_once h s0 (ls @ [l]) t) (ls @ [l]) (stages t b)"
  shows "board_ok h s0 (ls @ [l]) t"
proof -
  have once: "had_once h s0 ls s n \<Longrightarrow> had_once h s0 (ls @ [l]) t n" for n
    by (rule had_once_step [OF _ step])
  have l: "l \<noteq> Published" using off_roundD [OF assms(3)] by simp
  have "stage_ok (proxy h) (had_once h s0 (ls @ [l]) t) (ls @ [l]) (stages t b)" for b
    using assms(6) [of b] stage_ok_mono [OF board_okD(1) [OF ok, of b] once assms(3)] by auto
  moreover have "stages t Listener \<noteq> Probing rs ns" for rs ns
    using assms(6) [of Listener] board_okD(2) [OF ok] by auto
  moreover have "active_peers (sh_stats (sv t)) = active_peers (sh_stats (sv s0))
      \<or> (\<exists>n. had_once h s0 (ls @ [l]) t n \<and> active_peers (sh_stats (sv t)) = of_nat n)"
    using ok assms(5) once unfolding board_ok_def by metis
  moreover have "Published \<notin> set (ls @ [l]) \<and> rpc (sh_stats (sv t)) = rpc (sh_stats (sv s0))
      \<or> whole_round (proxy h) (ls @ [l]) (rpc (sh_stats (sv t)))"
    using ok l whole_round_more [OF _ l, of "proxy h" ls] by (auto simp: board_ok_def assms(4))
  ultimately show ?thesis unfolding board_ok_def by blast
qed

lemma board_ok_checker:
  assumes ok: "board_ok h s0 ls s" and step: "server_step h s l t" and "\<not> off_round l"
    and "stages t = (stages s)(Checker := p)" and "stage_ok (proxy h) (had_once h s0 (ls @ [l]) t) (ls @ [l]) p"
    and "active_peers (sh_stats (sv t)) = active_peers (sh_stats (sv s))"
    and "l \<noteq> Published \<and> rpc (sh_stats (sv t)) = rpc (sh_stats (sv s))
      \<or> whole_round (proxy h) (ls @ [l]) (rpc (sh_stats (sv t)))"
  shows "board_ok h s0 (ls @ [l]) t"
proof -
  have once: "had_once h s0 ls s n \<Longrightarrow> had_once h s0 (ls @ [l]) t n" for n
    by (rule had_once_step [OF _ step])
  have "stage_ok (proxy h) (had_once h s0 (ls @ [l]) t) (ls @ [l]) (stages t b)" for b
  proof (cases b)
    case Listener
    have "stages t b = stages s Listener" using assms(4) Listener by simp
    with board_okD(1) [OF ok, of Listener] board_okD(2) [OF ok] once show ?thesis
      by (cases "stages s Listener") (simp, blast, simp_all)
  qed (use assms(4,5) in simp)
  moreover have "active_peers (sh_stats (sv t)) = active_peers (sh_stats (sv s0))
      \<or> (\<exists>n. had_once h s0 (ls @ [l]) t n \<and> active_peers (sh_stats (sv t)) = of_nat n)"
    using ok assms(6) once unfolding board_ok_def by metis
  moreover have "Published \<notin> set (ls @ [l]) \<and> rpc (sh_stats (sv t)) = rpc (sh_stats (sv s0))
      \<or> whole_round (proxy h) (ls @ [l]) (rpc (sh_stats (sv t)))"
    using ok assms(7) whole_round_more [of "proxy h" ls _ l] by (auto simp: board_ok_def)
  moreover have "stages t Listener \<noteq> Probing rs ns" for rs ns
    using board_okD(2) [OF ok] assms(4) by simp
  ultimately show ?thesis unfolding board_ok_def by blast
qed

lemma board_ok_step:
  assumes step: "server_step h s l t" and run: "runs h s0 ls s" and ok: "board_ok h s0 ls s"
  shows "board_ok h s0 (ls @ [l]) t"
  using step
proof cases
  case (round ns)
  have "stage_ok (proxy h) (had_once h s0 (ls @ [l]) t) (ls @ [l]) (Probing [] ns)"
    unfolding stage_ok.simps using round
    by (intro exI [of _ ls] exI [of _ ns] exI [of _ "[]"]) (simp add: in_round_def)
  with round show ?thesis by (intro board_ok_checker [OF ok step, of "Probing [] ns"]) (simp_all del: stage_ok.simps)
next
  case (probe rs n ns get)
  obtain xs all ys where r: "ls = xs @ Round all # ys" "in_round (proxy h) ys all (n # ns)"
    "rs = map (entry_of (proxy h)) (probes ys)"
    using board_okD(1) [OF ok, of Checker] probe(3) by auto
  have "in_round (proxy h) (ys @ [l]) all ns"
    using r(2) by (auto simp: in_round_def probe(1)) (simp_all add: probe_label_def)
  then have "stage_ok (proxy h) (had_once h s0 (ls @ [l]) t) (ls @ [l]) (Probing (rs @ [health_status (proxy h) get n]) ns)"
    by (simp only: stage_ok.simps, intro exI [of _ xs] exI [of _ all] exI [of _ "ys @ [l]"])
      (simp add: r(1,3) probe(1) entry_of_status)
  with probe show ?thesis
    by (intro board_ok_checker [OF ok step, of "Probing (rs @ [health_status (proxy h) get n]) ns"])
      (simp_all add: probe_label_def del: stage_ok.simps)
next
  case (publish rs)
  obtain xs all ys where r: "ls = xs @ Round all # ys" "in_round (proxy h) ys all []"
    "rs = map (entry_of (proxy h)) (probes ys)"
    using board_okD(1) [OF ok, of Checker] publish(3) by auto
  then have "whole_round (proxy h) (ls @ [l]) rs"
    unfolding whole_round_def publish(1)
    by (intro exI [of _ xs] exI [of _ all] exI [of _ ys] exI [of _ "[]"]) simp
  with publish show ?thesis by (intro board_ok_checker [OF ok step, of Counting]) (simp_all add: set_board)
next
  case (count b)
  have "had_once h s0 (ls @ [l]) t (length (peer_list (lib_store h) (sh_peers (sv s))))"
    by (rule had_once_step [OF had_once_now [OF run] step]) (simp add: had_peers_def)
  with count show ?thesis by (intro board_ok_keep [OF ok step]) auto
next
  case (display b n)
  have "had_once h s0 (ls @ [l]) t n"
    using board_okD(1) [OF ok, of b] display(3) had_once_step [OF _ step] by simp
  with display show ?thesis by (intro board_ok_keep [OF ok step]) (auto simp: set_board)
next
  case (tunnel i j pkt t0 c t' e)
  then show ?thesis by (intro board_ok_keep [OF ok step]) (simp_all split: option.split)
qed (rule board_ok_keep [OF ok step]; simp add: board_simps)+

lemma board_ok_runs: "runs h (server_start st) ls s \<Longrightarrow> board_ok h (server_start st) ls s"
  by (induction rule: runs.induct) (simp add: board_ok_def, blast intro: board_ok_step)

section \<open>The sequential functions as schedules\<close>

lemma set_task_twice [simp]: "set_task k q (set_task k p s) = set_task k q s"
  by (simp add: set_task_def)

lemma reaches_one: "server_step h s l t \<Longrightarrow> node.reaches h s t"
  by (rule node.reaches_step [OF _ node.reaches_refl])

lemma trying_schedule:
  "tasks s k = Some (Trying pkt cs) \<Longrightarrow>
    node.reaches h s (set_task k (Answering pkt (Relayed
      (case fst (try_candidates (\<lambda>n. forward_io (lib_crypto h) (lib_net h) (lib_packet h) n (next_hop pkt)) cs) of
         Inl e \<Rightarrow> Inl (RelayFailed e) | Inr r \<Rightarrow> Inr r))) s)"
proof (induction cs arbitrary: s)
  case Nil
  from reaches_one [OF server_step.exhausted [OF Nil]] show ?case by simp
next
  case (Cons n cs)
  obtain r out where f: "forward_io (lib_crypto h) (lib_net h) (lib_packet h) n (next_hop pkt) = (r, out)" by fastforce
  note step = server_step.attempt [OF Cons.prems f]
  show ?case
  proof (cases r)
    case (Inl e)
    show ?thesis using node.reaches_step [OF step Cons.IH] f by (simp add: Inl case_prod_beta')
  next
    case (Inr resp)
    show ?thesis using reaches_one [OF step] f by (simp add: Inr)
  qed
qed

lemma relay_schedule:
  assumes "tasks s k = Some (Working pkt ToRelay)"
  shows "node.reaches h s (set_task k (Answering pkt (answer_of h ToRelay wall pkt (sh_peers (sv s)))) s)"
proof (cases "ttl pkt = 0")
  case True
  with reaches_one [OF server_step.expired [OF assms True]] show ?thesis by (simp add: relay_cases)
next
  case False
  let ?named = "providers_of (lib_store h) (sh_peers (sv s)) (target_provider pkt) (me h)"
  let ?others = "others (lib_store h) (sh_peers (sv s)) (me h)"
  note first = server_step.named [OF assms False refl, of h]
  show ?thesis
  proof (cases "?named = []")
    case named: False
    then have "tasks (set_task k (Trying pkt ?named) s) k = Some (Trying pkt ?named)" by simp
    from trying_schedule [OF this, of h] have "node.reaches h (set_task k (Trying pkt ?named) s)
        (set_task k (Answering pkt (answer_of h ToRelay wall pkt (sh_peers (sv s)))) s)"
      using False named by (simp add: relay_cases candidates_def Let_def)
    with node.reaches_step [OF first] named show ?thesis by simp
  next
    case named: True
    have f: "tasks (set_task k (Fallback pkt) s) k = Some (Fallback pkt)" by simp
    have "node.reaches h (set_task k (Fallback pkt) s)
        (set_task k (Answering pkt (answer_of h ToRelay wall pkt (sh_peers (sv s)))) s)"
    proof (cases "?others = []")
      case True
      from reaches_one [OF server_step.fallback [OF f refl, of h]] show ?thesis
        using False True named by (simp add: relay_cases candidates_def Let_def)
    next
      case others: False
      have "tasks (set_task k (Trying pkt ?others) s) k = Some (Trying pkt ?others)" by simp
      from trying_schedule [OF this, of h] have "node.reaches h (set_task k (Trying pkt ?others) s)
          (set_task k (Answering pkt (answer_of h ToRelay wall pkt (sh_peers (sv s)))) s)"
        using False named others by (simp add: relay_cases candidates_def Let_def)
      with node.reaches_step [OF server_step.fallback [OF f refl, of h]] others show ?thesis by simp
    qed
    with node.reaches_step [OF first] named show ?thesis by simp
  qed
qed

lemma answer_schedule:
  assumes "tasks s k = Some (Working pkt r)" and "r \<noteq> ToTunnel"
  shows "node.reaches h s (set_task k (Answering pkt (answer_of h r wall pkt (sh_peers (sv s)))) s)"
proof (cases "r = ToRelay")
  case True
  with relay_schedule [of s k pkt h wall] assms(1) show ?thesis by simp
next
  case False
  with reaches_one [OF server_step.answer [OF assms, of h wall]] show ?thesis by simp
qed

text \<open>A tunnel while nothing else runs: the shared limiter makes no difference.\<close>

lemma tunnel_events:
  assumes "conns s i = Some c" and "tasks s (i, j) = Some (Tunnelling pkt t)" and "t_limiter t = sh_limiter (sv s)"
    and "key = ws_peer_key (al_peer c) (target_provider pkt)" and "rate = ws_msg_rate_for (proxy h) (target_provider pkt)"
    and "t' = run_ops (tunnel_step key rate) es t"
  shows "node.reaches h s (set_task (i, j) (Tunnelling pkt t') (with_limiter (t_limiter t') s))"
  using assms(1-3,6)
proof (induction es arbitrary: s t)
  case Nil
  then have "set_task (i, j) (Tunnelling pkt t') (with_limiter (t_limiter t') s) = s"
    by (simp add: set_task_def with_limiter_def fun_upd_idem)
  then show ?case by (simp add: node.reaches_refl)
next
  case (Cons e es)
  have t': "tunnel_step key rate e t = tunnel_move h (al_peer c) pkt e (sh_limiter (sv s)) t"
    by (simp add: tunnel_move_def assms(4,5) flip: Cons.prems(3))
  define v where "v = set_task (i, j) (Tunnelling pkt (tunnel_step key rate e t))
    (with_limiter (t_limiter (tunnel_step key rate e t)) s)"
  have "conns v i = Some c" and "tasks v (i, j) = Some (Tunnelling pkt (tunnel_step key rate e t))"
    and "t_limiter (tunnel_step key rate e t) = sh_limiter (sv v)"
    using Cons.prems(1) by (simp_all add: v_def)
  from Cons.IH [OF this] Cons.prems(4)
  have "node.reaches h v (set_task (i, j) (Tunnelling pkt t') (with_limiter (t_limiter t') v))" by simp
  moreover have "set_task (i, j) (Tunnelling pkt t') (with_limiter (t_limiter t') v)
      = set_task (i, j) (Tunnelling pkt t') (with_limiter (t_limiter t') s)"
    by (simp add: v_def set_task_def with_limiter_def)
  ultimately show ?case
    using node.reaches_step [OF server_step.tunnel [OF Cons.prems(2,1) t', folded v_def]] by simp
qed

text \<open>From the parsed packet to the branch that it takes, with what \<open>handle_packet\<close> leaves.\<close>

lemma working_schedule:
  assumes "tasks s (i, j) = Some (Parsed pkt)" and "conns s i = Some c"
    and "handle_packet h clk (al_peer c) (al_v1 c) pkt (sv s) = (a, st')"
  obtains r where "a = answer_of h r (wall_now clk) pkt (sh_peers (sv s))" and "sh_peers st' = sh_peers (sv s)"
    and "node.reaches h s (set_task (i, j) (Working pkt r) (s\<lparr>sv := st'\<rparr>))"
proof -
  obtain l ok where l: "allow (sh_limiter (sv s)) (mono_now clk) (al_peer c) (rate_of h pkt) = (l, ok)" by fastforce
  define r where "r = route_of h (al_v1 c) pkt ok"
  have ok: "admitted a = ok" using admitted_iff [of h clk "al_peer c" "al_v1 c" pkt "sv s"] assms(3) l by simp
  then have a: "a = answer_of h r (wall_now clk) pkt (sh_peers (sv s))"
    using handle_packet_route [of h clk "al_peer c" "al_v1 c" pkt "sv s"] assms(3) by (simp add: r_def)
  have st': "st' = (sv s)\<lparr>sh_limiter := l, sh_stats := counter_step (route_counter r) (inc_total (sh_stats (sv s)))\<rparr>"
    using handle_packet_state [of h clk "al_peer c" "al_v1 c" pkt "sv s"] assms(3) l
      answer_counter [of h r "wall_now clk" pkt "sh_peers (sv s)"] by (simp add: a)
  define s1 where "s1 = set_task (i, j) (Counted pkt) (with_stats inc_total s)"
  define s2 where "s2 = set_task (i, j) (Clocked pkt (mono_now clk)) s1"
  define s3 where "s3 = set_task (i, j) (Decided pkt r) (with_limiter l s2)"
  define s4 where "s4 = set_task (i, j) (Working pkt r) (with_stats (counter_step (route_counter r)) s3)"
  have "server_step h s (Count IncTotal) s1" unfolding s1_def by (rule server_step.total [OF assms(1)])
  moreover have "server_step h s1 Silent s2" unfolding s2_def by (rule server_step.clock) (simp add: s1_def)
  moreover have "server_step h s2 (Decision (Request (\<lparr>mono_now = mono_now clk, wall_now = 0\<rparr>, al_peer c, al_v1 c, pkt)) ok) s3"
    unfolding s3_def r_def by (rule server_step.check) (use assms(2) l in \<open>simp_all add: s2_def s1_def\<close>)
  moreover have "server_step h s3 (Count (route_counter r)) s4"
    unfolding s4_def by (rule server_step.outcome) (simp add: s3_def)
  moreover have "s4 = set_task (i, j) (Working pkt r) (s\<lparr>sv := st'\<rparr>)"
    by (simp add: s4_def s3_def s2_def s1_def st' set_task_def with_stats_def with_limiter_def)
  ultimately have "node.reaches h s (set_task (i, j) (Working pkt r) (s\<lparr>sv := st'\<rparr>))"
    using node.reaches_step reaches_one by metis
  with that a st' show ?thesis by simp
qed

lemma handle_packet_schedule:
  assumes "tasks s (i, j) = Some (Parsed pkt)" and "conns s i = Some c"
    and "handle_packet h clk (al_peer c) (al_v1 c) pkt (sv s) = (a, st')"
  shows "a \<noteq> Tunnel \<Longrightarrow> node.reaches h s (set_task (i, j) (Answering pkt a) (s\<lparr>sv := st'\<rparr>))"
    and "a = Tunnel \<Longrightarrow> node.reaches h s (set_task (i, j) Ended (s\<lparr>sv := st'\<rparr>))"
    and "a = Tunnel \<Longrightarrow> t = tunnel_run (ws_peer_key (al_peer c) (target_provider pkt))
        (ws_msg_rate_for (proxy h) (target_provider pkt)) (sh_limiter st') es \<Longrightarrow>
      node.reaches h s (set_task (i, j) (Tunnelling pkt t) (s\<lparr>sv := st'\<lparr>sh_limiter := t_limiter t\<rparr>\<rparr>))"
proof -
  obtain r where a: "a = answer_of h r (wall_now clk) pkt (sh_peers (sv s))" "sh_peers st' = sh_peers (sv s)"
    and w: "node.reaches h s (set_task (i, j) (Working pkt r) (s\<lparr>sv := st'\<rparr>))"
    by (rule working_schedule [OF assms])
  let ?w = "set_task (i, j) (Working pkt r) (s\<lparr>sv := st'\<rparr>)"
  have t: "tasks ?w (i, j) = Some (Working pkt r)" by simp
  have tunnel: "a = Tunnel \<longleftrightarrow> r = ToTunnel" by (cases r) (simp_all add: a)
  show "node.reaches h s (set_task (i, j) (Answering pkt a) (s\<lparr>sv := st'\<rparr>))" if "a \<noteq> Tunnel"
    using node.reaches_trans [OF w answer_schedule [OF t, of h "wall_now clk"]] that by (simp add: a tunnel [symmetric])
  show "node.reaches h s (set_task (i, j) Ended (s\<lparr>sv := st'\<rparr>))" if "a = Tunnel"
    using node.reaches_trans [OF w reaches_one [OF server_step.refused [of ?w "(i, j)" pkt h]]] that tunnel by simp
  show "node.reaches h s (set_task (i, j) (Tunnelling pkt t) (s\<lparr>sv := st'\<lparr>sh_limiter := t_limiter t\<rparr>\<rparr>))"
    if "a = Tunnel" and "t = tunnel_run (ws_peer_key (al_peer c) (target_provider pkt))
        (ws_msg_rate_for (proxy h) (target_provider pkt)) (sh_limiter st') es"
  proof -
    let ?o = "set_task (i, j) (Tunnelling pkt (tunnel_start (sh_limiter st'))) ?w"
    have o: "node.reaches h ?w ?o"
      using reaches_one [OF server_step.opened [of ?w "(i, j)" pkt h]] that(1) tunnel by simp
    have run: "node.reaches h ?o (set_task (i, j) (Tunnelling pkt t) (with_limiter (t_limiter t) ?o))"
      using assms(2) that(2) by (intro tunnel_events) (simp_all add: tunnel_start_def tunnel_run_def)
    have eq: "set_task (i, j) (Tunnelling pkt t) (with_limiter (t_limiter t) ?o)
        = set_task (i, j) (Tunnelling pkt t) (s\<lparr>sv := st'\<lparr>sh_limiter := t_limiter t\<rparr>\<rparr>)"
      by (simp add: set_task_def with_limiter_def)
    show ?thesis using node.reaches_trans [OF node.reaches_trans [OF w o] run] unfolding eq .
  qed
qed

text \<open>An announcement, and a round of the health check, from end to end.\<close>

lemma count_schedule:
  assumes "stages s b = Counting"
  shows "node.reaches h s
    (set_stage b Resting (with_stats (set_active_peers (of_nat (length (peer_list (lib_store h) (sh_peers (sv s)))))) s))"
proof -
  let ?n = "length (peer_list (lib_store h) (sh_peers (sv s)))"
  have "stages (set_stage b (Showing ?n) s) b = Showing ?n" by simp
  from node.reaches_step [OF server_step.count [OF assms] reaches_one [OF server_step.display [OF this]]]
  show ?thesis by (simp add: set_stage_def with_stats_def)
qed

lemma on_announce_schedule:
  assumes "stages s Listener = Resting"
    and "on_announce (lib_crypto h) (lib_store h) content wall (sh_peers (sv s), sh_stats (sv s)) = (db, st)"
  shows "node.reaches h s (s\<lparr>sv := (sv s)\<lparr>sh_peers := db, sh_stats := st\<rparr>\<rparr>)"
proof -
  consider (ignored) "db = sh_peers (sv s)" "st = sh_stats (sv s)"
    | (stored) m where "from_json (lib_store h) content = Some m" "verify_manifest (lib_crypto h) m"
    using assms(2) by (auto simp: on_announce_def split: option.splits if_splits)
  then show ?thesis
  proof cases
    case ignored
    then show ?thesis by (simp add: node.reaches_refl)
  next
    case (stored m)
    note step = server_step.announced [OF assms(1) stored, of wall]
    have "stages (set_stage Listener Counting
        (with_peers (\<lambda>db. snd (upsert (lib_store h) (m\<lparr>mf_seen_at := now_secs wall\<rparr>) db)) s)) Listener = Counting"
      by simp
    from node.reaches_step [OF step count_schedule [OF this]] show ?thesis
      using assms by (simp add: on_announce_def stored Let_def set_stage_def with_peers_def with_stats_def)
        (auto simp: fun_upd_idem)
  qed
qed

lemma probe_schedule:
  assumes "stages s Checker = Probing rs ns"
  shows "node.reaches h s (set_stage Checker (Probing (rs @ map (health_status (proxy h) get) ns) []) s)"
  using assms
proof (induction ns arbitrary: s rs)
  case Nil
  then have "set_stage Checker (Probing rs []) s = s" by (simp add: set_stage_def fun_upd_idem)
  then show ?case by (simp add: node.reaches_refl)
next
  case (Cons n ns)
  let ?s = "set_stage Checker (Probing (rs @ [health_status (proxy h) get n]) ns) s"
  have "set_stage Checker p ?s = set_stage Checker p s" for p by (simp add: set_stage_def)
  with node.reaches_step [OF server_step.probe [OF Cons.prems, where get = get] Cons.IH [of ?s]] show ?case by simp
qed

lemma health_round_schedule:
  assumes "stages s Checker = Resting" and "is_names (proxy h) ns"
  shows "node.reaches h s (with_stats (health_round (proxy h) get ns (lib_store h) (sh_peers (sv s))) s)"
proof -
  define s1 where "s1 = set_stage Checker (Probing [] ns) s"
  define s2 where "s2 = set_stage Checker (Probing (map (health_status (proxy h) get) ns) []) s1"
  define s3 where "s3 = set_stage Checker Counting (with_stats (set_rpc (map (health_status (proxy h) get) ns)) s2)"
  have "server_step h s (Round ns) s1" unfolding s1_def by (rule server_step.round [OF assms])
  moreover have "node.reaches h s1 s2"
    using probe_schedule [of s1 "[]" ns h get] by (simp add: s2_def s1_def)
  moreover have "server_step h s2 Published s3" unfolding s3_def by (rule server_step.publish) (simp add: s2_def)
  moreover have "node.reaches h s3 (with_stats (health_round (proxy h) get ns (lib_store h) (sh_peers (sv s))) s)"
    using count_schedule [of s3 Checker h] assms(1)
    by (simp add: s3_def s2_def s1_def set_stage_def with_stats_def health_round_def fun_upd_idem)
  ultimately show ?thesis using node.reaches_step node.reaches_trans by metis
qed

end
