(* ===== verification/Server_Runs.thy ===== *)
theory Server_Runs
  imports Server_Trace
begin

text \<open>
  What a running node promises its clients and its operator, whatever its tasks do and in whatever order.
\<close>

section \<open>The requests of one peer\<close>

text \<open>A peer's identifier has no colon, so no tunnel shares its bucket.\<close>

definition requests_of :: "'db handler \<Rightarrow> string \<Rightarrow> (work \<times> bool) list \<Rightarrow> (nat \<times> u32 \<times> bool) list" where
  "requests_of h p ds = List.map_filter (\<lambda>(w, ok). case w of
       Request r \<Rightarrow> (case r of (c, peer, v1, pkt) \<Rightarrow> if peer = p then Some (mono_now c, rate_of h pkt, ok) else None)
     | Message peer target now \<Rightarrow> None) ds"

lemma message_key: "CHR '':'' \<notin> set p \<Longrightarrow> ws_peer_key peer target \<noteq> p"
  by (auto simp: ws_peer_key_def)

lemma requests_of_calls:
  assumes "CHR '':'' \<notin> set p"
  shows "calls_of p (map (\<lambda>d. work_call h (fst d)) ds) = map (\<lambda>(t, r, ok). (t, r)) (requests_of h p ds)"
    and "decisions_of p (map (\<lambda>d. work_call h (fst d)) ds) (map snd ds) = map (\<lambda>(t, r, ok). ok) (requests_of h p ds)"
proof (induction ds)
  case (Cons d ds)
  obtain w ok where d: "d = (w, ok)" by fastforce
  { case 1
    show ?case using Cons(1) message_key [OF assms]
      by (cases w) (auto simp: d requests_of_def List.map_filter_simps work_call_def limiter_call_def) }
  { case 2
    show ?case using Cons(2) message_key [OF assms]
      by (cases w) (auto simp: d requests_of_def List.map_filter_simps work_call_def limiter_call_def) }
qed (simp_all add: requests_of_def List.map_filter_simps)

text \<open>The decisions of a stretch of a run are those of the limiter in the state that it had before.\<close>

lemma stretch_decisions:
  assumes "runs h (server_start st) ls s" and "limiter_ok (sh_limiter st)" and "decisions ls = ds1 @ ds @ ds2"
  obtains l where "limiter_ok l" and "map snd ds = run_calls allow l (map (\<lambda>d. work_call h (fst d)) ds)"
proof -
  let ?cs = "map (\<lambda>d. work_call h (fst d))"
  have all: "map snd (decisions ls) = run_calls allow (sh_limiter st) (?cs (decisions ls))"
    using in_order_runs [OF assms(1)] by (simp add: in_order_def run_work_calls comp_def)
  obtain l where l: "limiter_ok l"
    "\<And>xs. run_calls allow (sh_limiter st) (?cs ds1 @ xs) = run_calls allow (sh_limiter st) (?cs ds1) @ run_calls allow l xs"
    using run_calls_stretch [OF assms(2)] by blast
  have "map snd (ds @ ds2) = run_calls allow l (?cs ds @ ?cs ds2)"
    using all by (simp add: assms(3) l(2) append_eq_append_conv)
  moreover obtain l' where "\<And>xs. run_calls allow l (?cs ds @ xs) = run_calls allow l (?cs ds) @ run_calls allow l' xs"
    using run_calls_stretch [OF l(1)] by blast
  ultimately have "map snd ds = run_calls allow l (?cs ds)" by (simp add: append_eq_append_conv)
  with l(1) that show ?thesis by blast
qed

lemma limited_requests:
  "limited (map (\<lambda>(t, r, ok). (t, r)) xs) = map (\<lambda>(t, r, ok). (t, r)) (filter (\<lambda>(t, r, ok). r \<noteq> 0) xs)"
  "map snd (filter (\<lambda>(c, d). snd c \<noteq> 0) (zip (map (\<lambda>(t, r, ok). (t, r)) xs) (map (\<lambda>(t, r, ok). ok) xs)))
    = map (\<lambda>(t, r, ok). ok) (filter (\<lambda>(t, r, ok). r \<noteq> 0) xs)"
  by (induction xs) (auto simp: limited_def)

section \<open>The table of peers\<close>

lemma table_verified:
  assumes "runs h (server_start st) ls s" and "store_ok (lib_store h) view" and "store_inv (lib_store h) view (sh_peers st)"
    and "\<And>n m. abs_store (lib_store h) view (sh_peers st) n = Some m \<Longrightarrow> verify_manifest (lib_crypto h) m"
  shows "list_all (verify_manifest (lib_crypto h)) (peer_list (lib_store h) (sh_peers (sv s)))
    \<and> distinct (map mf_node_id (peer_list (lib_store h) (sh_peers (sv s))))"
proof -
  obtain ms where ms: "list_all (verify_manifest (lib_crypto h)) ms"
    "sh_peers (sv s) = peers.put_all (lib_store h, view) ms (sh_peers st)"
    using peers_put_all [OF assms(1)] by blast
  show ?thesis unfolding ms(2) by (rule put_all_verified [OF assms(2-4) ms(1)])
qed

section \<open>Answers of the node's own\<close>

lemma answers_signed:
  assumes "runs h (server_start st) ls s" and "crypto_ok L" and "json_ok J" and "well_keyed L J h"
    and "\<And>raw pkt. pkt_read (lib_packet h) raw = Some pkt \<Longrightarrow> str_ok (target_provider pkt)"
    and "tasks s (i, j) = Some (Answering pkt a)" and "a = Reject resp \<or> a = Execute (Inr resp)"
  shows "\<exists>status t raw. client_read L J (pe_node_id (proxy h)) resp = Some (status, t, raw) \<and> own_answer h pkt status raw"
proof -
  obtain c where "conns s i = Some c" using task_conn [OF conns_ok_runs [OF assms(1)] assms(6)] .
  from phases_okD [OF phases_ok_runs [OF assms(1)] assms(6) this] assms(7)
  obtain k st' where a: "a = fst (handle_packet h k (al_peer c) (al_v1 c) pkt st')" and "readable h pkt" by auto
  then have "str_ok (target_provider pkt)" using assms(5) by (auto simp: readable_def)
  from own_answer_verifies [OF assms(2-4) this, of k "al_peer c" "al_v1 c" st' resp] assms(7) a show ?thesis by simp
qed

section \<open>Runs for the witnesses\<close>

text \<open>The first request of the first client, up to the branch of \<open>handle_stream\<close> that it takes.\<close>

definition first_labels :: "mesh_packet \<Rightarrow> route \<Rightarrow> label list" where
  "first_labels pkt r =
     [Count OpenConn, Silent, Silent, Silent, Count IncTotal, Silent,
      Decision (Request (\<lparr>mono_now = 7, wall_now = 0\<rparr>, ''p'', True, pkt)) True, Count (route_counter r)]"

lemma first_run:
  assumes "pkt_read (lib_packet h) raw = Some pkt" and "sh_limiter st = limiter_new"
  obtains s c where "runs h (server_start st) (first_labels pkt (route_of h True pkt True)) s"
    and "conns s 0 = Some c" and "al_peer c = ''p''" and "al_v1 c"
    and "tasks s (0, 0) = Some (Working pkt (route_of h True pkt True))" and "sh_peers (sv s) = sh_peers st"
proof -
  define r where "r = route_of h True pkt True"
  let ?l0 = "\<lparr>al_peer = ''p'', al_v1 = True, al_conn = conn_start\<rparr>"
  define s0 where "s0 = server_start st"
  define s1 where "s1 = with_stats track_connection (s0\<lparr>conns := (conns s0)(0 \<mapsto> ?l0)\<rparr>)"
  have r1: "runs h s0 [Count OpenConn] s1"
    unfolding s1_def by (rule runs_one [OF server_step.connect]) (simp add: s0_def)
  have c1: "conns s1 0 = Some ?l0" and l1: "sh_limiter (sv s1) = limiter_new"
    using assms(2) by (simp_all add: s1_def s0_def server_start_def)
  define s2 where "s2 = set_task (0, 0) Waiting (on_conn 0 (AcceptBi 0) ?l0 s1)"
  have r2: "server_step h s1 Silent s2"
    unfolding s2_def by (rule server_step.accept [OF c1]) (simp_all add: conn_start_def all_streams_def)
  define c2 where "c2 = ?l0\<lparr>al_conn := conn_start\<lparr>waiting := [0]\<rparr>\<rparr>"
  have c2: "conns s2 0 = Some c2" by (simp add: s2_def c2_def conn_start_def)
  define s3 where "s3 = set_task (0, 0) Started (on_conn 0 Acquire c2 s2)"
  have r3: "server_step h s2 Silent s3"
    unfolding s3_def
    by (rule server_step.acquire [OF c2]) (simp_all add: c2_def conn_start_def MAX_CONCURRENT_STREAMS_PER_CONN_def)
  obtain c where c: "conns s3 0 = Some c" "al_peer c = ''p''" "al_v1 c"
    by (simp add: s3_def c2_def)
  have l3: "sh_limiter (sv s3) = limiter_new" by (simp add: s3_def s2_def l1)
  define s4 where "s4 = set_task (0, 0) (Parsed pkt) s3"
  have r4: "server_step h s3 Silent s4"
    unfolding s4_def by (rule server_step.parse [OF _ assms(1)]) (simp add: s3_def)
  define s5 where "s5 = set_task (0, 0) (Counted pkt) (with_stats inc_total s4)"
  have r5: "server_step h s4 (Count IncTotal) s5"
    unfolding s5_def by (rule server_step.total) (simp add: s4_def)
  define s6 where "s6 = set_task (0, 0) (Clocked pkt 7) s5"
  have r6: "server_step h s5 Silent s6"
    unfolding s6_def by (rule server_step.clock) (simp add: s5_def)
  obtain l where l: "allow (sh_limiter (sv s6)) 7 (al_peer c) (rate_of h pkt) = (l, True)"
    using limiter_first [of 7 "al_peer c" "rate_of h pkt"] l3
    by (cases "allow limiter_new 7 (al_peer c) (rate_of h pkt)") (simp add: s6_def s5_def s4_def)
  have c6: "conns s6 0 = Some c" by (simp add: s6_def s5_def s4_def c(1))
  define s7 where "s7 = set_task (0, 0) (Decided pkt r) (with_limiter l s6)"
  have r7: "server_step h s6 (Decision (Request (\<lparr>mono_now = 7, wall_now = 0\<rparr>, ''p'', True, pkt)) True) s7"
    using server_step.check [OF _ c6 l, of 0] c(2,3) by (simp add: s6_def s7_def r_def)
  define s8 where "s8 = set_task (0, 0) (Working pkt r) (with_stats (counter_step (route_counter r)) s7)"
  have r8: "server_step h s7 (Count (route_counter r)) s8"
    unfolding s8_def by (rule server_step.outcome) (simp add: s7_def)
  have "runs h s0 (first_labels pkt r) s8"
    using runs.more [OF runs.more [OF runs.more [OF runs.more [OF runs.more [OF runs.more [OF runs.more
      [OF r1 r2] r3] r4] r5] r6] r7] r8]
    by (simp add: first_labels_def)
  moreover have "conns s8 0 = Some c" by (simp add: s8_def s7_def c6)
  moreover have "tasks s8 (0, 0) = Some (Working pkt r)" by (simp add: s8_def)
  moreover have "sh_peers (sv s8) = sh_peers st"
    by (simp add: s8_def s7_def s6_def s5_def s4_def s3_def s2_def s1_def s0_def server_start_def)
  ultimately show ?thesis using that [of s8 c] c(2,3) unfolding s0_def r_def by blast
qed

text \<open>A request that is executed, to its answer.\<close>

abbreviation "demo_pkt \<equiv> demo_packet ''/'' [] []"

abbreviation "demo_init \<equiv> server_start (demo_shared limiter_new)"

definition demo_labels :: "label list" where
  "demo_labels = first_labels demo_pkt ToExecute @ [Silent]"

lemma demo_route: "route_of demo_node True demo_pkt True = ToExecute"
proof -
  have "\<not> eq_ignore_ascii_case (req_method demo_pkt) ''WS''" by code_simp
  moreover have "serves (proxy demo_node) (target_provider demo_pkt)"
    by (simp add: serves_def demo_node_sel demo_packet_def)
  ultimately show ?thesis by (simp add: route_of_def)
qed

lemma demo_answer_of: "\<exists>resp. answer_of demo_node ToExecute wall demo_pkt db = Execute (Inr resp)"
proof -
  have "resolve (proxy demo_node) (target_provider demo_pkt) = Some (demo_endpoint ''x'' ''http://l'')"
    by (simp add: demo_node_sel demo_packet_def)
  then show ?thesis by (simp add: execute_served upstream_answer_def demo_node_sel)
qed

lemma demo_run:
  obtains s c resp where "runs demo_node demo_init demo_labels s"
    and "conns s 0 = Some c" and "al_peer c = ''p''" and "al_v1 c"
    and "tasks s (0, 0) = Some (Answering demo_pkt (Execute (Inr resp)))"
proof -
  have "pkt_read (lib_packet demo_node) [1] = Some demo_pkt" by (simp add: demo_node_def)
  then obtain s c where s: "runs demo_node demo_init (first_labels demo_pkt ToExecute) s"
    "conns s 0 = Some c" "al_peer c = ''p''" "al_v1 c" "tasks s (0, 0) = Some (Working demo_pkt ToExecute)"
    by (rule first_run [of demo_node "[1]" demo_pkt "demo_shared limiter_new"])
      (simp_all add: demo_shared_def demo_route)
  obtain resp where resp: "answer_of demo_node ToExecute 0 demo_pkt (sh_peers (sv s)) = Execute (Inr resp)"
    using demo_answer_of by blast
  have "runs demo_node demo_init demo_labels (set_task (0, 0) (Answering demo_pkt (Execute (Inr resp))) s)"
    using runs.more [OF s(1) server_step.answer [OF s(5), where wall = 0]] unfolding resp demo_labels_def
    by simp
  then show ?thesis using that [of "set_task (0, 0) (Answering demo_pkt (Execute (Inr resp))) s" c resp] s by simp
qed

text \<open>A tunnel that has passed on a message.\<close>

definition ws_pkt :: mesh_packet where
  "ws_pkt = demo_pkt\<lparr>req_method := ''ws''\<rparr>"

definition ws_node :: "(bytes \<times> bytes) list handler" where
  "ws_node = demo_node\<lparr>lib_packet := \<lparr>pkt_read = (\<lambda>b. if b = [2] then Some ws_pkt else None), pkt_print = (\<lambda>p. None)\<rparr>\<rparr>"

lemma ws_route: "route_of ws_node True ws_pkt True = ToTunnel"
proof -
  have "eq_ignore_ascii_case (req_method ws_pkt) ''WS''" by code_simp
  moreover have "serves (proxy ws_node) (target_provider ws_pkt)"
    by (simp add: serves_def ws_node_def ws_pkt_def demo_node_sel demo_packet_def)
  ultimately show ?thesis by (simp add: route_of_def)
qed

lemma ws_run:
  obtains ls s t where "runs ws_node demo_init ls s" and "tasks s (0, 0) = Some (Tunnelling ws_pkt t)"
    and "sent_up t = [MPing [1]]"
proof -
  have "pkt_read (lib_packet ws_node) [2] = Some ws_pkt" by (simp add: ws_node_def)
  then obtain s c where s: "runs ws_node demo_init (first_labels ws_pkt ToTunnel) s"
    "conns s 0 = Some c" "tasks s (0, 0) = Some (Working ws_pkt ToTunnel)"
    by (rule first_run [of ws_node "[2]" ws_pkt "demo_shared limiter_new"])
      (simp_all add: demo_shared_def ws_route)
  let ?t = "tunnel_start (sh_limiter (sv s))"
  let ?es = "[ClientRead (Inr (Some (Ping [1]))) 9, Push, Deliver True]"
  define key rate where "key = ws_peer_key (al_peer c) (target_provider ws_pkt)"
    and "rate = ws_msg_rate_for (proxy ws_node) (target_provider ws_pkt)"
  have "conns (set_task (0, 0) (Tunnelling ws_pkt ?t) s) 0 = Some c"
    and "tasks (set_task (0, 0) (Tunnelling ws_pkt ?t) s) (0, 0) = Some (Tunnelling ws_pkt ?t)"
    and "t_limiter ?t = sh_limiter (sv (set_task (0, 0) (Tunnelling ws_pkt ?t) s))"
    using s(2) by (simp_all add: tunnel_start_def)
  from tunnel_events [OF this key_def rate_def refl, where es = ?es]
  obtain ls u where u: "runs ws_node (set_task (0, 0) (Tunnelling ws_pkt ?t) s) ls u"
    "tasks u (0, 0) = Some (Tunnelling ws_pkt (run_ops (tunnel_step key rate) ?es ?t))"
    by (auto simp: node.reaches_def)
  moreover have "sent_up (run_ops (tunnel_step key rate) ?es ?t) = [MPing [1]]"
    by (simp add: tunnel_start_def take_frame_def queue_cap_def)
  ultimately show ?thesis
    using that runs_trans [OF u(1) runs.more [OF s(1) server_step.opened [OF s(3)]]] by blast
qed

text \<open>A node that serves ''x'' only and knows another one, and is asked for ''y''.\<close>

definition relay_pkt :: mesh_packet where
  "relay_pkt = demo_pkt\<lparr>target_provider := ''y''\<rparr>"

definition relay_node :: "(bytes \<times> bytes) list handler" where
  "relay_node = demo_node\<lparr>me := ''me'', lib_store := replay_store,
     lib_packet := \<lparr>pkt_read = (\<lambda>b. if b = [3] then Some relay_pkt else None), pkt_print = (\<lambda>p. Some [3])\<rparr>,
     lib_net := \<lparr>connect = (\<lambda>e. True), open_bi = (\<lambda>e. True), write_out = (\<lambda>e b. True),
                finish_out = (\<lambda>e. True), read_reply = (\<lambda>e b n. Some [9])\<rparr>\<rparr>"

definition relay_shared :: "(bytes \<times> bytes) list shared" where
  "relay_shared = (demo_shared limiter_new)\<lparr>sh_peers := snd (upsert replay_store (old_manifest 0) [])\<rparr>"

lemma relay_node_peers: "peer_list replay_store (sh_peers relay_shared) = [old_manifest 0]"
  by (simp add: relay_shared_def demo_shared_def upsert_def replay_store_def demo_store_def peer_list_def
      List.map_filter_simps)

lemma relay_node_route: "route_of relay_node True relay_pkt True = ToRelay"
proof -
  have "resolve (proxy demo_node) ''y'' = None"
    by (simp add: demo_node_def resolve_def lookup_engine_names demo_endpoint_def)
  then show ?thesis by (simp add: route_of_def serves_def relay_node_def relay_pkt_def)
qed

lemma relay_node_answer:
  assumes "sh_peers (sv s) = sh_peers relay_shared"
  shows "answer_of relay_node ToRelay wall relay_pkt (sh_peers (sv s)) = Relayed (Inr [9])"
proof -
  have id: "mf_node_id (old_manifest 0) = node_id_of demo_crypto (replicate 32 7)" "mf_endpoints (old_manifest 0) = [''x'']"
    by (simp_all add: old_manifest_def own_manifest_sel stats_new_def demo_endpoint_def)
  have ne: "node_id_of demo_crypto (replicate 32 7) \<noteq> ''me''" by code_simp
  have "candidates replay_store (sh_peers relay_shared) ''y'' ''me'' = [node_id_of demo_crypto (replicate 32 7)]"
    using ne by (simp add: candidates_def providers_of_def others_def relay_node_peers id)
  moreover have "fst (forward_io demo_crypto (lib_net relay_node) (lib_packet relay_node) (node_id_of demo_crypto (replicate 32 7))
      (next_hop relay_pkt)) = Inr [9]"
    using node_id_parse [OF demo_crypto_ok, of "replicate 32 7"] by (simp add: forward_io_def relay_node_def)
  moreover have "ttl relay_pkt \<noteq> 0" "target_provider relay_pkt = ''y''" "lib_crypto relay_node = demo_crypto"
    "lib_store relay_node = replay_store" "me relay_node = ''me''"
    by (simp_all add: relay_pkt_def demo_packet_def relay_node_def demo_node_sel)
  ultimately show ?thesis
    by (simp add: relay_cases assms try_candidates_Cons del: try_candidates.simps(2))
qed

section \<open>Properties\<close>

text \<open>C7: Concurrency does not matter to the limiter: whatever the tasks of all connections do in between,
  there is one order of the requests and tunnel messages, that of the lock, in which a node that did
  one after the other would have made the same decisions and left the same buckets.\<close>

theorem node_serializable:
  assumes "runs h (server_start st) ls s"
  shows "map snd (decisions ls) = fst (run_work h (map fst (decisions ls)) st)
    \<and> sh_limiter (sv s) = sh_limiter (snd (run_work h (map fst (decisions ls)) st))"
  using in_order_runs [OF assms] by (simp add: in_order_def)

lemma node_serializable_witness:
  "\<exists>s. runs demo_node demo_init demo_labels s
    \<and> map snd (decisions demo_labels)
      = fst (run_work demo_node (map fst (decisions demo_labels)) (demo_shared limiter_new))
    \<and> sh_limiter (sv s) = sh_limiter (snd (run_work demo_node (map fst (decisions demo_labels)) (demo_shared limiter_new)))"
proof (rule demo_run)
  fix s assume r: "runs demo_node demo_init demo_labels s"
  from r node_serializable [OF r] show ?thesis by blast
qed

text \<open>C16: The counters tell the truth at every moment: they differ from those of the sequential node just by
  the requests that are between two steps, which are counted and not yet checked, or checked and not yet
  counted under their outcome.\<close>

theorem node_counters:
  assumes "runs h (server_start st) ls s" and "snd (run_work h (map fst (decisions ls)) st) = st'"
  shows "requests_total (sh_stats (sv s)) = requests_total (sh_stats st') + of_nat (tally before_check (tasks s))
    \<and> requests_proxied (sh_stats (sv s)) + of_nat (tally (decided_as IncProxied) (tasks s)) = requests_proxied (sh_stats st')
    \<and> requests_relayed (sh_stats (sv s)) + of_nat (tally (decided_as IncRelayed) (tasks s)) = requests_relayed (sh_stats st')
    \<and> requests_rejected (sh_stats (sv s)) + of_nat (tally (decided_as IncRejected) (tasks s)) = requests_rejected (sh_stats st')"
proof -
  have "zip (map fst (decisions ls)) (fst (run_work h (map fst (decisions ls)) st)) = decisions ls"
    using in_order_runs [OF assms(1)] zip_map_fst_snd [of "decisions ls"] by (simp only: in_order_def)
  then have seq: "sh_stats st' = run_ops counter_step (sequential_ops h (decisions ls)) (sh_stats st)"
    using run_work_stats [of h "map fst (decisions ls)" st] assms(2) by simp
  note shown = shows_counted_runs [OF assms(1), unfolded shows_counted_def counters_of_def]
  note acc = accountedD [OF accounted_runs [OF assms(1)]]
  show ?thesis
    using shown acc(1) acc(2) [of IncProxied] acc(2) [of IncRelayed] acc(2) [of IncRejected]
    by (simp add: seq counter_values outcome_op_def flip: of_nat_add)
qed

lemma node_counters_witness:
  "\<exists>(s :: (bytes \<times> bytes) list server) (st' :: (bytes \<times> bytes) list shared). runs demo_node demo_init demo_labels s
    \<and> requests_total (sh_stats (sv s)) = requests_total (sh_stats st') + of_nat (tally before_check (tasks s))
    \<and> requests_proxied (sh_stats (sv s)) + of_nat (tally (decided_as IncProxied) (tasks s)) = requests_proxied (sh_stats st')
    \<and> requests_relayed (sh_stats (sv s)) + of_nat (tally (decided_as IncRelayed) (tasks s)) = requests_relayed (sh_stats st')
    \<and> requests_rejected (sh_stats (sv s)) + of_nat (tally (decided_as IncRejected) (tasks s)) = requests_rejected (sh_stats st')"
proof (rule demo_run)
  fix s assume r: "runs demo_node demo_init demo_labels s"
  show ?thesis
    by (rule exI [of _ s], rule exI [of _ "snd (run_work demo_node (map fst (decisions demo_labels)) (demo_shared limiter_new))"],
        rule conjI [OF r], rule node_counters [OF r refl])
qed

text \<open>C13: The load of a connection is bounded: at any moment at most 16 of its tasks have a permit and are not
  done; all its others are done or still wait for a permit, and of these there may be any number. And
  the gauge shows how many accept loops run.\<close>

theorem node_capacity:
  assumes "runs h (server_start st) ls s"
  shows "card {j. \<exists>p. tasks s (i, j) = Some p \<and> p \<noteq> Waiting \<and> \<not> phase_done p} \<le> 16
    \<and> active_connections (sh_stats (sv s)) = active_connections (sh_stats st) + of_nat (tally (\<lambda>c. accepting (al_conn c)) (conns s))"
proof
  note ok = conns_ok_runs [OF assms]
  show "card {j. \<exists>p. tasks s (i, j) = Some p \<and> p \<noteq> Waiting \<and> \<not> phase_done p} \<le> 16"
  proof (cases "conns s i")
    case None
    with conns_okD(5) [OF ok] show ?thesis by simp
  next
    case (Some c)
    note c = conns_okD(4) [OF ok Some]
    have "{j. \<exists>p. tasks s (i, j) = Some p \<and> p \<noteq> Waiting \<and> \<not> phase_done p} \<subseteq> set (handling (al_conn c))"
    proof (intro subsetI, elim CollectE exE conjE)
      fix j p assume "tasks s (i, j) = Some p" and "p \<noteq> Waiting" and "\<not> phase_done p"
      then have "j \<in> set (all_streams (al_conn c))" and "j \<notin> set (waiting (al_conn c))" and "j \<notin> set (handled (al_conn c))"
        using c unfolding loop_ok_def by (metis option.distinct(1), metis option.inject, blast)
      then show "j \<in> set (handling (al_conn c))" by (simp add: all_streams_def)
    qed
    from card_mono [OF _ this] card_length [of "handling (al_conn c)"] c show ?thesis
      by (simp add: loop_ok_def MAX_CONCURRENT_STREAMS_PER_CONN_def)
  qed
  show "active_connections (sh_stats (sv s)) = active_connections (sh_stats st) + of_nat (tally (\<lambda>c. accepting (al_conn c)) (conns s))"
    using shows_counted_runs [OF assms] accountedD(3) [OF accounted_runs [OF assms]]
    by (simp add: shows_counted_def counters_of_def counter_values)
qed

lemma node_capacity_witness:
  "\<exists>s. runs demo_node demo_init demo_labels s
    \<and> (\<exists>p. tasks s (0, 0) = Some p \<and> p \<noteq> Waiting \<and> \<not> phase_done p)
    \<and> card {j. \<exists>p. tasks s (0, j) = Some p \<and> p \<noteq> Waiting \<and> \<not> phase_done p} \<le> 16
    \<and> active_connections (sh_stats (sv s)) = active_connections (sh_stats (demo_shared limiter_new))
      + of_nat (tally (\<lambda>c. accepting (al_conn c)) (conns s))"
proof (rule demo_run)
  fix s resp assume r: "runs demo_node demo_init demo_labels s"
    and "tasks s (0, 0) = Some (Answering demo_pkt (Execute (Inr resp)))"
  then have "\<exists>p. tasks s (0, 0) = Some p \<and> p \<noteq> Waiting \<and> \<not> phase_done p" by simp
  with r node_capacity [OF r, of 0] show ?thesis by blast
qed

text \<open>C5: However requests overlap, none gets another's answer: whatever a task is about to write of the
  node's own, a client of its stream can check it against the node's identifier, and it is the refusal
  or what the service said to just this task's packet.\<close>

theorem node_answers_signed:
  assumes "runs h (server_start st) ls s" and "crypto_ok L" and "json_ok J" and "well_keyed L J h"
    and "\<And>raw pkt. pkt_read (lib_packet h) raw = Some pkt \<Longrightarrow> str_ok (target_provider pkt)"
    and "tasks s (i, j) = Some (Answering pkt a)" and "a = Reject resp \<or> a = Execute (Inr resp)"
  shows "\<exists>status t raw. client_read L J (pe_node_id (proxy h)) resp = Some (status, t, raw) \<and> own_answer h pkt status raw"
  using assms by (rule answers_signed)

lemma node_answers_signed_witness:
  "\<exists>s resp status t raw. runs demo_node demo_init demo_labels s
    \<and> tasks s (0, 0) = Some (Answering demo_pkt (Execute (Inr resp)))
    \<and> client_read demo_crypto demo_json (pe_node_id (proxy demo_node)) resp = Some (status, t, raw)
    \<and> own_answer demo_node demo_pkt status raw"
proof (rule demo_run)
  fix s resp assume r: "runs demo_node demo_init demo_labels s"
    and k: "tasks s (0, 0) = Some (Answering demo_pkt (Execute (Inr resp)))"
  have "str_ok (target_provider pkt)" if "pkt_read (lib_packet demo_node) raw = Some pkt" for raw pkt
    using that by (auto simp: demo_node_def demo_packet_def split: if_splits)
  then show ?thesis
    using node_answers_signed [OF r demo_crypto_ok demo_json_ok demo_node_keyed _ k, of resp] r k by blast
qed

text \<open>C15: Tunnels run only on connections of the new protocol and only to services of this node; while all
  tunnels share the limiter with each other and with the requests, each keeps the order of its messages,
  invents and repeats none, holds at most 128, and sends its service nothing that cannot be sent.\<close>

theorem node_tunnels:
  assumes "runs h (server_start st) ls s" and "tasks s (i, j) = Some (Tunnelling pkt t)"
  shows "(\<exists>c. conns s i = Some c \<and> al_v1 c) \<and> serves (proxy h) (target_provider pkt)
    \<and> prefix (sent_up t) (accepted t) \<and> length (queue t) \<le> 128 \<and> list_all sendable (accepted t)
    \<and> subseq (sent_client t) (List.map_filter (\<lambda>m. map_option fst (up_frame m)) (heard_up t))"
proof -
  obtain c where c: "conns s i = Some c" using task_conn [OF conns_ok_runs [OF assms(1)] assms(2)] .
  from phases_okD [OF phases_ok_runs [OF assms(1)] assms(2) c] c show ?thesis
    by (simp add: tunnel_ok_defs queue_cap_def)
qed

lemma node_tunnels_witness:
  "\<exists>ls s t. runs ws_node demo_init ls s \<and> tasks s (0, 0) = Some (Tunnelling ws_pkt t) \<and> sent_up t = [MPing [1]]
    \<and> prefix (sent_up t) (accepted t) \<and> length (queue t) \<le> 128 \<and> list_all sendable (accepted t)
    \<and> subseq (sent_client t) (List.map_filter (\<lambda>m. map_option fst (up_frame m)) (heard_up t))"
proof (rule ws_run)
  fix ls s t assume "runs ws_node demo_init ls s" and "tasks s (0, 0) = Some (Tunnelling ws_pkt t)" and "sent_up t = [MPing [1]]"
  with node_tunnels [of ws_node "demo_shared limiter_new" ls s 0 0 ws_pkt t] show ?thesis by blast
qed

text \<open>C10: The table of peers holds no forged entry at any moment of a run, whatever is announced in between
  and whatever inserts fail, and each node is listed once.\<close>

theorem node_peers_verified:
  assumes "runs h (server_start st) ls s" and "store_ok (lib_store h) view" and "store_inv (lib_store h) view (sh_peers st)"
    and "\<And>n m. abs_store (lib_store h) view (sh_peers st) n = Some m \<Longrightarrow> verify_manifest (lib_crypto h) m"
  shows "list_all (verify_manifest (lib_crypto h)) (peer_list (lib_store h) (sh_peers (sv s)))
    \<and> distinct (map mf_node_id (peer_list (lib_store h) (sh_peers (sv s))))"
  using assms by (rule table_verified)

lemma node_peers_verified_witness:
  "\<exists>s. runs demo_node demo_init demo_labels s
    \<and> list_all (verify_manifest (lib_crypto demo_node)) (peer_list (lib_store demo_node) (sh_peers (sv s)))"
proof (rule demo_run)
  fix s assume r: "runs demo_node demo_init demo_labels s"
  have "store_ok (lib_store demo_node) map_of" by (simp add: demo_node_def demo_store_ok)
  from node_peers_verified [OF r this] r show ?thesis
    by (auto simp: demo_shared_def store_inv_def abs_store_def)
qed

text \<open>C6: A peer gets no more than its share: in any stretch of any run, of its requests over all its
  connections that are subject to a limit, at most a full bucket and what the rate adds in that time are
  admitted, whatever all other tasks do. The clock is read before the lock is taken, so that a reading may
  be older than the one before it in the order of the lock; time that it goes back is added a second
  time, and no more. The messages of its tunnels do not count.\<close>

theorem node_admits_bounded:
  assumes "runs h (server_start st) ls s" and "limiter_ok (sh_limiter st)" and "CHR '':'' \<notin> set p"
    and "decisions ls = ds1 @ ds @ ds2" and "rs = filter (\<lambda>(t, r, ok). r \<noteq> 0) (requests_of h p ds)"
    and "\<And>t r ok. (t, r, ok) \<in> set rs \<Longrightarrow> t0 \<le> t \<and> t \<le> t1 \<and> unat r \<le> R"
  shows "of_nat (length (filter (\<lambda>(t, r, ok). ok) rs))
    \<le> of_nat R + of_nat (t1 - t0 + setbacks (map fst rs)) / 10 ^ 9 * of_nat R
      + of_nat (length rs) * (of_nat R / 2 ^ 50 :: rat)"
proof -
  let ?cs = "map (\<lambda>d. work_call h (fst d)) ds"
  obtain l where l: "limiter_ok l" "map snd ds = run_calls allow l ?cs"
    by (rule stretch_decisions [OF assms(1,2,4)])
  note calls = requests_of_calls [OF assms(3), of h ds]
  have lim: "limited (calls_of p ?cs) = map (\<lambda>(t, r, ok). (t, r)) rs"
    by (simp only: calls(1) limited_requests(1) assms(5))
  have "t0 \<le> t \<and> t \<le> t1 \<and> unat r \<le> R" if "(t, r) \<in> set (limited (calls_of p ?cs))" for t r
    using that assms(6) by (fastforce simp: lim)
  note bound = limited_bound [OF l(1), of p ?cs, OF this]
  have ds: "decisions_of p ?cs (run_calls allow l ?cs) = map (\<lambda>(t, r, ok). ok) (requests_of h p ds)"
    by (simp only: calls(2) l(2) [symmetric])
  have "map snd (filter (\<lambda>(c, d). snd c \<noteq> 0) (zip (calls_of p ?cs) (decisions_of p ?cs (run_calls allow l ?cs))))
      = map (\<lambda>(t, r, ok). ok) rs"
    unfolding ds unfolding calls(1) limited_requests(2) assms(5) ..
  moreover have "map fst (map (\<lambda>(t, r, ok). (t, r)) rs) = map fst rs"
    by (simp add: case_prod_beta)
  ultimately have "of_nat (used (map (\<lambda>(t, r, ok). ok) rs))
    \<le> of_nat R + of_nat (t1 - t0 + setbacks (map fst rs)) / 10 ^ 9 * of_nat R
      + of_nat (length rs) * (of_nat R / 2 ^ 50 :: rat)"
    using bound by (simp only: lim length_map)
  moreover have "length (filter (\<lambda>(t, r, ok). ok) rs) = used (map (\<lambda>(t, r, ok). ok) rs)"
    by (simp add: used_def filter_map comp_def case_prod_beta')
  ultimately show ?thesis by simp
qed

lemma node_admits_bounded_witness:
  "\<exists>s rs. runs demo_node demo_init demo_labels s \<and> rs = [(7, 5, True)]
    \<and> of_nat (length (filter (\<lambda>(t, r, ok). ok) rs))
      \<le> of_nat 5 + of_nat (7 - 7 + setbacks (map fst rs)) / 10 ^ 9 * of_nat 5 + of_nat (length rs) * (of_nat 5 / 2 ^ 50 :: rat)"
proof (rule demo_run)
  fix s assume r: "runs demo_node demo_init demo_labels s"
  have "rate_of demo_node demo_pkt = 5" by (rule demo_rate) (simp add: demo_packet_def)
  then have rs: "[(7, 5, True)] = filter (\<lambda>(t, r, ok). r \<noteq> 0) (requests_of demo_node ''p'' (decisions demo_labels))"
    by (simp add: requests_of_def demo_labels_def first_labels_def decisions_def List.map_filter_simps)
  have d: "decisions demo_labels = [] @ decisions demo_labels @ []" by simp
  have "limiter_ok (sh_limiter (demo_shared limiter_new))" by (simp add: demo_shared_def limiter_ok_def limiter_new_def)
  from node_admits_bounded [OF r this _ d rs, of 7 7 5] r show ?thesis by auto
qed

text \<open>C14: The node never deadlocks: in every state that a run reaches, and whatever state its other tasks are in,
  a connection can go on alone, no other connection, task or background task moving, until every stream that
  it has accepted is handled, each once; and if its clients send requests, each task that has not
  answered yet ends with an answer to its packet, or its relay's error: nothing but a tunnel, whose end is up
  to its two sides, is cut short.\<close>

theorem node_no_deadlock:
  assumes "runs h (server_start st) ls s" and "conns s i = Some c"
    and "pkt_read (lib_packet h) raw = Some pkt" and "\<not> wants_tunnel h pkt"
  shows "\<exists>ls' t c'. runs h (server_start st) (ls @ ls') t \<and> solo_runs h i s ls' t \<and> conns t i = Some c'
    \<and> waiting (al_conn c') = [] \<and> handling (al_conn c') = []
    \<and> mset (handled (al_conn c')) = mset (all_streams (al_conn c))
    \<and> (\<forall>j p q. tasks s (i, j) = Some p \<longrightarrow> owed h pkt p = Some q \<longrightarrow> (\<exists>a. Handled (i, j) q a \<in> set ls'))"
proof -
  obtain ls' t c' where t: "solo_runs h i s ls' t" "conns t i = Some c'" "waiting (al_conn c') = []" "handling (al_conn c') = []"
    "mset (handled (al_conn c')) = mset (all_streams (al_conn c))"
    "\<forall>j p q. tasks s (i, j) = Some p \<longrightarrow> owed h pkt p = Some q \<longrightarrow> (\<exists>a. Handled (i, j) q a \<in> set ls')"
    using drain [OF conns_ok_runs [OF assms(1)] assms(2-4)] unfolding can_drain_def by blast
  with runs_trans [OF solo_runs_runs [OF t(1)] assms(1)] show ?thesis by blast
qed

lemma node_no_deadlock_witness:
  "\<exists>(s :: (bytes \<times> bytes) list server) c ls' t c' a. conns s 0 = Some c \<and> runs demo_node demo_init (demo_labels @ ls') t
    \<and> solo_runs demo_node 0 s ls' t \<and> conns t 0 = Some c' \<and> waiting (al_conn c') = [] \<and> handling (al_conn c') = []
    \<and> mset (handled (al_conn c')) = mset (all_streams (al_conn c)) \<and> Handled (0, 0) demo_pkt a \<in> set ls'"
proof (rule demo_run)
  fix s c resp assume r: "runs demo_node demo_init demo_labels s" and c: "conns s 0 = Some c"
    and k: "tasks s (0, 0) = Some (Answering demo_pkt (Execute (Inr resp)))"
  have p: "pkt_read (lib_packet demo_node) [1] = Some demo_pkt" by (simp add: demo_node_def)
  have "\<not> eq_ignore_ascii_case (req_method demo_pkt) ''WS''" by code_simp
  then have "\<not> wants_tunnel demo_node demo_pkt" by (simp add: wants_tunnel_def)
  from node_no_deadlock [OF r c p this] obtain ls' t c' where t: "runs demo_node demo_init (demo_labels @ ls') t"
    "solo_runs demo_node 0 s ls' t" "conns t 0 = Some c'" "waiting (al_conn c') = []" "handling (al_conn c') = []"
    "mset (handled (al_conn c')) = mset (all_streams (al_conn c))"
    "\<forall>j p q. tasks s (0, j) = Some p \<longrightarrow> owed demo_node demo_pkt p = Some q \<longrightarrow> (\<exists>a. Handled (0, j) q a \<in> set ls')"
    by blast
  then obtain a where "Handled (0, 0) demo_pkt a \<in> set ls'" using k by fastforce
  with c t show ?thesis by blast
qed

text \<open>C11: A request is relayed only to nodes whose signed announcement this node has: whatever relayed answer
  a task is about to write, the network gave just these bytes to this task, when it had written the packet
  with one hop less to another node; this node had been in the table with a valid manifest at an earlier
  moment of the run; and no service of this node had the name.\<close>

theorem node_relays_announced:
  assumes "runs h (server_start st) ls s" and "store_ok (lib_store h) view" and "store_inv (lib_store h) view (sh_peers st)"
    and "\<And>n m. abs_store (lib_store h) view (sh_peers st) n = Some m \<Longrightarrow> verify_manifest (lib_crypto h) m"
    and "tasks s (i, j) = Some (Answering pkt (Relayed (Inr resp)))"
  shows "\<exists>ls1 u ls2 m eid json. ls = ls1 @ ls2 \<and> runs h (server_start st) ls1 u \<and> runs h u ls2 s
    \<and> m \<in> set (peer_list (lib_store h) (sh_peers (sv u))) \<and> verify_manifest (lib_crypto h) m \<and> mf_node_id m \<noteq> me h
    \<and> eid_parse (lib_crypto h) (mf_node_id m) = Some eid
    \<and> ttl pkt \<noteq> 0 \<and> pkt_print (lib_packet h) (pkt\<lparr>ttl := ttl pkt - 1\<rparr>) = Some json
    \<and> Replied (i, j) eid json resp \<in> set ls2 \<and> \<not> serves (proxy h) (target_provider pkt)"
proof -
  obtain c where "conns s i = Some c" using task_conn [OF conns_ok_runs [OF assms(1)] assms(5)] .
  from phases_okD [OF phases_ok_runs [OF assms(1)] assms(5) this]
  have "\<not> serves (proxy h) (target_provider pkt)" by simp
  moreover have "ttl pkt \<noteq> 0" and "was_replied h (server_start st) ls s (i, j) pkt resp"
    using relays_okD [OF relays_ok_runs [OF assms(1)] assms(5)] by simp_all
  moreover from this(2) obtain n eid json ls1 u ls2 where u: "eid_parse (lib_crypto h) n = Some eid"
    "pkt_print (lib_packet h) (next_hop pkt) = Some json" "ls = ls1 @ ls2" "runs h (server_start st) ls1 u"
    "listed h n u" "Replied (i, j) eid json resp \<in> set ls2" "runs h u ls2 s"
    unfolding was_replied_def node.once_def by blast
  moreover obtain m where "m \<in> set (peer_list (lib_store h) (sh_peers (sv u)))" "mf_node_id m = n" "n \<noteq> me h"
    using u(5) by (auto simp: listed_def)
  moreover from this(1) have "verify_manifest (lib_crypto h) m"
    using table_verified [OF u(4) assms(2-4)] by (auto simp: list_all_iff)
  ultimately show ?thesis unfolding next_hop_def by blast
qed

lemma node_relays_announced_witness:
  "\<exists>ls1 ls2 u s m eid. runs relay_node (server_start relay_shared) ls1 u \<and> runs relay_node u ls2 s
    \<and> tasks s (0, 0) = Some (Answering relay_pkt (Relayed (Inr [9])))
    \<and> m \<in> set (peer_list (lib_store relay_node) (sh_peers (sv u))) \<and> verify_manifest (lib_crypto relay_node) m
    \<and> eid_parse (lib_crypto relay_node) (mf_node_id m) = Some eid \<and> Replied (0, 0) eid [3] [9] \<in> set ls2"
proof -
  have "pkt_read (lib_packet relay_node) [3] = Some relay_pkt" by (simp add: relay_node_def)
  then obtain s where s: "runs relay_node (server_start relay_shared) (first_labels relay_pkt ToRelay) s"
    "tasks s (0, 0) = Some (Working relay_pkt ToRelay)" "sh_peers (sv s) = sh_peers relay_shared"
    by (rule first_run [of relay_node "[3]" relay_pkt relay_shared])
      (simp_all add: relay_shared_def demo_shared_def relay_node_route)
  define t where "t = set_task (0, 0) (Answering relay_pkt (Relayed (Inr [9]))) s"
  have "node.reaches relay_node s t"
    using relay_schedule [OF s(2), of relay_node 0] relay_node_answer [OF s(3)] by (simp add: t_def)
  then obtain ls where run: "runs relay_node (server_start relay_shared) ls t"
    using runs_trans [OF _ s(1)] by (auto simp: node.reaches_def)
  have store: "store_ok (lib_store relay_node) map_of" by (simp add: relay_node_def replay_store_ok)
  have up: "upsert replay_store (old_manifest 0) [] = (Inr (), sh_peers relay_shared)"
    by (simp add: relay_shared_def upsert_def replay_store_def demo_store_def)
  have inv: "store_inv (lib_store relay_node) map_of (sh_peers relay_shared)"
    using upsert_inv [OF replay_store_ok, of "[]" "old_manifest 0"] by (simp add: up store_inv_def relay_node_def)
  have "verify_manifest (lib_crypto relay_node) m"
    if "abs_store (lib_store relay_node) map_of (sh_peers relay_shared) n = Some m" for n m
  proof -
    have "abs_store replay_store map_of (sh_peers relay_shared)
        = (abs_store replay_store map_of [])(mf_node_id (old_manifest 0) \<mapsto> old_manifest 0)"
      using upsert_abs [OF replay_store_ok up] by simp
    with that have "m = old_manifest 0"
      by (simp add: relay_node_def abs_store_def [of replay_store map_of "[]"] split: if_split_asm)
    then show ?thesis using old_manifest_verifies by (simp add: relay_node_def demo_node_sel)
  qed
  note known = this
  have t: "tasks t (0, 0) = Some (Answering relay_pkt (Relayed (Inr [9])))" by (simp add: t_def)
  obtain ls1 u ls2 m eid json where w: "runs relay_node (server_start relay_shared) ls1 u" "runs relay_node u ls2 t"
    "m \<in> set (peer_list (lib_store relay_node) (sh_peers (sv u)))" "verify_manifest (lib_crypto relay_node) m"
    "eid_parse (lib_crypto relay_node) (mf_node_id m) = Some eid" "Replied (0, 0) eid json [9] \<in> set ls2"
    "pkt_print (lib_packet relay_node) (relay_pkt\<lparr>ttl := ttl relay_pkt - 1\<rparr>) = Some json"
    using node_relays_announced [OF run store inv _ t] known by blast
  from w(7) have "json = [3]" by (simp add: relay_node_def)
  with w t show ?thesis by blast
qed



text \<open>C8: The running node can do all that the sequential handler does: from every state, a task that has
  parsed its packet can go on, alone, to just the answer of \<open>handle_packet\<close> and leave just the limiter,
  counters and table that it leaves; and when that opens a tunnel, to the tunnel after any sequence
  of its events, as \<open>handle_ws_stream\<close> has it, with the limiter that this leaves, or to its end when the tunnel
  cannot be opened. So no branch of the handler is lost in its steps.\<close>

theorem node_can_handle:
  assumes "tasks s (i, j) = Some (Parsed pkt)" and "conns s i = Some c"
    and "handle_packet h clk (al_peer c) (al_v1 c) pkt (sv s) = (a, st')"
    and "t = tunnel_run (ws_peer_key (al_peer c) (target_provider pkt))
      (ws_msg_rate_for (proxy h) (target_provider pkt)) (sh_limiter st') es"
  shows "if a = Tunnel
    then (\<exists>ls. runs h s ls (set_task (i, j) (Tunnelling pkt t) (s\<lparr>sv := st'\<lparr>sh_limiter := t_limiter t\<rparr>\<rparr>)))
      \<and> (\<exists>ls. runs h s ls (set_task (i, j) Ended (s\<lparr>sv := st'\<rparr>)))
    else \<exists>ls. runs h s ls (set_task (i, j) (Answering pkt a) (s\<lparr>sv := st'\<rparr>))"
  using handle_packet_schedule [OF assms(1-3)] assms(4) by (simp add: node.reaches_def)

lemma node_can_handle_witness:
  "\<exists>s a st' ls. tasks s (0, 0) = Some (Parsed demo_pkt)
    \<and> handle_packet demo_node \<lparr>mono_now = 0, wall_now = 0\<rparr> ''p'' True demo_pkt (demo_shared limiter_new) = (a, st')
    \<and> runs demo_node s ls (set_task (0, 0) (Answering demo_pkt a) (s\<lparr>sv := st'\<rparr>))"
proof -
  define c where "c = \<lparr>al_peer = ''p'', al_v1 = True, al_conn = conn_start\<rparr>"
  define s where "s = demo_init\<lparr>conns := [0 \<mapsto> c], tasks := [(0, 0) \<mapsto> Parsed demo_pkt]\<rparr>"
  obtain a st' where hp: "handle_packet demo_node \<lparr>mono_now = 0, wall_now = 0\<rparr> ''p'' True demo_pkt (demo_shared limiter_new) = (a, st')"
    by fastforce
  have "\<not> eq_ignore_ascii_case (req_method demo_pkt) ''WS''" by code_simp
  then have "a \<noteq> Tunnel"
    using handle_packet_action [of demo_node "\<lparr>mono_now = 0, wall_now = 0\<rparr>" "''p''" True demo_pkt "demo_shared limiter_new"] hp
    by (simp split: if_split_asm)
  moreover have "tasks s (0, 0) = Some (Parsed demo_pkt)" "conns s 0 = Some c" by (simp_all add: s_def)
  moreover have "handle_packet demo_node \<lparr>mono_now = 0, wall_now = 0\<rparr> (al_peer c) (al_v1 c) demo_pkt (sv s) = (a, st')"
    using hp by (simp add: s_def c_def server_start_def)
  ultimately show ?thesis using node_can_handle [of s 0 0 demo_pkt c demo_node "\<lparr>mono_now = 0, wall_now = 0\<rparr>" a st' _ "[]", OF _ _ _ refl] hp by auto
qed

text \<open>The bucket of a tunnel's messages has the name the client asked for, so that the default service has
  two: a client that opens tunnels with its name and without one has twice the configured rate.\<close>

theorem default_has_two_buckets:
  assumes "default_name E = Some d" and "d \<noteq> []" and "limiter_ok l" and "l (ws_peer_key peer d) = None"
  shows "resolve E [] = resolve E d \<and> ws_msg_rate_for E [] = ws_msg_rate_for E d
    \<and> snd (allow (fst (allow l t (ws_peer_key peer []) rate)) now (ws_peer_key peer d) rate)"
proof -
  have "resolve E [] = resolve E d" using assms(1,2) by (simp add: resolve_def)
  moreover have "fst (allow l t (ws_peer_key peer []) rate) (ws_peer_key peer d) = None"
    using assms(2,4) by (simp add: allow_def Let_def ws_peer_key_def split: prod.split option.split)
  then have "snd (allow (fst (allow l t (ws_peer_key peer []) rate)) now (ws_peer_key peer d) rate)"
    using limiter_ok_allow [OF assms(3)] by (intro limiter_idle_allowed) simp_all
  ultimately show ?thesis by (simp add: ws_msg_rate_for_def)
qed

text \<open>A client that asks a node for a tunnel to a service of another node gets none: the packet is relayed
  over the old protocol, where the other node takes its method for one of HTTP and executes it.\<close>

theorem relayed_tunnel_executed:
  assumes "\<not> serves (proxy h) (target_provider pkt)" and "serves (proxy h') (target_provider pkt)"
  shows "route_of h True pkt True = ToRelay \<and> route_of h' False (next_hop pkt) True = ToExecute"
  using assms by (simp add: route_of_def next_hop_sel)

end
