(* ===== verification/Startup.thy ===== *)
theory Startup
  imports Config "HOL-Library.List_Lexorder" "HOL-Library.Char_ord"
begin

text \<open>
  The start of \<open>run\<close> in \<open>src/src/p2p_server.rs\<close>: which relays are used, whether and where UDP sockets
  are bound, and which DHT nodes are asked, with the cache of such nodes in a file. URL parsing, the
  sockets and the name resolution are parameters.
\<close>

section \<open>The cache of DHT nodes\<close>

definition DHT_BOOT_MAX :: nat where
  "DHT_BOOT_MAX = 64"

definition load_dht_bootstrap :: "string option \<Rightarrow> string list" where
  "load_dht_bootstrap content =
     (case content of
        None \<Rightarrow> []
      | Some s \<Rightarrow> take DHT_BOOT_MAX (filter (\<lambda>l. l \<noteq> []) (map trim (lines s))))"

text \<open>What is written to the file; a failure is ignored.\<close>

definition save_dht_bootstrap :: "string list \<Rightarrow> string" where
  "save_dht_bootstrap nodes = join [CHR 0x0A] (take DHT_BOOT_MAX nodes)"

section \<open>The DHT nodes to ask\<close>

definition SMARTNET_DHT :: string where
  "SMARTNET_DHT = ''116.202.32.250:6881''"

definition DEFAULTS :: "string list" where
  "DEFAULTS =
     [SMARTNET_DHT, ''router.bittorrent.com:6881'', ''dht.transmissionbt.com:6881'',
      ''dht.libtorrent.org:25401'', ''relay.pkarr.org:6881'']"

definition bootstrap_hosts :: "config \<Rightarrow> string option \<Rightarrow> string list" where
  "bootstrap_hosts cfg cache =
     remdups_adj (sort (DEFAULTS @ dht_bootstrap (network cfg) @ load_dht_bootstrap cache))"

text \<open>\<open>is_addr\<close> is whether a host is a socket address; \<open>lookup\<close> the addresses of a name with whether
  each is IPv4, \<open>None\<close> for an error or after 1.5 seconds.\<close>

definition resolve_host :: "(string \<Rightarrow> bool) \<Rightarrow> (string \<Rightarrow> (bool \<times> string) list option) \<Rightarrow> string \<Rightarrow> string list" where
  "resolve_host is_addr lookup h =
     (if is_addr h then [h]
      else (case lookup h of None \<Rightarrow> [] | Some addrs \<Rightarrow> map snd (filter fst addrs)))"

definition resolve_dht_bootstrap ::
  "(string \<Rightarrow> bool) \<Rightarrow> (string \<Rightarrow> (bool \<times> string) list option) \<Rightarrow> config \<Rightarrow> string option \<Rightarrow> string list" where
  "resolve_dht_bootstrap is_addr lookup cfg cache =
     remdups_adj (sort (concat (map (resolve_host is_addr lookup) (bootstrap_hosts cfg cache))))"

section \<open>The transport\<close>

text \<open>\<open>relay_url\<close> parses a relay's URL.\<close>

definition parse_relays :: "(string \<Rightarrow> 'u option) \<Rightarrow> config \<Rightarrow> 'u list" where
  "parse_relays relay_url cfg =
     List.map_filter (\<lambda>s. let s = trim s in if s = [] then None else relay_url s) (relays (network cfg))"

definition quic_port_of :: "(string \<Rightarrow> 'u option) \<Rightarrow> string option \<Rightarrow> config \<Rightarrow> u16" where
  "quic_port_of relay_url env cfg =
     (if parse_relays relay_url cfg \<noteq> [] then 0
      else (case env of Some s \<Rightarrow> parse_port_str s | None \<Rightarrow> resolve_port (listen_port (network cfg))))"

text \<open>What the endpoint is built with: no direct sockets but relays, or sockets on a port, or the
  default sockets on random ports.\<close>

datatype 'u transport = RelayOnly "'u list" | Fixed u16 bool | RandomPorts

datatype start_error = BindV4 u16

text \<open>\<open>bind_v4\<close> and \<open>bind_v6\<close> are whether \<open>bind_addr\<close> accepts the address; after a failure for IPv6 the
  builder is made again with IPv4 alone.\<close>

definition transport_of ::
  "(string \<Rightarrow> 'u option) \<Rightarrow> string option \<Rightarrow> (u16 \<Rightarrow> bool) \<Rightarrow> (u16 \<Rightarrow> bool) \<Rightarrow> config
     \<Rightarrow> start_error + 'u transport" where
  "transport_of relay_url env bind_v4 bind_v6 cfg =
     (let rs = parse_relays relay_url cfg; port = quic_port_of relay_url env cfg in
      if rs \<noteq> [] then Inr (RelayOnly rs)
      else if port \<noteq> 0 then
        (if \<not> bind_v4 port then Inl (BindV4 port)
         else if ipv6_enabled (network cfg) then
           (if bind_v6 port then Inr (Fixed port True)
            else if bind_v4 port then Inr (Fixed port False) else Inl (BindV4 port))
         else Inr (Fixed port False))
      else Inr RandomPorts)"

section \<open>Lines\<close>

lemma distinct_sorted_remdups: "sorted (xs :: 'a::linorder list) \<Longrightarrow> distinct (remdups_adj xs)"
proof (induction xs rule: remdups_adj.induct)
  case (3 x y xs)
  then show ?case
  proof (cases "x = y")
    case False
    then have "x < y" using 3(3) by (simp add: order_less_le)
    then have "x \<notin> set (y # xs)" using 3(3) by auto
    with 3 False show ?thesis by simp
  qed simp
qed simp_all

lemma lines_line:
  assumes "CHR 0x0A \<notin> set l" and "l \<noteq> []"
  shows "lines l = [l]"
proof -
  have "takeWhile (\<lambda>d. d \<noteq> CHR 0x0A) l = l" and "dropWhile (\<lambda>d. d \<noteq> CHR 0x0A) l = []"
    using assms(1) by (auto simp: takeWhile_eq_all_conv dropWhile_eq_Nil_conv)
  with assms(2) show ?thesis by (simp add: lines.simps [of l])
qed

lemma lines_Cons:
  assumes "CHR 0x0A \<notin> set l"
  shows "lines (l @ CHR 0x0A # r) = strip_cr l # lines r"
proof -
  have "\<And>x. x \<in> set l \<Longrightarrow> x \<noteq> CHR 0x0A" using assms by blast
  then have "takeWhile (\<lambda>d. d \<noteq> CHR 0x0A) (l @ CHR 0x0A # r) = l"
    and "dropWhile (\<lambda>d. d \<noteq> CHR 0x0A) (l @ CHR 0x0A # r) = CHR 0x0A # r"
    by (simp_all add: takeWhile_append2 dropWhile_append2)
  then show ?thesis by (simp add: lines.simps [of "l @ CHR 0x0A # r"])
qed

lemma printable_line:
  assumes "list_all printable l"
  shows "CHR 0x0A \<notin> set l" and "strip_cr l = l"
proof -
  show "CHR 0x0A \<notin> set l" using assms by (auto simp: list_all_iff printable_def)
  have "last l \<noteq> CHR 0x0D" if "l \<noteq> []"
  proof -
    have "printable (last l)" using assms last_in_set [OF that] by (simp only: list_all_iff)
    then show ?thesis by (auto simp: printable_def)
  qed
  then show "strip_cr l = l" by (auto simp: strip_cr_def)
qed

lemma lines_join:
  "list_all (\<lambda>l. l \<noteq> [] \<and> list_all printable l) ls \<Longrightarrow> lines (join [CHR 0x0A] ls) = ls"
proof (induction ls)
  case Nil
  then show ?case by (simp add: lines.simps [of "[]"])
next
  case (Cons l ls)
  then show ?case
    by (cases ls) (simp_all add: lines_line lines_Cons printable_line)
qed

section \<open>The cache and the addresses\<close>

lemma load_saved:
  assumes "list_all (\<lambda>l. l \<noteq> [] \<and> list_all printable l) nodes"
  shows "load_dht_bootstrap (Some (save_dht_bootstrap nodes)) = take DHT_BOOT_MAX nodes"
proof -
  have t: "list_all (\<lambda>l. l \<noteq> [] \<and> list_all printable l) (take DHT_BOOT_MAX nodes)"
    using assms by (auto simp: list_all_iff dest: in_set_takeD)
  then have "map trim (take DHT_BOOT_MAX nodes) = take DHT_BOOT_MAX nodes"
    and "filter (\<lambda>l. l \<noteq> []) (take DHT_BOOT_MAX nodes) = take DHT_BOOT_MAX nodes"
    by (auto simp: list_all_iff intro: map_idI)
  with lines_join [OF t] show ?thesis by (simp add: load_dht_bootstrap_def save_dht_bootstrap_def)
qed

lemma resolved_addresses:
  "set (resolve_dht_bootstrap is_addr lookup cfg cache)
     = (\<Union>h \<in> set DEFAULTS \<union> set (dht_bootstrap (network cfg)) \<union> set (load_dht_bootstrap cache).
          set (resolve_host is_addr lookup h))
    \<and> sorted (resolve_dht_bootstrap is_addr lookup cfg cache)
    \<and> distinct (resolve_dht_bootstrap is_addr lookup cfg cache)"
proof -
  have sorted_remdups: "sorted (remdups_adj (sort xs)) \<and> distinct (remdups_adj (sort xs))" for xs :: "string list"
    by (simp add: distinct_sorted_remdups)
  have "set (bootstrap_hosts cfg cache)
      = set DEFAULTS \<union> set (dht_bootstrap (network cfg)) \<union> set (load_dht_bootstrap cache)"
    by (auto simp: bootstrap_hosts_def)
  then show ?thesis using sorted_remdups by (simp add: resolve_dht_bootstrap_def)
qed

section \<open>Properties\<close>

text \<open>The cache of DHT nodes reads back as written, up to its 64 entries.\<close>

theorem dht_cache_roundtrip:
  assumes "list_all (\<lambda>l. l \<noteq> [] \<and> list_all printable l) nodes"
  shows "load_dht_bootstrap (Some (save_dht_bootstrap nodes)) = take DHT_BOOT_MAX nodes"
  using assms by (rule load_saved)

lemma dht_cache_roundtrip_witness:
  "load_dht_bootstrap (Some (save_dht_bootstrap [''1.2.3.4:5'', ''h:6''])) = take DHT_BOOT_MAX [''1.2.3.4:5'', ''h:6'']"
  by (rule dht_cache_roundtrip) (simp add: printable_def)

text \<open>The DHT is asked at every address there is: each default, configured or cached host that
  is an address, and each IPv4 address of a name that resolves in time; nothing else, sorted and
  once each.\<close>

theorem dht_bootstrap_addresses:
  "set (resolve_dht_bootstrap is_addr lookup cfg cache)
     = (\<Union>h \<in> set DEFAULTS \<union> set (dht_bootstrap (network cfg)) \<union> set (load_dht_bootstrap cache).
          set (resolve_host is_addr lookup h))
    \<and> sorted (resolve_dht_bootstrap is_addr lookup cfg cache)
    \<and> distinct (resolve_dht_bootstrap is_addr lookup cfg cache)"
  by (rule resolved_addresses)

text \<open>The address of the server stays hidden when a relay is in use: no socket is bound and the
  port is 0, whatever the configuration and the environment say about ports.\<close>

theorem relay_only_binds_nothing:
  assumes "parse_relays relay_url cfg \<noteq> []"
  shows "transport_of relay_url env bind_v4 bind_v6 cfg = Inr (RelayOnly (parse_relays relay_url cfg))
    \<and> quic_port_of relay_url env cfg = 0"
  using assms by (simp add: transport_of_def quic_port_of_def Let_def)

definition relay_config :: "string list \<Rightarrow> config" where
  "relay_config rs = config_default\<lparr>network := network_default\<lparr>relays := rs, listen_port := PortNum 11204\<rparr>\<rparr>"

lemma relay_only_binds_nothing_witness:
  "transport_of Some (Some ''99'') (\<lambda>p. True) (\<lambda>p. True) (relay_config [''https://r''])
      = Inr (RelayOnly (parse_relays Some (relay_config [''https://r''])))
    \<and> quic_port_of Some (Some ''99'') (relay_config [''https://r'']) = 0"
  by (rule relay_only_binds_nothing)
    (simp add: parse_relays_def relay_config_def List.map_filter_simps Let_def printable_def)

text \<open>Relays that are configured but not valid count as none: the server binds its port.\<close>

theorem invalid_relays_expose:
  assumes "list_all (\<lambda>s. trim s = [] \<or> relay_url (trim s) = None) (relays (network cfg))"
    and "resolve_port (listen_port (network cfg)) = p" and "p \<noteq> 0" and "bind_v4 p"
  shows "transport_of relay_url None bind_v4 bind_v6 cfg = Inr (Fixed p (ipv6_enabled (network cfg) \<and> bind_v6 p))"
proof -
  have "parse_relays relay_url cfg = []"
    using assms(1) set_map_filter [of "\<lambda>s. let s = trim s in if s = [] then None else relay_url s" "relays (network cfg)"]
    by (auto simp: parse_relays_def list_all_iff Let_def split: if_splits simp flip: set_empty)
  with assms show ?thesis by (simp add: transport_of_def quic_port_of_def Let_def)
qed

lemma invalid_relays_expose_witness:
  "transport_of (\<lambda>s. None :: string option) None (\<lambda>p. True) (\<lambda>p. False) (relay_config [''relay-ru1''])
    = Inr (Fixed 11204 (ipv6_enabled (network (relay_config [''relay-ru1''])) \<and> False))"
  by (rule invalid_relays_expose) (simp_all add: relay_config_def)

end
