(* ===== verification/Node.thy ===== *)
theory Node
  imports Handler Discovery Startup
begin

text \<open>
  The assembly of a node: \<open>main\<close> of \<open>src/src/main.rs\<close> and \<open>run\<close> of \<open>src/src/p2p_server.rs\<close>, which load the
  configuration, bind the endpoint and build the services the tasks share, and the task of \<open>run\<close> that
  watches the DHT and keeps the cache of its nodes. What the host provides is a record of parameters.
\<close>

section \<open>The host\<close>

text \<open>
  URL parsing, the variable \<open>NETFORY_QUIC_PORT\<close>, the sockets, the resolver and the file of DHT nodes;
  \<open>bind_endpoint\<close> is whether iroh binds with a transport, the DHT nodes (if the DHT is on) and the
  secret key; the database (\<open>None\<close> if it cannot be opened); whether the HTTP client can be built; the
  order in which the map of endpoints is iterated; and the libraries.
\<close>

record ('u, 'db) host =
  relay_url :: "string \<Rightarrow> 'u option"
  quic_env :: "string option"
  bind_v4 :: "u16 \<Rightarrow> bool"
  bind_v6 :: "u16 \<Rightarrow> bool"
  is_socket_addr :: "string \<Rightarrow> bool"
  lookup_host :: "string \<Rightarrow> (bool \<times> string) list option"
  dht_file :: "string option"
  bind_endpoint :: "'u transport \<Rightarrow> string list option \<Rightarrow> bytes \<Rightarrow> bool"
  boot_time :: nat
  peers_db :: "'db option"
  client_ok :: bool
  endpoint_values :: "config \<Rightarrow> endpoint_cfg list"
  h_crypto :: crypto_lib
  h_json :: json_lib
  h_http :: http_lib
  h_net :: net_lib
  h_packet :: packet_codec
  h_store :: "'db store_lib"
  h_send :: "http_request \<Rightarrow> http_outcome"

section \<open>Assembling a node\<close>

record ('u, 'db) node =
  nd_transport :: "'u transport"
  nd_dht :: "string list option"
  nd_handler :: "'db handler"
  nd_shared :: "'db shared"

datatype run_error = Transport start_error | EndpointBind | OpenPeers | Engine proxy_error

definition dht_nodes_of :: "('u, 'db) host \<Rightarrow> config \<Rightarrow> string list option" where
  "dht_nodes_of H cfg =
     (if dht_enabled (network cfg)
      then Some (resolve_dht_bootstrap (is_socket_addr H) (lookup_host H) cfg (dht_file H)) else None)"

definition make_handler :: "('u, 'db) host \<Rightarrow> engine \<Rightarrow> string \<Rightarrow> 'db handler" where
  "make_handler H E node_id =
     \<lparr>me = node_id, proxy = E, lib_crypto = h_crypto H, lib_json = h_json H, lib_http = h_http H,
      lib_net = h_net H, lib_packet = h_packet H, lib_store = h_store H, http_send = h_send H\<rparr>"

definition run_node :: "('u, 'db) host \<Rightarrow> config \<Rightarrow> root \<Rightarrow> run_error + ('u, 'db) node" where
  "run_node H cfg rt =
     (case transport_of (relay_url H) (quic_env H) (bind_v4 H) (bind_v6 H) cfg of
        Inl e \<Rightarrow> Inl (Transport e)
      | Inr tr \<Rightarrow>
          if \<not> bind_endpoint H tr (dht_nodes_of H cfg) (iroh_secret rt) then Inl EndpointBind
          else
            (let node_id = node_id_of (h_crypto H) rt;
                 st = stats_new (boot_time H) node_id (quic_port_of (relay_url H) (quic_env H) cfg)
                        (dht_enabled (network cfg)) in
             (case peers_db H of
                None \<Rightarrow> Inl OpenPeers
              | Some db \<Rightarrow>
                  (case engine_new (client_ok H) (endpoint_values H cfg) rt node_id of
                     Inl e \<Rightarrow> Inl (Engine e)
                   | Inr E \<Rightarrow>
                       Inr \<lparr>nd_transport = tr, nd_dht = dht_nodes_of H cfg,
                            nd_handler = make_handler H E node_id,
                            nd_shared = \<lparr>sh_limiter = limiter_new, sh_stats = st, sh_peers = db\<rparr>\<rparr>))))"

text \<open>The protocols of the router; \<open>gossip\<close> is the name of iroh's gossip protocol.\<close>

datatype accepted_protocol = ApiProtocol bool | GossipProtocol

definition router_table :: "string \<Rightarrow> (string \<times> accepted_protocol) list" where
  "router_table gossip_alpn = [(ALPN, ApiProtocol False), (ALPN_V1, ApiProtocol True), (gossip_alpn, GossipProtocol)]"

datatype main_error = ConfigError config_error | RunError run_error

definition main ::
  "config_env \<Rightarrow> ('u, 'db) host \<Rightarrow> bytes \<Rightarrow> file_state
     \<Rightarrow> (main_error + config \<times> root \<times> ('u, 'db) node) \<times> file_state" where
  "main E H entropy f =
     (case load_or_init E (h_crypto H) entropy f of
        (Inl e, f') \<Rightarrow> (Inl (ConfigError e), f')
      | (Inr (cfg, rt), f') \<Rightarrow>
          (case run_node H cfg rt of
             Inl e \<Rightarrow> (Inl (RunError e), f')
           | Inr nd \<Rightarrow> (Inr (cfg, rt, nd), f')))"

section \<open>The DHT monitor\<close>

text \<open>Its counter, the gauge of nodes and the content of the cache file.\<close>

record monitor =
  tick :: u32
  gauge :: u64
  boot_file :: "string option"

definition save_due :: "u32 \<Rightarrow> bool" where
  "save_due t \<longleftrightarrow> t mod 10 = 0"

text \<open>A round gets the size of the routing table and the live nodes, or errors; \<open>write\<close> is what a
  write leaves in the file, where an error is ignored.\<close>

definition monitor_round ::
  "(string \<Rightarrow> string option \<Rightarrow> string option) \<Rightarrow> nat option \<times> string list option \<Rightarrow> monitor \<Rightarrow> monitor" where
  "monitor_round write r m =
     (let m = (case fst r of None \<Rightarrow> m | Some n \<Rightarrow> m\<lparr>gauge := of_nat n\<rparr>);
          m = m\<lparr>tick := tick m + 1\<rparr>
      in (if save_due (tick m) then
            (case snd r of
               None \<Rightarrow> m
             | Some nodes \<Rightarrow>
                 if nodes \<noteq> [] then m\<lparr>boot_file := write (save_dht_bootstrap nodes) (boot_file m)\<rparr> else m)
          else m))"

definition monitor_rounds ::
  "(string \<Rightarrow> string option \<Rightarrow> string option) \<Rightarrow> (nat option \<times> string list option) list \<Rightarrow> monitor \<Rightarrow> monitor" where
  "monitor_rounds write rs m = fold (monitor_round write) rs m"

text \<open>The task of \<open>run\<close>: none without the DHT, and none if the client for it (\<open>built\<close>) cannot be built;
  a bootstrap that fails is only logged.\<close>

definition monitor_task ::
  "config \<Rightarrow> bool \<Rightarrow> (string \<Rightarrow> string option \<Rightarrow> string option) \<Rightarrow> (nat option \<times> string list option) list
     \<Rightarrow> u64 \<Rightarrow> string option \<Rightarrow> u64 \<times> string option" where
  "monitor_task cfg built write rs g file =
     (if dht_enabled (network cfg) \<and> built
      then (let m = monitor_rounds write rs \<lparr>tick = 0, gauge = g, boot_file = file\<rparr> in (gauge m, boot_file m))
      else (g, file))"

section \<open>A node that started\<close>

lemma run_node_Inr:
  assumes "run_node H cfg rt = Inr nd"
  obtains db E where "engine_new (client_ok H) (endpoint_values H cfg) rt (node_id_of (h_crypto H) rt) = Inr E"
    and "nd_handler nd = \<lparr>me = node_id_of (h_crypto H) rt, proxy = E, lib_crypto = h_crypto H, lib_json = h_json H,
      lib_http = h_http H, lib_net = h_net H, lib_packet = h_packet H, lib_store = h_store H, http_send = h_send H\<rparr>"
    and "peers_db H = Some db"
    and "nd_shared nd = \<lparr>sh_limiter = limiter_new, sh_stats = stats_new (boot_time H) (node_id_of (h_crypto H) rt)
      (quic_port_of (relay_url H) (quic_env H) cfg) (dht_enabled (network cfg)), sh_peers = db\<rparr>"
  using assms by (auto simp: run_node_def make_handler_def Let_def split: sum.splits option.splits if_splits)

lemma run_node_starts:
  assumes "transport_of (relay_url H) (quic_env H) (bind_v4 H) (bind_v6 H) cfg = Inr tr"
    and "bind_endpoint H tr (dht_nodes_of H cfg) (iroh_secret rt)" and "peers_db H = Some db" and "client_ok H"
  obtains nd where "run_node H cfg rt = Inr nd"
  using assms by (simp add: run_node_def Let_def engine_new_def)

lemma main_Inr:
  assumes "main E H entropy f = (Inr (cfg, rt, nd), f')"
  shows "load_or_init E (h_crypto H) entropy f = (Inr (cfg, rt), f')" and "run_node H cfg rt = Inr nd"
  using assms by (auto simp: main_def split: prod.splits sum.splits)

lemma engine_new_Inr:
  "engine_new ok eps rt nid = Inr E \<Longrightarrow> ok \<and> pe_node_id E = nid \<and> signing E = signing_key rt
     \<and> by_name E = engine_names eps \<and> default_name E = min_key (engine_names eps)"
  by (auto simp: engine_new_def Let_def split: if_splits)

text \<open>A default endpoint exists whenever there is any.\<close>

lemma default_served:
  assumes "by_name E = engine_names eps" and "default_name E = min_key (engine_names eps)" and "eps \<noteq> []"
  obtains ep where "resolve E [] = Some ep" and "ep \<in> set eps"
proof -
  have "\<not> Mapping.is_empty (engine_names eps)"
    using assms(3) by (simp add: Mapping.is_empty_def keys_engine_names)
  moreover have "Min (Mapping.keys (engine_names eps)) \<in> Mapping.keys (engine_names eps)"
    using assms(3) by (simp add: keys_engine_names)
  ultimately obtain ep where "Mapping.lookup (engine_names eps) (Min (Mapping.keys (engine_names eps))) = Some ep"
    by (auto simp: keys_dom_lookup)
  with that [of ep] \<open>\<not> Mapping.is_empty (engine_names eps)\<close> lookup_engine_names_Some show ?thesis
    by (simp add: resolve_def assms(1,2) min_key_def)
qed

lemma iterates_nonempty:
  "iterates cfg eps \<Longrightarrow> \<not> Mapping.is_empty (endpoints cfg) \<Longrightarrow> eps \<noteq> []"
  by (auto simp: iterates_def Mapping.is_empty_def)

lemma node_default:
  assumes "main E H entropy f = (Inr (cfg, rt, nd), f')" and "iterates cfg (endpoint_values H cfg)"
  obtains ep where "resolve (proxy (nd_handler nd)) [] = Some ep" and "ep \<in> set (endpoint_values H cfg)"
proof -
  have "\<not> Mapping.is_empty (endpoints cfg)"
    by (rule load_or_init_Inr [OF main_Inr(1) [OF assms(1)]])
  then have "endpoint_values H cfg \<noteq> []" by (rule iterates_nonempty [OF assms(2)])
  with run_node_Inr [OF main_Inr(2) [OF assms(1)]] engine_new_Inr default_served that show ?thesis
    by (metis handler.select_convs(2))
qed

lemma node_handler_sel:
  assumes "main E H entropy f = (Inr (cfg, rt, nd), f')"
  shows "lib_crypto (nd_handler nd) = h_crypto H" and "lib_json (nd_handler nd) = h_json H"
    and "lib_http (nd_handler nd) = h_http H" and "lib_packet (nd_handler nd) = h_packet H"
    and "http_send (nd_handler nd) = h_send H"
    and "pe_node_id (proxy (nd_handler nd)) = node_id_of (h_crypto H) rt"
    and "signing (proxy (nd_handler nd)) = signing_key rt"
    and "sh_limiter (nd_shared nd) = limiter_new"
  by (rule run_node_Inr [OF main_Inr(2) [OF assms]], drule engine_new_Inr, simp)+

section \<open>The cache of the monitor\<close>

lemma monitor_round_tick [simp]: "tick (monitor_round write r m) = tick m + 1"
  by (simp add: monitor_round_def Let_def split: option.split)

lemma monitor_rounds_tick: "tick (monitor_rounds write rs m) = tick m + of_nat (length rs)"
  unfolding monitor_rounds_def by (induction rs arbitrary: m) simp_all

text \<open>The file holds one of the lists of nodes in \<open>N\<close>.\<close>

definition holds_one :: "string list set \<Rightarrow> monitor \<Rightarrow> bool" where
  "holds_one N m \<longleftrightarrow> (\<exists>ns \<in> N. boot_file m = Some (save_dht_bootstrap ns))"

lemma holds_one_round:
  assumes "write = (\<lambda>x c. Some x)" and "snd r = Some ns" and "ns \<in> N" and "ns \<noteq> []"
  shows "save_due (tick m + 1) \<or> holds_one N m \<Longrightarrow> holds_one N (monitor_round write r m)"
  using assms by (auto simp: holds_one_def monitor_round_def Let_def split: option.split)

text \<open>One of ten successive values of the counter is a multiple of ten, also across the wrap-around,
  where the counter skips from 5 modulo 10 to 0.\<close>

lemma ten_ticks: obtains i where "i < 10" and "save_due (t + of_nat i + 1)"
proof -
  define n where "n = unat t"
  have n: "n < 2 ^ 32" using unsigned_less [of t] by (simp add: n_def)
  define i where "i = (if n + 10 < 2 ^ 32 then 9 - n mod 10 else 2 ^ 32 - n - 1)"
  have "i < 10" using n by (auto simp: i_def)
  moreover have "unat (t + of_nat i + 1) = (n + i + 1) mod 2 ^ 32"
    by (simp add: n_def unat_word_ariths unat_of_nat mod_simps take_bit_eq_mod)
  then have "unat ((t + of_nat i + 1) mod 10) = (n + i + 1) mod 2 ^ 32 mod 10"
    by (simp add: unat_mod)
  moreover have "(n + i + 1) mod 2 ^ 32 mod 10 = 0"
  proof (cases "n + 10 < 2 ^ 32")
    case True
    then have "(n + i + 1) mod 2 ^ 32 = n + i + 1" by (simp add: i_def)
    moreover have "(n + i + 1) mod 10 = 0" using True by (simp add: i_def) presburger
    ultimately show ?thesis by (simp only:)
  next
    case False
    then have "n + i + 1 = 2 ^ 32" using n by (simp add: i_def)
    then show ?thesis by (simp only: mod_self mod_0)
  qed
  ultimately show ?thesis using that unfolding save_due_def by (metis unat_eq_0)
qed

lemma holds_one_rounds:
  assumes "write = (\<lambda>x c. Some x)"
    and "list_all (\<lambda>r. \<exists>ns. snd r = Some ns \<and> ns \<in> N \<and> ns \<noteq> []) rs"
  shows "holds_one N m \<or> (\<exists>i < length rs. save_due (tick m + of_nat i + 1))
    \<Longrightarrow> holds_one N (monitor_rounds write rs m)"
  using assms(2) unfolding monitor_rounds_def
proof (induction rs arbitrary: m)
  case (Cons r rs)
  then obtain ns where ns: "snd r = Some ns" "ns \<in> N" "ns \<noteq> []" by auto
  have "holds_one N (monitor_round write r m)
      \<or> (\<exists>i < length rs. save_due (tick (monitor_round write r m) + of_nat i + 1))"
  proof (cases "holds_one N m \<or> save_due (tick m + 1)")
    case True
    with holds_one_round [OF assms(1) ns] show ?thesis by blast
  next
    case False
    with Cons.prems(1) obtain i where i: "i < Suc (length rs)" "save_due (tick m + of_nat i + 1)" by auto
    with False obtain j where "i = Suc j" by (cases i) auto
    with i show ?thesis by (auto simp: algebra_simps)
  qed
  with Cons.IH [of "monitor_round write r m"] Cons.prems(2) show ?case by simp
qed simp

section \<open>A host for the witnesses\<close>

definition demo_host :: "(string, (bytes \<times> bytes) list) host" where
  "demo_host =
     \<lparr>relay_url = Some, quic_env = None, bind_v4 = (\<lambda>p. True), bind_v6 = (\<lambda>p. True),
      is_socket_addr = (\<lambda>a. True), lookup_host = (\<lambda>h. None), dht_file = None,
      bind_endpoint = (\<lambda>tr dht sk. True), boot_time = 0, peers_db = Some [], client_ok = True,
      endpoint_values = (\<lambda>cfg. List.map_filter (Mapping.lookup (endpoints cfg)) [''smartholdem-node'']),
      h_crypto = demo_crypto, h_json = demo_json, h_http = demo_http, h_net = lib_net demo_node,
      h_packet = \<lparr>pkt_read = (\<lambda>b. Some ((demo_packet ''/'' [] [])\<lparr>target_provider := []\<rparr>)), pkt_print = (\<lambda>p. None)\<rparr>,
      h_store = demo_store, h_send = http_send demo_node\<rparr>"

lemma demo_host_sel:
  "h_crypto demo_host = demo_crypto" "h_json demo_host = demo_json"
  "pkt_read (h_packet demo_host) b = Some ((demo_packet ''/'' [] [])\<lparr>target_provider := []\<rparr>)"
  by (simp_all add: demo_host_def)

lemma demo_values:
  "iterates demo_config (endpoint_values demo_host demo_config)"
  "list_all (\<lambda>ep. str_ok (ep_name ep)) (endpoint_values demo_host demo_config)"
proof -
  define ep where "ep = \<lparr>ep_protocol = ''api'', ep_name = ''node1-smartholdem'',
    local_url = ''http://localhost:4003/api'', rate_limit_per_peer = 5, local_ws_url = None, ws_rate_limit_per_peer = 30\<rparr>"
  have eps: "endpoints demo_config = Mapping.update ''smartholdem-node'' ep Mapping.empty"
    by (simp add: demo_config_def config_default_def ep_def)
  then have vals: "endpoint_values demo_host demo_config = [ep]"
    by (simp add: demo_host_def List.map_filter_simps Mapping.lookup_update)
  show "iterates demo_config (endpoint_values demo_host demo_config)"
    unfolding iterates_def vals eps
    by (rule exI [of _ "[''smartholdem-node'']"]) (simp add: Mapping.lookup_update)
  have "str_ok ''node1-smartholdem''" by code_simp
  then show "list_all (\<lambda>ep. str_ok (ep_name ep)) (endpoint_values demo_host demo_config)"
    by (simp add: vals) (simp add: ep_def)
qed

lemma demo_main:
  obtains nd where "main demo_env demo_host e NoFile = (Inr (demo_config, replicate 32 7, nd), TextFile ''y'')"
proof -
  have "\<exists>tr. transport_of (relay_url demo_host) (quic_env demo_host) (bind_v4 demo_host) (bind_v6 demo_host)
      demo_config = Inr tr"
    by (simp add: transport_of_def demo_host_def Let_def)
  then obtain nd where "run_node demo_host demo_config (replicate 32 7) = Inr nd"
    by (elim exE run_node_starts) (simp_all add: demo_host_def)
  with demo_start that show ?thesis by (simp add: main_def demo_host_sel)
qed

section \<open>Properties\<close>



text \<open>C38: The cache of DHT nodes stays fresh: in any ten successive rounds that see live nodes, also when
  the counter wraps around, the monitor saves those of one round, and the next start asks each of the
  first 64 of them that is an address.\<close>

theorem dht_cache_fresh:
  assumes "write = (\<lambda>x c. Some x)" and "length rs = 10"
    and "list_all (\<lambda>r. \<exists>ns. snd r = Some ns \<and> ns \<noteq> [] \<and> list_all (\<lambda>l. l \<noteq> [] \<and> list_all printable l) ns) rs"
  shows "\<exists>ns. Some ns \<in> set (map snd rs)
    \<and> load_dht_bootstrap (boot_file (monitor_rounds write rs m)) = take DHT_BOOT_MAX ns
    \<and> set (filter is_addr (take DHT_BOOT_MAX ns))
        \<subseteq> set (resolve_dht_bootstrap is_addr lookup cfg (boot_file (monitor_rounds write rs m)))"
proof -
  define N where "N = {ns. Some ns \<in> set (map snd rs) \<and> list_all (\<lambda>l. l \<noteq> [] \<and> list_all printable l) ns}"
  have "list_all (\<lambda>r. \<exists>ns. snd r = Some ns \<and> ns \<in> N \<and> ns \<noteq> []) rs"
    using assms(3) by (force simp: list_all_iff N_def)
  moreover obtain i where "i < length rs" "save_due (tick m + of_nat i + 1)"
    using ten_ticks [of "tick m"] assms(2) by metis
  ultimately have "holds_one N (monitor_rounds write rs m)"
    using holds_one_rounds [OF assms(1)] by blast
  then obtain ns where ns: "Some ns \<in> set (map snd rs)" "list_all (\<lambda>l. l \<noteq> [] \<and> list_all printable l) ns"
    "boot_file (monitor_rounds write rs m) = Some (save_dht_bootstrap ns)"
    by (auto simp: holds_one_def N_def)
  then have load: "load_dht_bootstrap (boot_file (monitor_rounds write rs m)) = take DHT_BOOT_MAX ns"
    by (simp add: load_saved)
  have "h \<in> set (resolve_dht_bootstrap is_addr lookup cfg (boot_file (monitor_rounds write rs m)))"
    if "h \<in> set (filter is_addr (take DHT_BOOT_MAX ns))" for h
    using that load resolved_addresses [of is_addr lookup cfg "boot_file (monitor_rounds write rs m)"]
    by (force simp: resolve_host_def)
  with ns(1) load show ?thesis by blast
qed

lemma dht_cache_fresh_witness:
  "\<exists>ns. Some ns \<in> set (map snd (replicate 10 (Some (20 :: nat), Some [''1.2.3.4:5''])))
    \<and> load_dht_bootstrap (boot_file (monitor_rounds (\<lambda>x c. Some x) (replicate 10 (Some 20, Some [''1.2.3.4:5'']))
        \<lparr>tick = 4294967290, gauge = 0, boot_file = None\<rparr>)) = take DHT_BOOT_MAX ns
    \<and> set (filter (\<lambda>a. True) (take DHT_BOOT_MAX ns))
      \<subseteq> set (resolve_dht_bootstrap (\<lambda>a. True) (\<lambda>h. None) config_default
          (boot_file (monitor_rounds (\<lambda>x c. Some x) (replicate 10 (Some 20, Some [''1.2.3.4:5'']))
            \<lparr>tick = 4294967290, gauge = 0, boot_file = None\<rparr>)))"
  by (rule dht_cache_fresh) (simp_all add: list_all_iff printable_def)

end
