(* ===== verification/Spec2Isabelle.thy ===== *)
theory Spec2Isabelle
  imports Server_Runs Node
begin

text \<open>
  A model of netfory-provider: a node of a peer-to-peer network that takes requests over QUIC streams,
  passes them to HTTP services on its own host, signs the answers, and relays what it does not serve.
  The nine files of \<open>src/src\<close> are translated function by function; the theorems say what a client, an
  operator and another node can rely on.

  \<^bold>\<open>Parts and how they interact.\<close> \<open>main\<close> loads the configuration (\<open>config.rs\<close>), derives the keys from its
  mnemonic (\<open>crypto.rs\<close>) and calls \<open>run\<close> (\<open>p2p_server.rs\<close>), which binds the endpoint and builds the services
  its tasks share: the counters (\<open>stats.rs\<close>), the peer database (\<open>peers.rs\<close>), the proxy engine
  (\<open>proxy_engine.rs\<close>) and the rate limiter (\<open>ratelimit.rs\<close>). A connection has a task that accepts streams
  and a task for each stream, at most 16 at a time. A stream carries one packet (\<open>protocol.rs\<close>), which is
  counted, checked against the limit of its peer and then rejected, tunnelled to a WebSocket service,
  executed against a local service or relayed to another node. Other tasks announce the node, store
  announcements of others, check the health of the services and keep a cache of DHT nodes.

  \<^bold>\<open>Theories.\<close>
  \<^item> \<open>Prelude\<close>: words, byte strings, byte orders, decimal printing, readers and writers with their errors.
  \<open>Utf8\<close>, \<open>Rust_Str\<close>, \<open>Float64\<close>: the parts of Rust's strings and of binary64 that the code uses; rounding is
  to the nearest even of 53 bits, without overflow, which the limiter's values never approach.
  \<^item> \<open>Framing\<close>: the locale of a self-delimiting code. \<open>Protocol\<close> (\<open>protocol.rs\<close>) interprets it for WebSocket
  frames and for handshakes.
  \<^item> \<open>Rate_Limit\<close> (\<open>ratelimit.rs\<close>): the token bucket; the locale of a limiter whose peers are independent.
  \<^item> \<open>Crypto\<close> (\<open>crypto.rs\<close>), \<open>Config\<close> (\<open>config.rs\<close>): keys and signatures, the first and every later start.
  \<^item> \<open>Peers\<close> (\<open>peers.rs\<close>): the store of manifests, an implementation of a map (locale \<open>directory\<close>).
  \<^item> \<open>Runs\<close>: locales for sequences of operations, with an invariant or commuting, and for labelled steps.
  \<open>Stats\<close> (\<open>stats.rs\<close>), \<open>Ws_Tunnel\<close> and \<open>Connections\<close> (\<open>handle_ws_stream\<close> and \<open>accept\<close> of
  \<open>p2p_server.rs\<close>) interpret the former, \<open>Server\<close> the last.
  \<^item> \<open>Json\<close>, \<open>Proxy_Engine\<close> (\<open>proxy_engine.rs\<close>): the upstream request and the signed answer.
  \<^item> \<open>Relay\<close>, \<open>Handler\<close>, \<open>Discovery\<close>, \<open>Startup\<close>, \<open>Node\<close>: \<open>relay\<close> and \<open>forward_to\<close>; \<open>handle_stream\<close>;
  \<open>spawn_discovery\<close>, \<open>listen_announces\<close>, \<open>verify_manifest\<close> and \<open>spawn_health\<close>; the transport and the DHT
  nodes of \<open>run\<close>; its assembly, the DHT monitor, and \<open>main\<close>.
  \<^item> \<open>Mesh\<close>: the histories of a network of nodes (\<open>traffic\<close>: what each made of each packet, where a reply read
  from a connection is what its other end wrote) and the ways of packets through it (\<open>travels\<close>).
  \<^item> \<open>Server\<close>: the running node, all its connections, stream tasks and background tasks over one shared state
  (\<open>accept\<close> and \<open>handle_stream\<close> as the step relation \<open>server_step\<close>, with the sequential node as its
  reference); \<open>Server_Inv\<close>: the invariants of its runs; \<open>Server_Trace\<close>: what in a state comes from
  an earlier one, and the sequential functions as schedules; \<open>Server_Runs\<close>: what follows for clients and operators.
  \<^item> This theory: one request from bytes to bytes, the program from its start, announcing and being found.

  \<^bold>\<open>State.\<close> Every record has the fields of the struct it models. What tasks share is \<open>shared\<close>: the limiter,
  the counters and the database. Counters, ports and rates are words and wrap around.

  \<^bold>\<open>Concurrency.\<close> A component alone is a step function over its events, in any order: \<open>tunnel_step\<close> for a
  tunnel's two tasks, \<open>conn_step\<close> for an accept loop, calls of the limiter in the order of its lock, atomic
  operations on counters. \<open>handle_packet\<close> is the sequential handler, one request in one step. \<open>server_step\<close>
  puts them together: between parsing, counting, reading the clock, taking the lock, counting the outcome,
  executing and writing, any other task may run, and so may the listener, the health check and the
  monitor. A stream has its task from the moment it is accepted, in the phase \<open>Waiting\<close> until it has its
  permit. Runs carry labels, which say what the environment sees whatever the code makes of it: what was
  counted and what the limiter decided, which reply the network gave to which bytes, which answer a task
  ended with, what a health round asked and heard. Every schedule is such a run. What a service answers
  is a function of the request, one for a run (\<open>http_send\<close>); the network may be another at each attempt.
  Its decisions are those of \<open>handle_packet\<close>, one request after the other in the order of the lock
  (\<open>node_serializable\<close>), and what that handler does the running node can do (\<open>node_can_handle\<close>), so that
  the theorems on the sequential handler tell what the node decides. A relay reads the table of peers once
  or twice and asks one candidate after the other; an announcement is stored, then the peers are counted,
  then the number is shown; a health round asks one service after the other. One step are: a reading of
  the table of peers; an attempt of a relay and a request to a service, which touch nothing that is shared.

  \<^bold>\<open>What is shown.\<close> Answers are authentic end to end, over any number of relays; they are well-formed and
  keep what the service said; requests are limited per peer in every window of time, with the rounding
  errors of the \<open>f64\<close> arithmetic and the effect of clock readings that come late to the lock bounded explicitly; only admissible headers and URLs reach a service; frames
  and handshakes round-trip and leave the rest of the stream untouched; a tunnel implements a bounded
  channel; the peer table holds no forged entry; no packet makes more hops than its TTL; a node keeps
  its identity over restarts; permits and streams are conserved. Of the running node: answers are not mixed
  up between tasks; at most 16 tasks of a connection are at work; from no state is a stream's answer out of reach; the
  counters are off only by the requests in between; requests are relayed only to nodes that were
  announced; the dashboard shows whole rounds and numbers that were true; and a service that is announced can be reached. Some theorems state weaknesses of the
  code: a path that chooses the upstream host, a tunnel that outlives its time limit, a replayed manifest, names that a signature does
  not tell apart, a failed peer whose silence is taken for an answer,
  two buckets for the default service, a tunnel's handshake executed as a request.

  \<^bold>\<open>Parameters.\<close> The crates the code calls are records of functions, with the documented behaviour used as
  named hypotheses (\<open>crypto_ok\<close>, \<open>json_ok\<close>, \<open>http_ok\<close>, \<open>store_ok\<close>, \<open>config_env_ok\<close>, \<open>reader_ok\<close>, \<open>writer_ok\<close>):
  Ed25519, BIP-39 and hex, \<open>serde_json\<close>, base64 and YAML, \<open>reqwest\<close> and \<open>http\<close>, sled, tungstenite, iroh's
  connections and streams, DNS and the file system. The witnesses instantiate them with concrete
  functions (\<open>demo_laws\<close>). Signatures are not assumed to be unforgeable: the theorems say which bytes were
  verified or signed. All loops are recursions over finite inputs or schedules, with a
  measure where the recursion is not structural; no fuel is used.

  \<^bold>\<open>Not modelled.\<close> The dashboard's HTML and script (a constant), log output, the opening of the sled
  database, the shutdown on Ctrl-C, the code that serde derives from the attributes of a struct (a
  parameter: the readers and printers of packets, manifests and configurations), the internals of
  gossip, QUIC and the DHT, and the task scheduler itself; time limits appear as events or errors that
  may occur at any point. What remains unmapped otherwise is module structure, attributes and comments.
\<close>

section \<open>From the stream to the signed answer\<close>

lemma write_response_ok:
  assumes "writer_ok wr out" and "\<And>bs v. fst (wr bs v) = Inr ()"
    and "\<And>v. fst (fin v) = Inr () \<and> out (snd (fin v)) = out v"
  obtains w' where "write_response wr fin bod w = (Inr (), w')" and "out w' = out w @ bod"
proof -
  obtain w1 where w1: "wr bod w = (Inr (), w1)" using assms(2) [of bod w] by (metis prod.collapse)
  obtain w2 where w2: "fin w1 = (Inr (), w2)" and "out w2 = out w1"
    using assms(3) [of w1] by (metis prod.collapse)
  with w1 writer_okD [OF assms(1) w1] that show ?thesis by (simp add: write_response_def)
qed

lemma read_request_v1:
  assumes "reader_ok rd pend" and "pend s = (handshake_bytes json @ rest, e)" and "handshake_ok json"
  shows "fst (read_request rd to_end True s) = Inr json"
  using read_handshake_bytes(1) [OF assms]
  by (auto simp: read_request_def split: prod.split sum.split)

lemma handle_stream_v1:
  assumes "reader_ok rd pend" and "pend s = (handshake_bytes json @ rest, e)" and "handshake_ok json"
    and "pkt_read (lib_packet h) json = Some pkt"
  shows "handle_stream h W c rd to_end wr fin peer True s w st =
    finish_action h W wr fin pkt peer (fst (handle_packet h c peer True pkt st)) w
      (snd (handle_packet h c peer True pkt st))"
  using read_request_v1 [OF assms(1-3)] assms(4) by (simp add: handle_stream_def split: prod.split)

lemma serve_request:
  assumes "crypto_ok (lib_crypto h)" and "json_ok (lib_json h)"
    and "root_from_mnemonic (lib_crypto h) mnemonic = Inr rt"
    and "pe_node_id (proxy h) = node_id_of (lib_crypto h) rt" and "signing (proxy h) = signing_key rt"
    and "reader_ok rd pend" and "pend s = (handshake_bytes json @ rest, e)" and "handshake_ok json"
    and "pkt_read (lib_packet h) json = Some pkt"
    and "writer_ok wr out" and "\<And>bs v. fst (wr bs v) = Inr ()"
    and "\<And>v. fst (fin v) = Inr () \<and> out (snd (fin v)) = out v"
    and "snd (allow (sh_limiter st) (mono_now c) peer (rate_of h pkt))"
    and "resolve (proxy h) (target_provider pkt) = Some ep" and "str_ok (ep_name ep)"
    and "\<not> eq_ignore_ascii_case (req_method pkt) ''WS''"
    and "upstream_answer (lib_json h) (http_send h (build_request (lib_http h) ep pkt)) = (status, raw)"
  shows "\<exists>w' st' resp. handle_stream h W c rd to_end wr fin peer True s w st = (Inr (), w', st')
    \<and> out w' = out w @ resp
    \<and> client_read (lib_crypto h) (lib_json h) (node_id_of (lib_crypto h) rt) resp
      = Some (status, now_secs (wall_now c), raw)"
proof -
  define resp where "resp = finalize (proxy h) (lib_crypto h) (lib_json h) (wall_now c) (ep_name ep) status raw False"
  have "serves (proxy h) (target_provider pkt)" using assms(14) by (simp add: serves_def)
  then have a: "fst (handle_packet h c peer True pkt st) = Execute (Inr resp)"
    using assms(13,16,17) execute_served [OF assms(14), of "lib_json h" "http_send h" "lib_http h"]
    by (simp add: handle_packet_action resp_def)
  obtain w' where w': "write_response wr fin resp w = (Inr (), w')" "out w' = out w @ resp"
    by (rule write_response_ok [OF assms(10,11,12)])
  have "handle_stream h W c rd to_end wr fin peer True s w st
      = (Inr (), w', snd (handle_packet h c peer True pkt st))"
    unfolding handle_stream_v1 [OF assms(6-9)] a by (simp add: finish_action_def w')
  with w'(2) client_read_finalize [OF assms(1-5,15)] show ?thesis by (auto simp: resp_def)
qed

lemma node_well_keyed:
  assumes "main E H entropy f = (Inr (cfg, rt, nd), f')"
    and "list_all (\<lambda>ep. str_ok (ep_name ep)) (endpoint_values H cfg)"
  shows "well_keyed (h_crypto H) (h_json H) (nd_handler nd)"
proof -
  obtain mn where "root_from_mnemonic (h_crypto H) mn = Inr rt"
    using load_or_init_root [OF main_Inr(1) [OF assms(1)]] by blast
  moreover have "str_ok (ep_name ep)" if "resolve (proxy (nd_handler nd)) target = Some ep" for target ep
  proof -
    obtain E' where "engine_new (client_ok H) (endpoint_values H cfg) rt (node_id_of (h_crypto H) rt) = Inr E'"
      and "proxy (nd_handler nd) = E'"
      using run_node_Inr [OF main_Inr(2) [OF assms(1)]] by (metis handler.select_convs(2))
    then have "ep \<in> set (endpoint_values H cfg)"
      using that lookup_engine_names_Some [of "endpoint_values H cfg" _ ep]
      by (auto simp: resolve_def dest!: engine_new_Inr split: if_split_asm option.split_asm)
    with assms(2) show ?thesis by (simp add: list_all_iff)
  qed
  ultimately show ?thesis using node_handler_sel [OF assms(1)] unfolding well_keyed_def by blast
qed

section \<open>Properties that span components\<close>

text \<open>C1: the whole path of a request, from bytes to bytes: a client that sends the handshake of a
  packet for a local service, within its limit, gets exactly one answer on its stream, written whole
  and ended, and from it recovers what the service said, authenticated by the identifier of the node
  it called.\<close>

theorem request_served:
  assumes "crypto_ok (lib_crypto h)" and "json_ok (lib_json h)"
    and "root_from_mnemonic (lib_crypto h) mnemonic = Inr rt"
    and "pe_node_id (proxy h) = node_id_of (lib_crypto h) rt" and "signing (proxy h) = signing_key rt"
    and "reader_ok rd pend" and "pend s = (handshake_bytes json @ rest, e)" and "handshake_ok json"
    and "pkt_read (lib_packet h) json = Some pkt"
    and "writer_ok wr out" and "\<And>bs v. fst (wr bs v) = Inr ()"
    and "\<And>v. fst (fin v) = Inr () \<and> out (snd (fin v)) = out v"
    and "snd (allow (sh_limiter st) (mono_now c) peer (rate_of h pkt))"
    and "resolve (proxy h) (target_provider pkt) = Some ep" and "str_ok (ep_name ep)"
    and "\<not> eq_ignore_ascii_case (req_method pkt) ''WS''"
    and "upstream_answer (lib_json h) (http_send h (build_request (lib_http h) ep pkt)) = (status, raw)"
  shows "\<exists>w' st' resp. handle_stream h W c rd to_end wr fin peer True s w st = (Inr (), w', st')
    \<and> out w' = out w @ resp
    \<and> client_read (lib_crypto h) (lib_json h) (node_id_of (lib_crypto h) rt) resp
      = Some (status, now_secs (wall_now c), raw)"
  using assms by (rule serve_request)

lemma request_served_witness:
  "\<exists>w' st' resp. handle_stream demo_node \<lparr>client_request = (\<lambda>u. None), ws_connect_async = (\<lambda>r. ConnectTimeout), schedule = []\<rparr>
      \<lparr>mono_now = 0, wall_now = 0\<rparr> slice_read (\<lambda>n s. (Inr (fst s), s)) vec_write (\<lambda>w. (Inr (), w)) ''p'' True
      (handshake_bytes [1] @ [], Finished) [] (demo_shared limiter_new) = (Inr (), w', st')
    \<and> id w' = id [] @ resp
    \<and> client_read (lib_crypto demo_node) (lib_json demo_node) (node_id_of (lib_crypto demo_node) (replicate 32 7)) resp
      = Some (200, now_secs (wall_now \<lparr>mono_now = 0, wall_now = 0\<rparr>), [123, 125])"
proof (rule request_served [OF _ _ _ _ _ slice_read_ok _ _ _ vec_write_ok])
  show "root_from_mnemonic (lib_crypto demo_node) ''demo'' = Inr (replicate 32 7)"
    using demo_root by (simp add: demo_node_sel)
  show "pkt_read (lib_packet demo_node) [1] = Some (demo_packet ''/'' [] [])" by (simp add: demo_node_def)
  have "snd (allow limiter_new 0 ''p'' 5)" by code_simp
  then show "snd (allow (sh_limiter (demo_shared limiter_new)) (mono_now \<lparr>mono_now = 0, wall_now = 0\<rparr>) ''p''
      (rate_of demo_node (demo_packet ''/'' [] [])))"
    using demo_rate [of "demo_packet ''/'' [] []"] by (simp add: demo_shared_def demo_packet_def)
  show "resolve (proxy demo_node) (target_provider (demo_packet ''/'' [] [])) = Some (demo_endpoint ''x'' ''http://l'')"
    by (simp add: demo_node_sel demo_packet_def)
  show "str_ok (ep_name (demo_endpoint ''x'' ''http://l''))" by (simp add: demo_endpoint_def)
  show "\<not> eq_ignore_ascii_case (req_method (demo_packet ''/'' [] [])) ''WS''" by code_simp
qed (simp_all add: demo_node_sel demo_laws upstream_answer_def handshake_ok_def MAX_FRAME_def
    vec_write_def)

text \<open>C2: The whole program, from its start: when \<open>main\<close> has started a node, the first request of any
  client that asks for no service by name is answered by one of the configured services, and the client
  recovers what that service said, authenticated by the identifier that the configuration's mnemonic
  determines.\<close>

theorem node_serves:
  assumes "crypto_ok (h_crypto H)" and "json_ok (h_json H)"
    and "main E H entropy f = (Inr (cfg, rt, nd), f')" and "iterates cfg (endpoint_values H cfg)"
    and "list_all (\<lambda>ep. str_ok (ep_name ep)) (endpoint_values H cfg)"
    and "reader_ok rd pend" and "pend s = (handshake_bytes json @ rest, e)" and "handshake_ok json"
    and "pkt_read (h_packet H) json = Some pkt"
    and "writer_ok wr out" and "\<And>bs v. fst (wr bs v) = Inr ()"
    and "\<And>v. fst (fin v) = Inr () \<and> out (snd (fin v)) = out v"
    and "target_provider pkt = []" and "\<not> eq_ignore_ascii_case (req_method pkt) ''WS''"
  shows "\<exists>ep status raw w' st' resp. ep \<in> set (endpoint_values H cfg)
    \<and> upstream_answer (h_json H) (h_send H (build_request (h_http H) ep pkt)) = (status, raw)
    \<and> handle_stream (nd_handler nd) W c rd to_end wr fin peer True s w (nd_shared nd) = (Inr (), w', st')
    \<and> out w' = out w @ resp
    \<and> client_read (h_crypto H) (h_json H) (node_id_of (h_crypto H) rt) resp
      = Some (status, now_secs (wall_now c), raw)"
proof -
  obtain mn where mn: "root_from_mnemonic (h_crypto H) mn = Inr rt"
    using load_or_init_root [OF main_Inr(1) [OF assms(3)]] by blast
  obtain ep where ep: "resolve (proxy (nd_handler nd)) [] = Some ep" "ep \<in> set (endpoint_values H cfg)"
    by (rule node_default [OF assms(3,4)])
  obtain status raw where up: "upstream_answer (h_json H) (h_send H (build_request (h_http H) ep pkt)) = (status, raw)"
    by fastforce
  note node = node_handler_sel [OF assms(3)]
  have "str_ok (ep_name ep)" using ep(2) assms(5) by (simp add: list_all_iff)
  moreover have "snd (allow (sh_limiter (nd_shared nd)) (mono_now c) peer (rate_of (nd_handler nd) pkt))"
    unfolding node by (rule limiter_first)
  ultimately have "\<exists>w' st' resp. handle_stream (nd_handler nd) W c rd to_end wr fin peer True s w (nd_shared nd)
      = (Inr (), w', st') \<and> out w' = out w @ resp
    \<and> client_read (lib_crypto (nd_handler nd)) (lib_json (nd_handler nd)) (node_id_of (lib_crypto (nd_handler nd)) rt) resp
      = Some (status, now_secs (wall_now c), raw)"
    using assms ep(1) up mn by (intro serve_request [where wr = wr and out = out and pend = pend]) (simp_all add: node)
  with ep(2) up show ?thesis unfolding node by blast
qed

lemma node_serves_witness:
  "\<exists>nd. main demo_env demo_host [5] NoFile = (Inr (demo_config, replicate 32 7, nd), TextFile ''y'')
    \<and> (\<exists>ep status raw w' st' resp. ep \<in> set (endpoint_values demo_host demo_config)
    \<and> upstream_answer (h_json demo_host) (h_send demo_host (build_request (h_http demo_host) ep
        ((demo_packet ''/'' [] [])\<lparr>target_provider := []\<rparr>))) = (status, raw)
    \<and> handle_stream (nd_handler nd) \<lparr>client_request = (\<lambda>u. None), ws_connect_async = (\<lambda>r. ConnectTimeout), schedule = []\<rparr>
      \<lparr>mono_now = 3, wall_now = 0\<rparr> slice_read (\<lambda>n s. (Inr (fst s), s)) vec_write (\<lambda>w. (Inr (), w)) ''p'' True
      (handshake_bytes [1] @ [], Finished) [] (nd_shared nd) = (Inr (), w', st')
    \<and> id w' = id [] @ resp
    \<and> client_read (h_crypto demo_host) (h_json demo_host) (node_id_of (h_crypto demo_host) (replicate 32 7)) resp
      = Some (status, now_secs (wall_now \<lparr>mono_now = 3, wall_now = 0\<rparr>), raw))"
proof -
  obtain nd where m: "main demo_env demo_host [5] NoFile = (Inr (demo_config, replicate 32 7, nd), TextFile ''y'')"
    by (rule demo_main)
  have "\<not> eq_ignore_ascii_case (req_method ((demo_packet ''/'' [] [])\<lparr>target_provider := []\<rparr>)) ''WS''" by code_simp
  then show ?thesis
    by (intro exI [of _ nd] conjI m, intro node_serves [where json = "[1]" and rest = "[]" and e = Finished,
        OF _ _ m demo_values slice_read_ok _ _ _ vec_write_ok])
      (simp_all add: demo_host_sel demo_laws handshake_ok_def MAX_FRAME_def vec_write_def)
qed

text \<open>C3: The program, from its start and under load: when \<open>main\<close> has started a node, then in every
  run of it, with any number of clients and in any order of its tasks, what a task is about to write of
  the node's own can be checked against the identifier that the configuration's mnemonic determines, and
  is the refusal or what the service said to just this task's packet.\<close>

theorem program_answers_signed:
  assumes "crypto_ok (h_crypto H)" and "json_ok (h_json H)"
    and "main E H entropy f = (Inr (cfg, rt, nd), f')"
    and "list_all (\<lambda>ep. str_ok (ep_name ep)) (endpoint_values H cfg)"
    and "\<And>raw pkt. pkt_read (h_packet H) raw = Some pkt \<Longrightarrow> str_ok (target_provider pkt)"
    and "runs (nd_handler nd) (server_start (nd_shared nd)) ls s"
    and "tasks s (i, j) = Some (Answering pkt a)" and "a = Reject resp \<or> a = Execute (Inr resp)"
  shows "\<exists>status t raw. client_read (h_crypto H) (h_json H) (node_id_of (h_crypto H) rt) resp = Some (status, t, raw)
    \<and> own_answer (nd_handler nd) pkt status raw"
proof -
  note node = node_handler_sel [OF assms(3)]
  from node_well_keyed [OF assms(3,4)] have "well_keyed (h_crypto H) (h_json H) (nd_handler nd)" .
  from answers_signed [OF assms(6,1,2) this _ assms(7,8)] assms(5) show ?thesis by (simp add: node)
qed

lemma program_answers_signed_witness:
  "\<exists>nd ls s resp status t raw. main demo_env demo_host [5] NoFile = (Inr (demo_config, replicate 32 7, nd), TextFile ''y'')
    \<and> runs (nd_handler nd) (server_start (nd_shared nd)) ls s
    \<and> tasks s (0, 0) = Some (Answering (demo_pkt\<lparr>target_provider := []\<rparr>) (Execute (Inr resp)))
    \<and> client_read (h_crypto demo_host) (h_json demo_host) (node_id_of (h_crypto demo_host) (replicate 32 7)) resp
      = Some (status, t, raw)"
proof -
  let ?pkt = "demo_pkt\<lparr>target_provider := []\<rparr>"
  obtain nd where m: "main demo_env demo_host [5] NoFile = (Inr (demo_config, replicate 32 7, nd), TextFile ''y'')"
    by (rule demo_main)
  note node = node_handler_sel [OF m]
  obtain ep where ep: "resolve (proxy (nd_handler nd)) [] = Some ep" by (rule node_default [OF m demo_values(1)])
  have "\<not> eq_ignore_ascii_case (req_method ?pkt) ''WS''" by code_simp
  with ep have route: "route_of (nd_handler nd) True ?pkt True = ToExecute" by (simp add: route_of_def serves_def)
  have "pkt_read (lib_packet (nd_handler nd)) [1] = Some ?pkt" by (simp add: node demo_host_sel)
  then obtain s where s: "runs (nd_handler nd) (server_start (nd_shared nd)) (first_labels ?pkt ToExecute) s"
    "tasks s (0, 0) = Some (Working ?pkt ToExecute)"
    by (rule first_run [of "nd_handler nd" "[1]" ?pkt "nd_shared nd"]) (simp_all add: node route)
  obtain resp where resp: "answer_of (nd_handler nd) ToExecute 0 ?pkt (sh_peers (sv s)) = Execute (Inr resp)"
    using ep by (cases "upstream_answer (lib_json (nd_handler nd))
      (http_send (nd_handler nd) (build_request (lib_http (nd_handler nd)) ep ?pkt))") (simp add: execute_served)
  define t where "t = set_task (0, 0) (Answering ?pkt (Execute (Inr resp))) s"
  have run: "runs (nd_handler nd) (server_start (nd_shared nd)) (first_labels ?pkt ToExecute @ [Silent]) t"
    using runs.more [OF s(1) server_step.answer [OF s(2), where wall = 0]] unfolding resp t_def by simp
  have task: "tasks t (0, 0) = Some (Answering ?pkt (Execute (Inr resp)))" by (simp add: t_def)
  have "str_ok (target_provider pkt)" if "pkt_read (h_packet demo_host) raw = Some pkt" for raw pkt
    using that by (auto simp: demo_host_sel)
  from program_answers_signed [OF _ _ m demo_values(2) this run task, where resp = resp] m run task show ?thesis
    by (simp add: demo_host_sel demo_laws) blast
qed

text \<open>C27: The two versions of the protocol are equivalent for requests: whatever bytes a client sends,
  length-prefixed on a stream of the new protocol or up to the end on a stream of the old one, the
  result, the answer and the state of the node are the same, unless the packet asks for a tunnel to a
  service of this node.\<close>

theorem versions_agree:
  assumes "reader_ok rd pend" and "pend s = (handshake_bytes json @ rest, e)" and "handshake_ok json"
    and "fst (to_end MAX_FRAME s0) = Inr json"
    and "\<And>pkt. pkt_read (lib_packet h) json = Some pkt \<Longrightarrow>
      \<not> eq_ignore_ascii_case (req_method pkt) ''WS'' \<or> \<not> serves (proxy h) (target_provider pkt)"
  shows "handle_stream h W c rd to_end wr fin peer True s w st = handle_stream h W c rd to_end wr fin peer False s0 w st"
proof -
  have v0: "fst (read_request rd to_end False s0) = Inr json"
    using assms(4) by (auto simp: read_request_def split: prod.split sum.split)
  have v1: "fst (read_request rd to_end True s) = Inr json" by (rule read_request_v1 [OF assms(1-3)])
  show ?thesis
  proof (cases "pkt_read (lib_packet h) json")
    case None
    then show ?thesis by (simp add: handle_stream_def v0 v1)
  next
    case (Some pkt)
    have "handle_packet h c peer True pkt st = handle_packet h c peer False pkt st"
      using assms(5) [OF Some] by (auto simp: handle_packet_def Let_def split: prod.split)
    then show ?thesis by (simp add: handle_stream_def v0 v1 Some)
  qed
qed

lemma versions_agree_witness:
  "handle_stream demo_node \<lparr>client_request = (\<lambda>u. None), ws_connect_async = (\<lambda>r. ConnectTimeout), schedule = []\<rparr>
      \<lparr>mono_now = 0, wall_now = 0\<rparr> slice_read (\<lambda>n s. (Inr [1], s)) vec_write (\<lambda>w. (Inr (), w)) ''p'' True
      (handshake_bytes [1] @ [], Finished) [] (demo_shared limiter_new)
   = handle_stream demo_node \<lparr>client_request = (\<lambda>u. None), ws_connect_async = (\<lambda>r. ConnectTimeout), schedule = []\<rparr>
      \<lparr>mono_now = 0, wall_now = 0\<rparr> slice_read (\<lambda>n s. (Inr [1], s)) vec_write (\<lambda>w. (Inr (), w)) ''p'' False
      ([1], Finished) [] (demo_shared limiter_new)"
proof (rule versions_agree [OF slice_read_ok])
  have "\<not> eq_ignore_ascii_case (req_method (demo_packet ''/'' [] [])) ''WS''" by code_simp
  then show "\<not> eq_ignore_ascii_case (req_method pkt) ''WS'' \<or> \<not> serves (proxy demo_node) (target_provider pkt)"
    if "pkt_read (lib_packet demo_node) [1] = Some pkt" for pkt
    using that by (simp add: demo_node_def)
qed (simp_all add: handshake_ok_def MAX_FRAME_def)

text \<open>The node admits no more requests of a peer in a window of time than a bucket and the rate
  of the fastest endpoint it asks for allow, whatever other peers do and whatever the packets say.\<close>

theorem admitted_bound:
  assumes "limiter_ok (sh_limiter st)"
    and "sorted (map fst (calls_of p (map (limiter_call h) rs)))"
    and "\<And>t r. (t, r) \<in> set (calls_of p (map (limiter_call h) rs)) \<Longrightarrow> t0 \<le> t \<and> t \<le> t1 \<and> r \<noteq> 0 \<and> unat r \<le> R"
  shows "of_nat (used (decisions_of p (map (limiter_call h) rs) (map admitted (run_packets h rs st))))
     \<le> of_nat R + of_nat (t1 - t0) / 10 ^ 9 * of_nat R
       + of_nat (length (calls_of p (map (limiter_call h) rs))) * (of_nat R / 2 ^ 50 :: rat)"
  unfolding run_packets_limiter
  using window_bound [OF assms(1,3), of p "map (limiter_call h) rs"] assms(2) by simp

lemma admitted_bound_witness:
  "of_nat (used (decisions_of ''p'' (map (limiter_call demo_node) [(\<lparr>mono_now = 7, wall_now = 0\<rparr>, ''p'', True, demo_packet ''/'' [] [])])
      (map admitted (run_packets demo_node [(\<lparr>mono_now = 7, wall_now = 0\<rparr>, ''p'', True, demo_packet ''/'' [] [])]
        (demo_shared limiter_new)))))
    \<le> of_nat 5 + of_nat (7 - 7) / 10 ^ 9 * of_nat 5
      + of_nat (length (calls_of ''p'' (map (limiter_call demo_node)
          [(\<lparr>mono_now = 7, wall_now = 0\<rparr>, ''p'', True, demo_packet ''/'' [] [])]))) * (of_nat 5 / 2 ^ 50 :: rat)"
proof -
  have "rate_of demo_node (demo_packet ''/'' [] []) = 5" by (rule demo_rate) (simp add: demo_packet_def)
  then show ?thesis
    by (intro admitted_bound) (auto simp: limiter_call_def demo_shared_def limiter_ok_def limiter_new_def)
qed

text \<open>C26: a node keeps its identity: after a successful start, every later start signs with a key that
  clients check against the same identifier.\<close>

theorem identity_kept:
  assumes "crypto_ok L" and "config_env_ok E" and "load_or_init E L entropy f = (Inr (cfg, rt), f')"
  shows "\<exists>cfg' rt'. load_or_init E L entropy' f' = (Inr (cfg', rt'), f') \<and> node_id_of L rt' = node_id_of L rt
    \<and> verify_hex L (node_id_of L rt) msg (sign_hex L (signing_key rt') msg)"
proof -
  have "length rt = 32"
    using load_or_init_root [OF assms(3)] root_length [OF assms(1)] by blast
  then show ?thesis
    using load_or_init_again [OF assms] sign_hex_verifies [OF assms(1)] by blast
qed

lemma identity_kept_witness:
  "\<exists>cfg' rt'. load_or_init demo_env demo_crypto [1] (TextFile ''y'') = (Inr (cfg', rt'), TextFile ''y'')
    \<and> node_id_of demo_crypto rt' = node_id_of demo_crypto (replicate 32 7)
    \<and> verify_hex demo_crypto (node_id_of demo_crypto (replicate 32 7)) [2] (sign_hex demo_crypto (signing_key rt') [2])"
  by (rule identity_kept [OF demo_crypto_ok demo_env_ok demo_start [of "[5]"]])

text \<open>C12: Discovery works end to end: a service that a node announces is reachable through every node that
  hears the announcement and can store it. There the announcing node is a candidate for the
  service's name, every candidate is a node that announced that name, and if it answers, a relayed request is
  answered, with the untouched answer of a candidate.\<close>

theorem announced_service_reachable:
  assumes "crypto_ok L" and "root_from_mnemonic L mnemonic = Inr rt"
    and "\<And>st now clock. (st, now, clock) \<in> set rounds \<Longrightarrow> st_node_id st = node_id_of L rt"
    and "content \<in> set (fst (spawn_discovery L hash SA subscribe rt eps rounds es ds))"
    and "\<And>m. to_json SA m = Some content \<Longrightarrow> from_json S content = Some m"
    and "store_ok S view" and "store_inv S view db"
    and "on_announce L S content wall (db, st) = (db', st')" and "reads_all S db'"
    and "\<And>m. from_json S content = Some m \<Longrightarrow> fst (upsert S (m\<lparr>mf_seen_at := now_secs wall\<rparr>) db) = Inr ()"
    and "ep \<in> set eps" and "target_provider pkt = ep_name ep" and "node_id_of L rt \<noteq> other" and "ttl pkt \<noteq> 0"
    and "forward_to L N P (node_id_of L rt) (next_hop pkt) = Inr resp"
  shows "node_id_of L rt \<in> set (candidates S db' (ep_name ep) other)
    \<and> (\<forall>n \<in> set (candidates S db' (ep_name ep) other).
         \<exists>m \<in> set (peer_list S db'). mf_node_id m = n \<and> ep_name ep \<in> set (mf_endpoints m))
    \<and> (\<exists>n resp'. n \<in> set (candidates S db' (ep_name ep) other)
         \<and> forward_to L N P n (next_hop pkt) = Inr resp' \<and> relay L N P S db' other pkt = Inr resp')"
proof -
  obtain sa now clock where a: "(sa, now, clock) \<in> set rounds"
    "to_json SA (own_manifest L rt eps sa now clock) = Some content"
    by (rule broadcast_manifest [OF assms(4)])
  define m where "m = (own_manifest L rt eps sa now clock)\<lparr>mf_seen_at := now_secs wall\<rparr>"
  have m: "mf_node_id m = node_id_of L rt" "mf_endpoints m = map ep_name eps"
    using assms(3) [OF a(1)] by (simp_all add: m_def own_manifest_sel)
  have js: "from_json S content = Some (own_manifest L rt eps sa now clock)" by (rule assms(5) [OF a(2)])
  then have up: "upsert S m db = (Inr (), db')"
    using assms(8) own_manifest_ok [OF assms(1,2) assms(3) [OF a(1)], of eps now clock] assms(10) [OF js]
    by (auto simp: on_announce_def Let_def m_def prod_eq_iff)
  have "abs_store S view db' (mf_node_id m) = Some m" using upsert_abs [OF assms(6) up] by simp
  moreover have inv: "store_inv S view db'" using upsert_inv [OF assms(6,7), of m] up by simp
  ultimately have "m \<in> set (peer_list S db')" using peer_list_abs(2) [OF assms(6) inv assms(9)] by blast
  then have "node_id_of L rt \<in> set (providers_of S db' (ep_name ep) other)"
    using m assms(11,13) by (force simp: providers_of_def list_ex_iff image_iff)
  then have c: "candidates S db' (ep_name ep) other = providers_of S db' (ep_name ep) other"
    and n: "node_id_of L rt \<in> set (candidates S db' (ep_name ep) other)"
    by (auto simp: candidates_def Let_def)
  have "candidates S db' (ep_name ep) other \<noteq> []" using n by auto
  then obtain resp' where r: "relay L N P S db' other pkt = Inr resp'"
    using try_candidates_total [where fwd = "\<lambda>c. forward_io L N P c (next_hop pkt)", OF n] assms(12,14,15)
    by (auto simp: relay_cases forward_to_def)
  then obtain n' where "n' \<in> set (candidates S db' (ep_name ep) other)" and "forward_to L N P n' (next_hop pkt) = Inr resp'"
    using assms(12) unfolding relay_Inr by (metis in_set_conv_decomp)
  with r n show ?thesis by (auto simp: c providers_of_def list_ex_iff)
qed

lemma announced_service_reachable_witness:
  "\<exists>resp. relay demo_crypto \<lparr>connect = (\<lambda>e. True), open_bi = (\<lambda>e. True), write_out = (\<lambda>e b. True), finish_out = (\<lambda>e. True),
      read_reply = (\<lambda>e b n. Some [9])\<rparr> \<lparr>pkt_read = (\<lambda>b. None), pkt_print = (\<lambda>p. Some [1])\<rparr> replay_store
      (fst (on_announce demo_crypto replay_store [1] (9 * 10 ^ 9) ([], stats_new 0 ''n'' 0 True))) ''me''
      (demo_packet ''/'' [] []) = Inr resp"
proof -
  let ?st = "stats_new 0 (node_id_of demo_crypto (replicate 32 7)) 0 True"
  let ?N = "\<lparr>connect = (\<lambda>e. True), open_bi = (\<lambda>e. True), write_out = (\<lambda>e b. True), finish_out = (\<lambda>e. True),
      read_reply = (\<lambda>e b n. Some [9])\<rparr>"
  let ?P = "\<lparr>pkt_read = (\<lambda>b. None), pkt_print = (\<lambda>p. Some [1])\<rparr> :: packet_codec"
  let ?eps = "[demo_endpoint ''x'' ''http://l'']"
  have old: "own_manifest demo_crypto (replicate 32 7) ?eps ?st 0 0 = old_manifest 0"
    by (simp add: old_manifest_def own_manifest_def Let_def now_secs_def)
  obtain db' st' where on: "on_announce demo_crypto replay_store [1] (9 * 10 ^ 9) ([], stats_new 0 ''n'' 0 True) = (db', st')"
    by fastforce
  have id: "node_id_of demo_crypto (replicate 32 7) \<noteq> ''me''" by code_simp
  have fw: "forward_to demo_crypto ?N ?P (node_id_of demo_crypto (replicate 32 7)) (next_hop (demo_packet ''/'' [] [])) = Inr [9]"
    using node_id_parse [OF demo_crypto_ok, of "replicate 32 7"] by (simp add: forward_to_def forward_io_def)
  have reads: "reads_all replay_store db'" by (simp add: reads_all_def replay_store_def demo_store_def list_all_iff)
  have codec: "to_json replay_store (old_manifest 0) = Some [1]" "from_json replay_store [1] = Some (old_manifest 0)"
    "to_json replay_store m = Some [1] \<Longrightarrow> m = old_manifest 0" for m
    by (auto simp: replay_store_def split: if_split_asm)
  have up: "fst (upsert replay_store ((old_manifest 0)\<lparr>mf_seen_at := now_secs (9 * 10 ^ 9)\<rparr>) []) = Inr ()"
    unfolding old_manifest_seen by (simp add: upsert_def replay_store_def demo_store_def split: prod.split)
  have cast: "[1] \<in> set (fst (spawn_discovery demo_crypto id replay_store (\<lambda>t b. True) (replicate 32 7) ?eps [(?st, 0, 0)] [] ([], ?st)))"
    by (simp only: spawn_discovery_def announcement_def old codec(1) List.map_filter_simps)
      (simp add: old codec(1))
  have "\<exists>n resp'. n \<in> set (candidates replay_store db' (ep_name (demo_endpoint ''x'' ''http://l'')) ''me'')
      \<and> forward_to demo_crypto ?N ?P n (next_hop (demo_packet ''/'' [] [])) = Inr resp'
      \<and> relay demo_crypto ?N ?P replay_store db' ''me'' (demo_packet ''/'' [] []) = Inr resp'"
  proof (rule announced_service_reachable [OF demo_crypto_ok demo_root _ cast _ replay_store_ok _ on reads _ _ _ id _ fw,
        THEN conjunct2, THEN conjunct2])
    show "fst (upsert replay_store (m\<lparr>mf_seen_at := now_secs (9 * 10 ^ 9)\<rparr>) []) = Inr ()"
      if "from_json replay_store [1] = Some m" for m using that codec(2) up by simp
    show "from_json replay_store [1] = Some m" if "to_json replay_store m = Some [1]" for m
      using codec(2) codec(3) [OF that] by simp
  qed (auto simp: stats_new_def store_inv_def demo_packet_def demo_endpoint_def)
  with on show ?thesis by auto
qed

end
